(* ===== verification/Prelude.thy ===== *)
theory Prelude
  imports Main "HOL-Library.Word" "HOL-Library.Char_ord" "HOL-Library.List_Lexorder"
begin

text \<open>
  Shared vocabulary of the development: the result type of fallible operations, Rust's
  checked and saturating integer arithmetic, the ordered maps of the standard library
  (\<open>BTreeMap\<close>, and \<open>HashMap\<close> where only point operations are used), the string operations the
  sources call, the contract of a table with monotonic identifiers and the contract of a
  state machine with an invariant.
\<close>

unbundle bit_operations_syntax

named_theorems omap_simps \<open>lookup, key, length and sum equations of ordered maps\<close>
named_theorems res_simps \<open>case equations of results\<close>

section \<open>Results\<close>

text \<open>
  \<open>NtStatus\<close> is an \<open>i32\<close>; its bit pattern is kept as a 32-bit word. A fallible operation
  returns \<open>Ok\<close> or \<open>Err\<close>; \<open>Panic\<close> is a Rust panic: a failed \<open>expect\<close>, an index out of range,
  or an overflow of plain arithmetic on a 32-bit quantity (as the checked profile traps it).
\<close>

type_synonym nt_status = "32 word"

datatype 'a res = Ok 'a | Err nt_status | Panic

definition is_success :: "nt_status \<Rightarrow> bool" where
  "is_success status \<longleftrightarrow> 0 \<le> sint status"

definition ok_or :: "'a option \<Rightarrow> nt_status \<Rightarrow> 'a res" where
  "ok_or x e = (case x of None \<Rightarrow> Err e | Some v \<Rightarrow> Ok v)"

lemma ok_or_simps [simp, res_simps]:
  "ok_or None e = Err e" "ok_or (Some v) e = Ok v"
  by (simp_all add: ok_or_def)

text \<open>
  The operator \<open>?\<close>: \<open>rbind\<close> in a function of \<open>&self\<close>, \<open>attempt\<close> in one of \<open>&mut self\<close>, where the
  state at the early return is given.
\<close>

definition rbind :: "'a res \<Rightarrow> ('a \<Rightarrow> 'b res) \<Rightarrow> 'b res" where
  "rbind r f = (case r of Ok v \<Rightarrow> f v | Err e \<Rightarrow> Err e | Panic \<Rightarrow> Panic)"

definition attempt :: "'a res \<Rightarrow> 's \<Rightarrow> ('a \<Rightarrow> 'b res \<times> 's) \<Rightarrow> 'b res \<times> 's" where
  "attempt r s f = (case r of Ok v \<Rightarrow> f v | Err e \<Rightarrow> (Err e, s) | Panic \<Rightarrow> (Panic, s))"

lemma rbind_simps [simp, res_simps]:
  "rbind (Ok v) f = f v" "rbind (Err e) f = Err e" "rbind Panic f = Panic"
  by (simp_all add: rbind_def)

lemma attempt_simps [simp, res_simps]:
  "attempt (Ok v) s f = f v" "attempt (Err e) s f = (Err e, s)" "attempt Panic s f = (Panic, s)"
  by (simp_all add: attempt_def)

lemma rbind_eq_Ok: "rbind r f = Ok w \<longleftrightarrow> (\<exists>v. r = Ok v \<and> f v = Ok w)"
  by (cases r) auto

lemma attempt_eq_Ok: "attempt r s f = (Ok w, t) \<longleftrightarrow> (\<exists>v. r = Ok v \<and> f v = (Ok w, t))"
  by (cases r) auto

lemma ok_or_eq_Ok: "ok_or x e = Ok v \<longleftrightarrow> x = Some v"
  by (cases x) auto

text \<open>An operation that returns at \<open>?\<close> fails and leaves the state of that point.\<close>

lemma attemptE:
  assumes "attempt z s f = (r, t)"
  obtains (go) v where "z = Ok v" "f v = (r, t)" | (stop) "\<forall>w. r \<noteq> Ok w" "t = s"
  using assms by (cases z) auto

lemma rbind_neq_Panic: "rbind r f \<noteq> Panic \<longleftrightarrow> r \<noteq> Panic \<and> (\<forall>v. r = Ok v \<longrightarrow> f v \<noteq> Panic)"
  by (cases r) auto

lemma attempt_neq_Panic: "fst (attempt r s f) \<noteq> Panic \<longleftrightarrow> r \<noteq> Panic \<and> (\<forall>v. r = Ok v \<longrightarrow> fst (f v) \<noteq> Panic)"
  by (cases r) auto

lemma snd_attempt: "snd (attempt r s f) = (case r of Ok v \<Rightarrow> snd (f v) | _ \<Rightarrow> s)"
  by (cases r) auto

section \<open>Machine integers\<close>

type_synonym u32 = "32 word"
type_synonym u8 = "8 word"

definition u32_max :: nat where "u32_max = 2 ^ 32 - 1"
definition u64_max :: nat where "u64_max = 2 ^ 64 - 1"

definition checked_add64 :: "nat \<Rightarrow> nat \<Rightarrow> nat option" where
  "checked_add64 a b = (if a + b \<le> u64_max then Some (a + b) else None)"

definition saturating_add64 :: "nat \<Rightarrow> nat \<Rightarrow> nat" where
  "saturating_add64 a b = min (a + b) u64_max"

definition saturating_add32 :: "nat \<Rightarrow> nat \<Rightarrow> nat" where
  "saturating_add32 a b = min (a + b) u32_max"

definition checked_mul64 :: "nat \<Rightarrow> nat \<Rightarrow> nat option" where
  "checked_mul64 a b = (if a * b \<le> u64_max then Some (a * b) else None)"

lemma checked_add64_Some [simp]:
  "checked_add64 a b = Some c \<longleftrightarrow> c = a + b \<and> a + b \<le> u64_max"
  by (auto simp: checked_add64_def)

lemma checked_add64_None [simp]: "checked_add64 a b = None \<longleftrightarrow> u64_max < a + b"
  by (auto simp: checked_add64_def)

lemma checked_mul64_Some [simp]:
  "checked_mul64 a b = Some c \<longleftrightarrow> c = a * b \<and> a * b \<le> u64_max"
  by (auto simp: checked_mul64_def)

lemma saturating_add64_gt: "b \<le> u64_max \<Longrightarrow> saturating_add64 a c \<le> b \<Longrightarrow> b < u64_max \<Longrightarrow> a + c \<le> b"
  by (simp add: saturating_add64_def min_def split: if_splits)

section \<open>Bit masks\<close>

text \<open>\<open>covers g d\<close>: every right of \<open>d\<close> is in \<open>g\<close>.\<close>

definition covers :: "u32 \<Rightarrow> u32 \<Rightarrow> bool" where
  "covers g d \<longleftrightarrow> g AND d = d"

lemma u32_bit_bound: "bit (d :: u32) n \<Longrightarrow> n < 32"
  using bit_imp_le_length [of d n] by simp

lemma covers_bit: "covers g d \<longleftrightarrow> (\<forall>n. bit d n \<longrightarrow> bit g n)"
  by (auto simp: covers_def bit_eq_iff bit_and_iff dest: u32_bit_bound)

lemma covers_refl [simp]: "covers g g" by (simp add: covers_def)
lemma covers_zero [simp]: "covers g 0" by (simp add: covers_def)

lemma covers_trans: "covers a b \<Longrightarrow> covers b c \<Longrightarrow> covers a c"
  by (auto simp: covers_bit)

lemma and_not_eq_0_covers: "d AND NOT g = 0 \<longleftrightarrow> covers g (d :: u32)"
  by (auto simp: covers_bit bit_eq_iff bit_and_iff bit_not_iff dest: u32_bit_bound)

section \<open>Ordered maps\<close>

text \<open>
  A \<open>BTreeMap\<close> is its in-order list of entries. \<open>om_insert\<close> replaces the value of a key that
  is present and otherwise puts the entry at its place; \<open>om_remove\<close> drops the key. The lookup
  is \<open>map_of\<close>. \<open>om_wf\<close> says the keys are strictly ascending.
\<close>

type_synonym ('k, 'v) omap = "('k \<times> 'v) list"

fun om_insert :: "'k::linorder \<Rightarrow> 'v \<Rightarrow> ('k, 'v) omap \<Rightarrow> ('k, 'v) omap" where
  "om_insert k v [] = [(k, v)]"
| "om_insert k v ((k', v') # m) =
     (if k < k' then (k, v) # (k', v') # m
      else if k = k' then (k, v) # m
      else (k', v') # om_insert k v m)"

definition om_remove :: "'k \<Rightarrow> ('k, 'v) omap \<Rightarrow> ('k, 'v) omap" where
  "om_remove k m = filter (\<lambda>e. fst e \<noteq> k) m"

definition om_wf :: "('k::linorder, 'v) omap \<Rightarrow> bool" where
  "om_wf m \<longleftrightarrow> sorted_wrt (<) (map fst m)"

definition om_sum :: "('k \<Rightarrow> 'v \<Rightarrow> nat) \<Rightarrow> ('k, 'v) omap \<Rightarrow> nat" where
  "om_sum f m = sum_list (map (\<lambda>e. f (fst e) (snd e)) m)"

text \<open>\<open>range(..=a).next_back()\<close> and \<open>range(..a).next_back()\<close>.\<close>

definition om_last_le :: "'k::linorder \<Rightarrow> ('k, 'v) omap \<Rightarrow> ('k \<times> 'v) option" where
  "om_last_le a m = (let xs = filter (\<lambda>e. fst e \<le> a) m in if xs = [] then None else Some (last xs))"

definition om_last_less :: "'k::linorder \<Rightarrow> ('k, 'v) omap \<Rightarrow> ('k \<times> 'v) option" where
  "om_last_less a m = (let xs = filter (\<lambda>e. fst e < a) m in if xs = [] then None else Some (last xs))"

lemma om_get_insert [simp, omap_simps]:
  "map_of (om_insert k v m) = (map_of m)(k \<mapsto> v)"
  by (induction k v m rule: om_insert.induct) (auto simp: fun_eq_iff)

lemma om_get_remove [simp, omap_simps]: "map_of (om_remove k m) = (map_of m)(k := None)"
  by (induction m) (auto simp: om_remove_def fun_eq_iff)

lemma om_keys_insert [simp, omap_simps]: "fst ` set (om_insert k v m) = insert k (fst ` set m)"
  by (induction k v m rule: om_insert.induct) auto

lemma om_keys_remove [simp, omap_simps]: "fst ` set (om_remove k m) = fst ` set m - {k}"
  by (auto simp: om_remove_def)

lemma om_keys_dom: "fst ` set m = dom (map_of m)"
  by (simp add: dom_map_of_conv_image_fst)

lemma om_wf_Nil [simp]: "om_wf []" by (simp add: om_wf_def)

lemma om_wf_Cons: "om_wf ((k, v) # m) \<longleftrightarrow> (\<forall>k' \<in> fst ` set m. k < k') \<and> om_wf m"
  by (simp add: om_wf_def)

lemma om_wf_insert [simp, intro]: "om_wf m \<Longrightarrow> om_wf (om_insert k v m)"
proof (induction k v m rule: om_insert.induct)
  case (2 k v k' v' m)
  then show ?case by (fastforce simp: om_wf_Cons)
qed (simp add: om_wf_def)

lemma om_wf_remove [simp, intro]: "om_wf m \<Longrightarrow> om_wf (om_remove k m)"
  unfolding om_wf_def om_remove_def
  by (induction m) auto

lemma om_insert_last: "\<forall>k' \<in> fst ` set m. k' < k \<Longrightarrow> om_insert k v m = m @ [(k, v)]"
  by (induction k v m rule: om_insert.induct) auto

lemma om_wf_distinct: "om_wf m \<Longrightarrow> distinct (map fst m)"
  by (simp add: om_wf_def strict_sorted_iff)

lemma om_wf_sorted: "om_wf m \<Longrightarrow> sorted (map fst m)"
  by (simp add: om_wf_def strict_sorted_iff)

lemma om_get_iff: "om_wf m \<Longrightarrow> map_of m k = Some v \<longleftrightarrow> (k, v) \<in> set m"
  by (simp add: om_wf_distinct)

lemma om_insert_fresh_set:
  "k \<notin> fst ` set m \<Longrightarrow> set (om_insert k v m) = insert (k, v) (set m)"
  by (induction k v m rule: om_insert.induct) auto

lemma om_insert_set:
  "om_wf m \<Longrightarrow> set (om_insert k v m) = insert (k, v) {e \<in> set m. fst e \<noteq> k}"
proof (induction k v m rule: om_insert.induct)
  case (2 k v k' v' m)
  have "\<forall>e \<in> set m. k' < fst e" using "2.prems" by (auto simp: om_wf_Cons)
  with 2 show ?case by (auto simp: om_wf_Cons)
qed simp

lemma om_remove_set: "set (om_remove k m) = {e \<in> set m. fst e \<noteq> k}"
  by (auto simp: om_remove_def)

lemma om_insert_fresh_length:
  "k \<notin> fst ` set m \<Longrightarrow> length (om_insert k v m) = Suc (length m)"
  by (induction k v m rule: om_insert.induct) auto

lemma om_insert_present_length:
  "om_wf m \<Longrightarrow> k \<in> fst ` set m \<Longrightarrow> length (om_insert k v m) = length m"
  by (induction k v m rule: om_insert.induct) (auto simp: om_wf_Cons)

lemma om_remove_length:
  "om_wf m \<Longrightarrow> map_of m k = Some v \<Longrightarrow> Suc (length (om_remove k m)) = length m"
proof (induction m)
  case (Cons e m)
  obtain k' v' where e: "e = (k', v')" by (cases e)
  show ?case
  proof (cases "k' = k")
    case True
    with Cons.prems e have "filter (\<lambda>e. fst e \<noteq> k) m = m"
      by (force simp: om_wf_Cons filter_id_conv)
    with True e show ?thesis by (simp add: om_remove_def)
  next
    case False
    with Cons e show ?thesis by (auto simp: om_remove_def om_wf_Cons)
  qed
qed simp

lemma om_remove_absent: "map_of m k = None \<Longrightarrow> om_remove k m = m"
  by (auto simp: om_remove_def filter_id_conv map_of_eq_None_iff image_iff)

lemma om_eqI:
  assumes "om_wf a" "om_wf b" "map_of a = map_of b"
  shows "a = b"
proof -
  have "set a = set b" using assms by (metis om_get_iff subset_antisym subsetI surj_pair)
  moreover have "inj_on fst (set a)" using om_wf_distinct [OF assms(1)] by (simp add: distinct_map)
  ultimately show ?thesis
    using assms om_wf_sorted om_wf_distinct by (intro map_sorted_distinct_set_unique [of fst]) auto
qed

lemma om_insert_same: "om_wf m \<Longrightarrow> map_of m k = Some v \<Longrightarrow> om_insert k v m = m"
  by (rule om_eqI) auto

lemma om_insert_insert [simp]: "om_insert k v (om_insert k w m) = om_insert k v m"
  by (induction m) auto

lemma om_remove_insert [simp]: "om_remove k (om_insert k v m) = om_remove k m"
  by (induction m) (auto simp: om_remove_def)

lemma om_remove_remove [simp]: "om_remove k (om_remove k m) = om_remove k m"
  by (simp add: om_remove_def)

lemma om_remove_insert_same:
  "om_wf m \<Longrightarrow> map_of m k = Some v \<Longrightarrow> om_insert k v (om_remove k m) = m"
  by (rule om_eqI) (auto simp: fun_eq_iff)

lemma om_sum_Nil [simp]: "om_sum f [] = 0" by (simp add: om_sum_def)

lemma om_sum_Cons [simp]: "om_sum f ((k, v) # m) = f k v + om_sum f m"
  by (simp add: om_sum_def)

lemma om_sum_insert_fresh [omap_simps]:
  "map_of m k = None \<Longrightarrow> om_sum f (om_insert k v m) = f k v + om_sum f m"
  by (induction k v m rule: om_insert.induct) (auto split: if_splits)

lemma om_sum_insert_present:
  "om_wf m \<Longrightarrow> map_of m k = Some w \<Longrightarrow> om_sum f (om_insert k v m) + f k w = om_sum f m + f k v"
proof (induction k v m rule: om_insert.induct)
  case (2 k v k' v' m)
  show ?case
  proof (cases "k < k'")
    case True
    with "2.prems" have False by (force simp: om_wf_Cons dest!: map_of_SomeD split: if_splits)
    then show ?thesis ..
  next
    case False
    with 2 show ?thesis by (auto simp: om_wf_Cons split: if_splits)
  qed
qed simp

lemma om_sum_remove:
  "om_wf m \<Longrightarrow> map_of m k = Some w \<Longrightarrow> om_sum f (om_remove k m) + f k w = om_sum f m"
proof (induction m)
  case (Cons e m)
  obtain k' v' where e: "e = (k', v')" by (cases e)
  show ?case
  proof (cases "k' = k")
    case True
    with Cons.prems e have "filter (\<lambda>e. fst e \<noteq> k) m = m"
      by (force simp: om_wf_Cons filter_id_conv)
    with True e Cons.prems show ?thesis by (simp add: om_remove_def)
  next
    case False
    with Cons e show ?thesis by (auto simp: om_remove_def om_wf_Cons)
  qed
qed simp

lemma om_sum_le: "map_of m k = Some v \<Longrightarrow> f k v \<le> om_sum f m"
  by (induction m) (auto simp: om_sum_def split: if_splits)

lemma om_sum_mono: "(\<And>k v. (k, v) \<in> set m \<Longrightarrow> f k v \<le> g k v) \<Longrightarrow> om_sum f m \<le> om_sum g m"
  by (force simp: om_sum_def intro!: sum_list_mono)

lemma om_sum_zero: "(\<And>k v. (k, v) \<in> set m \<Longrightarrow> f k v = 0) \<Longrightarrow> om_sum f m = 0"
  by (auto simp: om_sum_def sum_list_eq_0_iff)

lemma om_sum_cong:
  "(\<And>k v. (k, v) \<in> set m \<Longrightarrow> f k v = g k v) \<Longrightarrow> om_sum f m = om_sum g m"
  by (induction m) (auto simp: om_sum_def)

text \<open>\<open>if let Some(record) = table.get_mut(k)\<close>: a change of the entry at \<open>k\<close>, if there is one.\<close>

definition om_update :: "'k::linorder \<Rightarrow> ('v \<Rightarrow> 'v) \<Rightarrow> ('k, 'v) omap \<Rightarrow> ('k, 'v) omap" where
  "om_update k f m = (case map_of m k of None \<Rightarrow> m | Some v \<Rightarrow> om_insert k (f v) m)"

lemma om_get_update [simp, omap_simps]:
  "map_of (om_update k f m) = (map_of m)(k := map_option f (map_of m k))"
  by (cases "map_of m k") (auto simp: om_update_def fun_eq_iff)

lemma om_wf_update [simp, intro]: "om_wf m \<Longrightarrow> om_wf (om_update k f m)"
  by (simp add: om_update_def split: option.split)

text \<open>
  \<open>fresh_ids m n\<close>: a table whose identifiers were all issued by the counter, which now stands
  at \<open>n\<close>. The next identifier is then unused.
\<close>

definition fresh_ids :: "(nat, 'v) omap \<Rightarrow> nat \<Rightarrow> bool" where
  "fresh_ids m n \<longleftrightarrow> om_wf m \<and> (\<forall>k \<in> fst ` set m. k < n)"

lemma fresh_ids_wf: "fresh_ids m n \<Longrightarrow> om_wf m"
  by (simp add: fresh_ids_def)

lemma fresh_ids_Nil [simp]: "fresh_ids [] n" by (simp add: fresh_ids_def)

lemma fresh_ids_absent: "fresh_ids m n \<Longrightarrow> n \<le> k \<Longrightarrow> map_of m k = None"
  by (fastforce simp: fresh_ids_def map_of_eq_None_iff)

lemma fresh_ids_bound: "fresh_ids m n \<Longrightarrow> map_of m k = Some v \<Longrightarrow> k < n"
  by (force simp: fresh_ids_def dest: map_of_SomeD)

lemma fresh_ids_alloc [intro]: "fresh_ids m n \<Longrightarrow> n < n' \<Longrightarrow> fresh_ids (om_insert n v m) n'"
  by (force simp: fresh_ids_def)

lemma fresh_ids_update [intro]:
  "fresh_ids m n \<Longrightarrow> map_of m k = Some w \<Longrightarrow> fresh_ids (om_insert k v m) n"
  by (force simp: fresh_ids_def dest: map_of_SomeD)

lemma fresh_ids_om_update [simp, intro]: "fresh_ids m n \<Longrightarrow> fresh_ids (om_update k f m) n"
  by (auto simp: om_update_def split: option.split)

lemma fresh_ids_remove [intro]: "fresh_ids m n \<Longrightarrow> fresh_ids (om_remove k m) n"
  by (auto simp: fresh_ids_def)

text \<open>A change of all values of a table, as \<open>values_mut\<close> gives it.\<close>

lemma map_values_get: "map_of (map (\<lambda>(k, v). (k, f v)) m) k = map_option f (map_of m k)"
  by (simp add: map_of_map)

lemma map_values_keys: "map fst (map (\<lambda>(k, v). (k, f v)) m) = map fst m"
  by (simp add: case_prod_beta)

lemma fresh_ids_map_values: "fresh_ids m n \<Longrightarrow> fresh_ids (map (\<lambda>(k, v). (k, f v)) m) n"
  unfolding fresh_ids_def om_wf_def set_map [symmetric] map_values_keys by simp

lemma fresh_ids_mono: "fresh_ids m n \<Longrightarrow> n \<le> n' \<Longrightarrow> fresh_ids m n'"
  by (fastforce simp: fresh_ids_def)

section \<open>Strings\<close>

text \<open>
  Names are ASCII strings. On them \<open>trim\<close> removes the ASCII white space of Rust's
  \<open>char::is_whitespace\<close>, and \<open>to_lowercase\<close> and \<open>to_ascii_lowercase\<close> coincide.
\<close>

definition is_whitespace :: "char \<Rightarrow> bool" where
  "is_whitespace c \<longleftrightarrow> c = CHR 0x09 \<or> c = CHR 0x0A \<or> c = CHR 0x0B \<or> c = CHR 0x0C \<or> c = CHR 0x0D \<or> c = CHR '' ''"

definition str_trim :: "string \<Rightarrow> string" where
  "str_trim s = rev (dropWhile is_whitespace (rev (dropWhile is_whitespace s)))"

definition lower_char :: "char \<Rightarrow> char" where
  "lower_char c = (if CHR ''A'' \<le> c \<and> c \<le> CHR ''Z'' then char_of (of_char c + (32 :: nat)) else c)"

definition to_lowercase :: "string \<Rightarrow> string" where
  "to_lowercase s = map lower_char s"

definition str_contains :: "string \<Rightarrow> char \<Rightarrow> bool" where
  "str_contains s c \<longleftrightarrow> c \<in> set s"

lemma to_lowercase_append [simp]: "to_lowercase (a @ b) = to_lowercase a @ to_lowercase b"
  by (simp add: to_lowercase_def)

lemma lower_char_idem [simp]: "lower_char (lower_char c) = lower_char c"
proof (cases "CHR ''A'' \<le> c \<and> c \<le> CHR ''Z''")
  case True
  then have r: "65 \<le> (of_char c :: nat)" "(of_char c :: nat) \<le> 90"
    by (simp_all add: less_eq_char_def)
  then have "of_char (lower_char c) = (of_char c + 32 :: nat)"
    using True by (simp add: lower_char_def)
  with r have "\<not> lower_char c \<le> CHR ''Z''" by (simp add: less_eq_char_def)
  then show ?thesis by (simp add: lower_char_def)
qed (auto simp: lower_char_def)

lemma to_lowercase_idem [simp]: "to_lowercase (to_lowercase s) = to_lowercase s"
  by (simp add: to_lowercase_def)

section \<open>State machines\<close>

text \<open>
  The contract of a component with an invariant: its initial states have it and every step of
  its operations keeps it. Then every state reached by a sequence of operations has it.
\<close>

locale invariant_system =
  fixes init :: "'s \<Rightarrow> bool" and step :: "'s \<Rightarrow> 's \<Rightarrow> bool" and inv :: "'s \<Rightarrow> bool"
  assumes init_inv: "init s \<Longrightarrow> inv s"
    and step_inv: "step s t \<Longrightarrow> inv s \<Longrightarrow> inv t"
begin

lemma steps_inv: "step\<^sup>*\<^sup>* s t \<Longrightarrow> inv s \<Longrightarrow> inv t"
  by (induction rule: rtranclp_induct) (auto intro: step_inv)

lemma reachable_inv: "init s \<Longrightarrow> step\<^sup>*\<^sup>* s t \<Longrightarrow> inv t"
  by (blast intro: steps_inv init_inv)

end

end
