(* ===== verification/Status.thy ===== *)
theory Status
  imports Prelude
begin

text \<open>
  The NTSTATUS values of \<open>src/src/casak/status.rs\<close> (and \<open>STATUS_MUTANT_NOT_OWNED\<close> of
  \<open>object.rs\<close>), as bit patterns of the \<open>i32\<close> constants. \<open>is_success\<close> is in the prelude.
\<close>

definition STATUS_SUCCESS :: nt_status where "STATUS_SUCCESS = 0"
definition STATUS_WAIT_0 :: nt_status where "STATUS_WAIT_0 = 0"
definition STATUS_ABANDONED_WAIT_0 :: nt_status where "STATUS_ABANDONED_WAIT_0 = 0x00000080"
definition STATUS_USER_APC :: nt_status where "STATUS_USER_APC = 0x000000C0"
definition STATUS_TIMEOUT :: nt_status where "STATUS_TIMEOUT = 0x00000102"
definition STATUS_PENDING :: nt_status where "STATUS_PENDING = 0x00000103"
definition STATUS_BUFFER_OVERFLOW :: nt_status where "STATUS_BUFFER_OVERFLOW = 0x80000005"
definition STATUS_NO_MORE_ENTRIES :: nt_status where "STATUS_NO_MORE_ENTRIES = 0x8000001A"
definition STATUS_INVALID_INFO_CLASS :: nt_status where "STATUS_INVALID_INFO_CLASS = 0xC0000003"
definition STATUS_ACCESS_VIOLATION :: nt_status where "STATUS_ACCESS_VIOLATION = 0xC0000005"
definition STATUS_INVALID_HANDLE :: nt_status where "STATUS_INVALID_HANDLE = 0xC0000008"
definition STATUS_INVALID_PARAMETER :: nt_status where "STATUS_INVALID_PARAMETER = 0xC000000D"
definition STATUS_INVALID_DEVICE_REQUEST :: nt_status where "STATUS_INVALID_DEVICE_REQUEST = 0xC0000010"
definition STATUS_MORE_PROCESSING_REQUIRED :: nt_status where "STATUS_MORE_PROCESSING_REQUIRED = 0xC0000016"
definition STATUS_NO_MEMORY :: nt_status where "STATUS_NO_MEMORY = 0xC0000017"
definition STATUS_CONFLICTING_ADDRESSES :: nt_status where "STATUS_CONFLICTING_ADDRESSES = 0xC0000018"
definition STATUS_INVALID_VIEW_SIZE :: nt_status where "STATUS_INVALID_VIEW_SIZE = 0xC000001F"
definition STATUS_ALREADY_COMMITTED :: nt_status where "STATUS_ALREADY_COMMITTED = 0xC0000021"
definition STATUS_ACCESS_DENIED :: nt_status where "STATUS_ACCESS_DENIED = 0xC0000022"
definition STATUS_BUFFER_TOO_SMALL :: nt_status where "STATUS_BUFFER_TOO_SMALL = 0xC0000023"
definition STATUS_NOT_COMMITTED :: nt_status where "STATUS_NOT_COMMITTED = 0xC000002D"
definition STATUS_INVALID_PORT_ATTRIBUTES :: nt_status where "STATUS_INVALID_PORT_ATTRIBUTES = 0xC000002E"
definition STATUS_PORT_MESSAGE_TOO_LONG :: nt_status where "STATUS_PORT_MESSAGE_TOO_LONG = 0xC000002F"
definition STATUS_OBJECT_TYPE_MISMATCH :: nt_status where "STATUS_OBJECT_TYPE_MISMATCH = 0xC00000EA"
definition STATUS_OBJECT_NAME_INVALID :: nt_status where "STATUS_OBJECT_NAME_INVALID = 0xC0000033"
definition STATUS_OBJECT_NAME_NOT_FOUND :: nt_status where "STATUS_OBJECT_NAME_NOT_FOUND = 0xC0000034"
definition STATUS_OBJECT_NAME_COLLISION :: nt_status where "STATUS_OBJECT_NAME_COLLISION = 0xC0000035"
definition STATUS_PORT_DISCONNECTED :: nt_status where "STATUS_PORT_DISCONNECTED = 0xC0000037"
definition STATUS_OBJECT_PATH_INVALID :: nt_status where "STATUS_OBJECT_PATH_INVALID = 0xC0000039"
definition STATUS_OBJECT_PATH_NOT_FOUND :: nt_status where "STATUS_OBJECT_PATH_NOT_FOUND = 0xC000003A"
definition STATUS_SECTION_TOO_BIG :: nt_status where "STATUS_SECTION_TOO_BIG = 0xC0000040"
definition STATUS_PORT_CONNECTION_REFUSED :: nt_status where "STATUS_PORT_CONNECTION_REFUSED = 0xC0000041"
definition STATUS_INVALID_PORT_HANDLE :: nt_status where "STATUS_INVALID_PORT_HANDLE = 0xC0000042"
definition STATUS_INVALID_PAGE_PROTECTION :: nt_status where "STATUS_INVALID_PAGE_PROTECTION = 0xC0000045"
definition STATUS_SEMAPHORE_LIMIT_EXCEEDED :: nt_status where "STATUS_SEMAPHORE_LIMIT_EXCEEDED = 0xC0000047"
definition STATUS_INVALID_SID :: nt_status where "STATUS_INVALID_SID = 0xC0000078"
definition STATUS_SECTION_NOT_EXTENDED :: nt_status where "STATUS_SECTION_NOT_EXTENDED = 0xC0000087"
definition STATUS_INSUFFICIENT_RESOURCES :: nt_status where "STATUS_INSUFFICIENT_RESOURCES = 0xC000009A"
definition STATUS_DEVICE_NOT_READY :: nt_status where "STATUS_DEVICE_NOT_READY = 0xC00000A3"
definition STATUS_NOT_SUPPORTED :: nt_status where "STATUS_NOT_SUPPORTED = 0xC00000BB"
definition STATUS_PROCESS_IS_TERMINATING :: nt_status where "STATUS_PROCESS_IS_TERMINATING = 0xC000010A"
definition STATUS_CANCELLED :: nt_status where "STATUS_CANCELLED = 0xC0000120"
definition STATUS_COMMITMENT_LIMIT :: nt_status where "STATUS_COMMITMENT_LIMIT = 0xC000012D"
definition STATUS_INVALID_ADDRESS :: nt_status where "STATUS_INVALID_ADDRESS = 0xC0000141"
definition STATUS_KEY_HAS_CHILDREN :: nt_status where "STATUS_KEY_HAS_CHILDREN = 0xC0000180"
definition STATUS_INVALID_DEVICE_STATE :: nt_status where "STATUS_INVALID_DEVICE_STATE = 0xC0000184"
definition STATUS_REPLY_MESSAGE_MISMATCH :: nt_status where "STATUS_REPLY_MESSAGE_MISMATCH = 0xC000021F"
definition STATUS_NOT_FOUND :: nt_status where "STATUS_NOT_FOUND = 0xC0000225"
definition STATUS_PORT_UNREACHABLE :: nt_status where "STATUS_PORT_UNREACHABLE = 0xC000023F"
definition STATUS_POWER_STATE_INVALID :: nt_status where "STATUS_POWER_STATE_INVALID = 0xC00002D3"
definition STATUS_DEVICE_HARDWARE_ERROR :: nt_status where "STATUS_DEVICE_HARDWARE_ERROR = 0xC0000483"
definition STATUS_PRIVILEGE_NOT_HELD :: nt_status where "STATUS_PRIVILEGE_NOT_HELD = 0xC0000061"
definition STATUS_THREAD_IS_TERMINATING :: nt_status where "STATUS_THREAD_IS_TERMINATING = 0xC000004B"
definition STATUS_UNSUCCESSFUL :: nt_status where "STATUS_UNSUCCESSFUL = 0xC0000001"
definition STATUS_DELETE_PENDING :: nt_status where "STATUS_DELETE_PENDING = 0xC0000056"
definition STATUS_DEVICE_BUSY :: nt_status where "STATUS_DEVICE_BUSY = 0x80000011"
definition STATUS_MUTANT_NOT_OWNED :: nt_status where "STATUS_MUTANT_NOT_OWNED = 0xC0000046"

lemmas status_defs =
  STATUS_SUCCESS_def STATUS_WAIT_0_def STATUS_ABANDONED_WAIT_0_def STATUS_USER_APC_def
  STATUS_TIMEOUT_def STATUS_PENDING_def STATUS_BUFFER_OVERFLOW_def
  STATUS_NO_MORE_ENTRIES_def STATUS_INVALID_INFO_CLASS_def STATUS_ACCESS_VIOLATION_def
  STATUS_INVALID_HANDLE_def STATUS_INVALID_PARAMETER_def STATUS_INVALID_DEVICE_REQUEST_def
  STATUS_MORE_PROCESSING_REQUIRED_def STATUS_NO_MEMORY_def STATUS_CONFLICTING_ADDRESSES_def
  STATUS_INVALID_VIEW_SIZE_def STATUS_ALREADY_COMMITTED_def STATUS_ACCESS_DENIED_def
  STATUS_BUFFER_TOO_SMALL_def STATUS_NOT_COMMITTED_def STATUS_INVALID_PORT_ATTRIBUTES_def
  STATUS_PORT_MESSAGE_TOO_LONG_def STATUS_OBJECT_TYPE_MISMATCH_def
  STATUS_OBJECT_NAME_INVALID_def STATUS_OBJECT_NAME_NOT_FOUND_def
  STATUS_OBJECT_NAME_COLLISION_def STATUS_PORT_DISCONNECTED_def
  STATUS_OBJECT_PATH_INVALID_def STATUS_OBJECT_PATH_NOT_FOUND_def
  STATUS_SECTION_TOO_BIG_def STATUS_PORT_CONNECTION_REFUSED_def
  STATUS_INVALID_PORT_HANDLE_def STATUS_INVALID_PAGE_PROTECTION_def
  STATUS_SEMAPHORE_LIMIT_EXCEEDED_def STATUS_INVALID_SID_def
  STATUS_SECTION_NOT_EXTENDED_def STATUS_INSUFFICIENT_RESOURCES_def
  STATUS_DEVICE_NOT_READY_def STATUS_NOT_SUPPORTED_def STATUS_PROCESS_IS_TERMINATING_def
  STATUS_CANCELLED_def STATUS_COMMITMENT_LIMIT_def STATUS_INVALID_ADDRESS_def
  STATUS_KEY_HAS_CHILDREN_def STATUS_INVALID_DEVICE_STATE_def
  STATUS_REPLY_MESSAGE_MISMATCH_def STATUS_NOT_FOUND_def STATUS_PORT_UNREACHABLE_def
  STATUS_POWER_STATE_INVALID_def STATUS_DEVICE_HARDWARE_ERROR_def
  STATUS_PRIVILEGE_NOT_HELD_def STATUS_THREAD_IS_TERMINATING_def STATUS_UNSUCCESSFUL_def
  STATUS_DELETE_PENDING_def STATUS_DEVICE_BUSY_def STATUS_MUTANT_NOT_OWNED_def

text \<open>Only the informational values report success: bit 31 is the severity of an error or warning.\<close>

lemma is_success_bit: "is_success s \<longleftrightarrow> \<not> bit s 31"
  using bit_last_iff [of s] by (simp add: is_success_def linorder_not_less [symmetric])

end
