(* ===== verification/Object_Manager.thy ===== *)
theory Object_Manager
  imports Status
begin

text \<open>
  The NT object manager of \<open>src/src/casak/object.rs\<close>: typed objects with reference counts,
  per-process handle tables, the \<open>\BaseNamedObjects\<close> namespace and finalization. Operations
  take the manager and return a result and the manager after the call; a \<open>&self\<close> query returns
  only its result. Object identifiers and the finalization counter are \<open>u64\<close> and are unbounded
  here; reference counts, handle values and recursion counts are \<open>u32\<close> and trap on overflow.
\<close>

section \<open>Objects and payloads\<close>

datatype object_type =
  TProcess | TThread | TFile | TEvent | TMutant | TSection | TKey | TDevice | TDriver | TIoCompletion

fun object_type_name :: "object_type \<Rightarrow> string" where
  "object_type_name TProcess = ''Process''"
| "object_type_name TThread = ''Thread''"
| "object_type_name TFile = ''File''"
| "object_type_name TEvent = ''Event''"
| "object_type_name TMutant = ''Mutant''"
| "object_type_name TSection = ''Section''"
| "object_type_name TKey = ''Key''"
| "object_type_name TDevice = ''Device''"
| "object_type_name TDriver = ''Driver''"
| "object_type_name TIoCompletion = ''IoCompletion''"

record process_payload =
  pp_process_id :: nat
  pp_image_name :: string
  pp_terminated :: bool

record thread_payload =
  tp_thread_id :: nat
  tp_owner_process_id :: nat
  tp_suspended :: bool

record file_payload =
  fp_path :: string
  fp_readable :: bool
  fp_writable :: bool
  fp_position :: nat

record event_payload =
  ev_manual_reset :: bool
  ev_signaled :: bool

record mutant_payload =
  mu_owner_thread :: "nat option"
  mu_recursion :: nat
  mu_abandoned :: bool

record section_payload =
  sp_maximum_size :: nat
  sp_mapped :: bool

record key_payload =
  kp_path :: string
  kp_values :: "(string, string) omap"

record device_payload =
  dp_device_name :: string

record driver_payload =
  dr_driver_name :: string
  dr_loaded :: bool

record io_completion_payload =
  io_queue_depth :: nat
  io_pending :: nat

definition mutant_payload_new :: mutant_payload where
  "mutant_payload_new = \<lparr>mu_owner_thread = None, mu_recursion = 0, mu_abandoned = False\<rparr>"

definition event_payload_new :: "bool \<Rightarrow> bool \<Rightarrow> event_payload" where
  "event_payload_new manual_reset signaled = \<lparr>ev_manual_reset = manual_reset, ev_signaled = signaled\<rparr>"

definition file_payload_new :: "string \<Rightarrow> bool \<Rightarrow> bool \<Rightarrow> file_payload" where
  "file_payload_new path readable writable =
     \<lparr>fp_path = path, fp_readable = readable, fp_writable = writable, fp_position = 0\<rparr>"

datatype object_payload =
    PProcess process_payload
  | PThread thread_payload
  | PFile file_payload
  | PEvent event_payload
  | PMutant mutant_payload
  | PSection section_payload
  | PKey key_payload
  | PDevice device_payload
  | PDriver driver_payload
  | PIoCompletion io_completion_payload

fun payload_kind :: "object_payload \<Rightarrow> object_type" where
  "payload_kind (PProcess _) = TProcess"
| "payload_kind (PThread _) = TThread"
| "payload_kind (PFile _) = TFile"
| "payload_kind (PEvent _) = TEvent"
| "payload_kind (PMutant _) = TMutant"
| "payload_kind (PSection _) = TSection"
| "payload_kind (PKey _) = TKey"
| "payload_kind (PDevice _) = TDevice"
| "payload_kind (PDriver _) = TDriver"
| "payload_kind (PIoCompletion _) = TIoCompletion"

section \<open>Access rights\<close>

definition GENERIC_READ :: u32 where "GENERIC_READ = 0x80000000"
definition GENERIC_WRITE :: u32 where "GENERIC_WRITE = 0x40000000"
definition GENERIC_ALL :: u32 where "GENERIC_ALL = 0x10000000"
definition DELETE :: u32 where "DELETE = 0x00010000"
definition READ_CONTROL :: u32 where "READ_CONTROL = 0x00020000"
definition WRITE_DAC :: u32 where "WRITE_DAC = 0x00040000"
definition SYNCHRONIZE :: u32 where "SYNCHRONIZE = 0x00100000"
definition FILE_READ_DATA :: u32 where "FILE_READ_DATA = 0x00000001"
definition FILE_WRITE_DATA :: u32 where "FILE_WRITE_DATA = 0x00000002"
definition FILE_APPEND_DATA :: u32 where "FILE_APPEND_DATA = 0x00000004"
definition FILE_EXECUTE :: u32 where "FILE_EXECUTE = 0x00000020"
definition EVENT_MODIFY_STATE :: u32 where "EVENT_MODIFY_STATE = 0x00000002"
definition EVENT_QUERY_STATE :: u32 where "EVENT_QUERY_STATE = 0x00000001"
definition MUTANT_QUERY_STATE :: u32 where "MUTANT_QUERY_STATE = 0x00000001"
definition SECTION_QUERY :: u32 where "SECTION_QUERY = 0x00000001"
definition SECTION_MAP_WRITE :: u32 where "SECTION_MAP_WRITE = 0x00000002"
definition SECTION_MAP_READ :: u32 where "SECTION_MAP_READ = 0x00000004"
definition KEY_QUERY_VALUE :: u32 where "KEY_QUERY_VALUE = 0x00000001"
definition KEY_SET_VALUE :: u32 where "KEY_SET_VALUE = 0x00000002"
definition PROCESS_TERMINATE :: u32 where "PROCESS_TERMINATE = 0x00000001"
definition PROCESS_QUERY_INFORMATION :: u32 where "PROCESS_QUERY_INFORMATION = 0x00000400"
definition THREAD_TERMINATE :: u32 where "THREAD_TERMINATE = 0x00000001"
definition THREAD_QUERY_INFORMATION :: u32 where "THREAD_QUERY_INFORMATION = 0x00000400"
definition IO_COMPLETION_MODIFY_STATE :: u32 where "IO_COMPLETION_MODIFY_STATE = 0x00000002"

lemmas access_defs =
  GENERIC_READ_def GENERIC_WRITE_def GENERIC_ALL_def DELETE_def READ_CONTROL_def WRITE_DAC_def
  SYNCHRONIZE_def FILE_READ_DATA_def FILE_WRITE_DATA_def FILE_APPEND_DATA_def FILE_EXECUTE_def
  EVENT_MODIFY_STATE_def EVENT_QUERY_STATE_def MUTANT_QUERY_STATE_def SECTION_QUERY_def
  SECTION_MAP_WRITE_def SECTION_MAP_READ_def KEY_QUERY_VALUE_def KEY_SET_VALUE_def
  PROCESS_TERMINATE_def PROCESS_QUERY_INFORMATION_def THREAD_TERMINATE_def
  THREAD_QUERY_INFORMATION_def IO_COMPLETION_MODIFY_STATE_def

fun specific_read :: "object_type \<Rightarrow> u32" where
  "specific_read TProcess = PROCESS_QUERY_INFORMATION OR SYNCHRONIZE"
| "specific_read TThread = THREAD_QUERY_INFORMATION OR SYNCHRONIZE"
| "specific_read TFile = FILE_READ_DATA OR FILE_EXECUTE OR SYNCHRONIZE"
| "specific_read TEvent = EVENT_QUERY_STATE OR SYNCHRONIZE"
| "specific_read TMutant = MUTANT_QUERY_STATE OR SYNCHRONIZE"
| "specific_read TSection = SECTION_QUERY OR SECTION_MAP_READ OR SYNCHRONIZE"
| "specific_read TKey = KEY_QUERY_VALUE"
| "specific_read TDevice = SYNCHRONIZE"
| "specific_read TDriver = SYNCHRONIZE"
| "specific_read TIoCompletion = SYNCHRONIZE"

fun specific_write :: "object_type \<Rightarrow> u32" where
  "specific_write TProcess = PROCESS_TERMINATE"
| "specific_write TThread = THREAD_TERMINATE"
| "specific_write TFile = FILE_WRITE_DATA OR FILE_APPEND_DATA"
| "specific_write TEvent = EVENT_MODIFY_STATE"
| "specific_write TMutant = 0"
| "specific_write TSection = SECTION_MAP_WRITE"
| "specific_write TKey = KEY_SET_VALUE"
| "specific_write TDevice = 0"
| "specific_write TDriver = 0"
| "specific_write TIoCompletion = IO_COMPLETION_MODIFY_STATE"

definition specific_all :: "object_type \<Rightarrow> u32" where
  "specific_all kind = specific_read kind OR specific_write kind OR DELETE OR READ_CONTROL OR WRITE_DAC"

definition map_generic_access :: "object_type \<Rightarrow> u32 \<Rightarrow> u32" where
  "map_generic_access kind access =
     (let expanded = access AND NOT (GENERIC_READ OR GENERIC_WRITE OR GENERIC_ALL)
      in if access AND GENERIC_ALL \<noteq> 0 then expanded OR specific_all kind
         else let expanded = (if access AND GENERIC_READ \<noteq> 0 then expanded OR specific_read kind else expanded)
              in if access AND GENERIC_WRITE \<noteq> 0 then expanded OR specific_write kind else expanded)"

definition access_granted :: "u32 \<Rightarrow> u32 \<Rightarrow> object_type \<Rightarrow> bool" where
  "access_granted granted desired kind =
     (let needed = map_generic_access kind desired
      in needed = 0 \<or> granted AND needed = needed)"

section \<open>State\<close>

record object_entry =
  oe_id :: nat
  oe_kind :: object_type
  oe_name :: "string option"
  oe_payload :: object_payload
  oe_ref_count :: nat

record handle_entry =
  he_handle :: nat
  he_object :: nat
  he_access :: u32
  he_inheritable :: bool

record handle_table =
  ht_next_handle :: nat
  ht_handles :: "(nat, handle_entry) omap"

text \<open>
  \<open>on_finalize\<close> is the registered callback: \<open>None\<close> when there is none, otherwise the sequence of
  calls it has received.
\<close>

record object_manager =
  objects :: "(nat, object_entry) omap"
  namespace :: "(string, nat) omap"
  processes :: "(nat, handle_table) omap"
  next_object_id :: nat
  finalized :: nat
  finalized_log :: "nat list"
  on_finalize :: "(nat \<times> object_type \<times> object_payload) list option"

definition handle_table_new :: handle_table where
  "handle_table_new = \<lparr>ht_next_handle = 4, ht_handles = []\<rparr>"

definition allocate_handle :: "handle_table \<Rightarrow> nat res \<times> handle_table" where
  "allocate_handle t =
     (if u32_max < ht_next_handle t + 4 then (Panic, t)
      else (Ok (ht_next_handle t), t\<lparr>ht_next_handle := ht_next_handle t + 4\<rparr>))"

definition object_manager_new :: object_manager where
  "object_manager_new = \<lparr>objects = [], namespace = [], processes = [], next_object_id = 1,
     finalized = 0, finalized_log = [], on_finalize = None\<rparr>"

definition with_finalizer :: object_manager where
  "with_finalizer = object_manager_new\<lparr>on_finalize := Some []\<rparr>"

section \<open>Names\<close>

definition backslash :: char where "backslash = CHR 0x5C"

definition normalize_name :: "string \<Rightarrow> string res" where
  "normalize_name name =
     (let trimmed = str_trim name
      in if trimmed = [] \<or> str_contains trimmed (CHR 0x00) then Err STATUS_OBJECT_NAME_INVALID
         else if str_contains trimmed backslash then
           (if hd trimmed = backslash then Ok trimmed else Ok (backslash # trimmed))
         else Ok (backslash # ''BaseNamedObjects'' @ backslash # trimmed))"

definition name_key :: "string \<Rightarrow> string" where
  "name_key name = to_lowercase name"

definition base_named_objects_path :: "string \<Rightarrow> string" where
  "base_named_objects_path name =
     (case normalize_name name of Ok n \<Rightarrow> n
      | _ \<Rightarrow> backslash # ''BaseNamedObjects'' @ backslash # name)"

section \<open>Operations\<close>

definition query_object :: "object_manager \<Rightarrow> nat \<Rightarrow> object_entry res" where
  "query_object m i = ok_or (map_of (objects m) i) STATUS_INVALID_HANDLE"

definition ref_count :: "object_manager \<Rightarrow> nat \<Rightarrow> nat res" where
  "ref_count m i = ok_or (map_option oe_ref_count (map_of (objects m) i)) STATUS_INVALID_HANDLE"

definition insert_object ::
  "object_manager \<Rightarrow> object_type \<Rightarrow> object_payload \<Rightarrow> string option \<Rightarrow> nat res \<times> object_manager" where
  "insert_object m kind payload normalized =
     (let i = next_object_id m;
          entry = \<lparr>oe_id = i, oe_kind = kind, oe_name = normalized, oe_payload = payload, oe_ref_count = 1\<rparr>;
          m1 = m\<lparr>next_object_id := i + 1, objects := om_insert i entry (objects m)\<rparr>
      in (Ok i, case normalized of None \<Rightarrow> m1
                | Some canonical \<Rightarrow> m1\<lparr>namespace := om_insert (name_key canonical) i (namespace m)\<rparr>))"

definition create_object ::
  "object_manager \<Rightarrow> object_type \<Rightarrow> object_payload \<Rightarrow> string option \<Rightarrow> nat res \<times> object_manager" where
  "create_object m kind payload name =
     (if payload_kind payload \<noteq> kind then (Err STATUS_OBJECT_TYPE_MISMATCH, m)
      else case name of
        None \<Rightarrow> insert_object m kind payload None
      | Some name \<Rightarrow>
          (case normalize_name name of
             Err e \<Rightarrow> (Err e, m)
           | Panic \<Rightarrow> (Panic, m)
           | Ok canonical \<Rightarrow>
               if map_of (namespace m) (name_key canonical) \<noteq> None
               then (Err STATUS_OBJECT_NAME_COLLISION, m)
               else insert_object m kind payload (Some canonical)))"

definition open_object :: "object_manager \<Rightarrow> string \<Rightarrow> object_type \<Rightarrow> nat res \<times> object_manager" where
  "open_object m name kind =
     (case normalize_name name of
        Err e \<Rightarrow> (Err e, m)
      | Panic \<Rightarrow> (Panic, m)
      | Ok canonical \<Rightarrow>
          (case map_of (namespace m) (name_key canonical) of
             None \<Rightarrow> (Err STATUS_OBJECT_NAME_NOT_FOUND, m)
           | Some i \<Rightarrow>
               (case map_of (objects m) i of
                  None \<Rightarrow> (Err STATUS_OBJECT_NAME_NOT_FOUND, m)
                | Some entry \<Rightarrow>
                    if oe_kind entry \<noteq> kind then (Err STATUS_OBJECT_TYPE_MISMATCH, m)
                    else if u32_max < oe_ref_count entry + 1 then (Panic, m)
                    else (Ok i, m\<lparr>objects := om_insert i
                           (entry\<lparr>oe_ref_count := oe_ref_count entry + 1\<rparr>) (objects m)\<rparr>))))"

definition destroy :: "object_manager \<Rightarrow> nat \<Rightarrow> object_manager" where
  "destroy m i =
     (case map_of (objects m) i of
        None \<Rightarrow> m
      | Some entry \<Rightarrow>
          m\<lparr>objects := om_remove i (objects m),
            namespace := (case oe_name entry of None \<Rightarrow> namespace m
                          | Some name \<Rightarrow> om_remove (name_key name) (namespace m)),
            finalized := finalized m + 1,
            finalized_log := finalized_log m @ [i],
            on_finalize := map_option (\<lambda>calls. calls @ [(i, oe_kind entry, oe_payload entry)]) (on_finalize m)\<rparr>)"

definition drop_reference :: "object_manager \<Rightarrow> nat \<Rightarrow> nat res \<times> object_manager" where
  "drop_reference m i =
     (case map_of (objects m) i of
        None \<Rightarrow> (Err STATUS_INVALID_HANDLE, m)
      | Some entry \<Rightarrow>
          let remaining = oe_ref_count entry - 1;
              m1 = m\<lparr>objects := om_insert i (entry\<lparr>oe_ref_count := remaining\<rparr>) (objects m)\<rparr>
          in (Ok remaining, if remaining = 0 then destroy m1 i else m1))"

definition release_object :: "object_manager \<Rightarrow> nat \<Rightarrow> nat res \<times> object_manager" where
  "release_object m i = drop_reference m i"

definition grant_handle ::
  "object_manager \<Rightarrow> nat \<Rightarrow> nat \<Rightarrow> u32 \<Rightarrow> bool \<Rightarrow> nat res \<times> object_manager" where
  "grant_handle m process_id obj access inheritable =
     (case map_of (objects m) obj of
        None \<Rightarrow> (Err STATUS_INVALID_HANDLE, m)
      | Some entry \<Rightarrow>
          if u32_max < oe_ref_count entry + 1 then (Panic, m)
          else
            let expanded = map_generic_access (oe_kind entry) access;
                table = (case map_of (processes m) process_id of None \<Rightarrow> handle_table_new | Some t \<Rightarrow> t)
            in case allocate_handle table of
                 (Ok h, table') \<Rightarrow>
                   (Ok h, m\<lparr>objects := om_insert obj (entry\<lparr>oe_ref_count := oe_ref_count entry + 1\<rparr>) (objects m),
                            processes := om_insert process_id
                              (table'\<lparr>ht_handles := om_insert h
                                 \<lparr>he_handle = h, he_object = obj, he_access = expanded, he_inheritable = inheritable\<rparr>
                                 (ht_handles table')\<rparr>) (processes m)\<rparr>)
               | _ \<Rightarrow> (Panic, m))"

definition lookup_handle :: "object_manager \<Rightarrow> nat \<Rightarrow> nat \<Rightarrow> handle_entry res" where
  "lookup_handle m process_id handle =
     (if handle = 0 then Err STATUS_INVALID_HANDLE
      else ok_or (Option.bind (map_of (processes m) process_id) (\<lambda>t. map_of (ht_handles t) handle))
             STATUS_INVALID_HANDLE)"

definition require_access :: "object_manager \<Rightarrow> nat \<Rightarrow> nat \<Rightarrow> u32 \<Rightarrow> nat res" where
  "require_access m process_id handle desired_access =
     (case lookup_handle m process_id handle of
        Err e \<Rightarrow> Err e
      | Panic \<Rightarrow> Panic
      | Ok he \<Rightarrow>
          (case map_of (objects m) (he_object he) of
             None \<Rightarrow> Err STATUS_INVALID_HANDLE
           | Some obj \<Rightarrow>
               if access_granted (he_access he) desired_access (oe_kind obj) then Ok (he_object he)
               else Err STATUS_ACCESS_DENIED))"

definition duplicate_handle ::
  "object_manager \<Rightarrow> nat \<Rightarrow> nat \<Rightarrow> nat \<Rightarrow> u32 \<Rightarrow> bool \<Rightarrow> nat res \<times> object_manager" where
  "duplicate_handle m source_process source_handle target_process desired_access inheritable =
     (case lookup_handle m source_process source_handle of
        Err e \<Rightarrow> (Err e, m)
      | Panic \<Rightarrow> (Panic, m)
      | Ok he \<Rightarrow>
          (case map_of (objects m) (he_object he) of
             None \<Rightarrow> (Err STATUS_INVALID_HANDLE, m)
           | Some obj \<Rightarrow>
               let effective = (if desired_access = 0 then he_access he
                                else map_generic_access (oe_kind obj) desired_access)
               in if \<not> access_granted (he_access he) effective (oe_kind obj) then (Err STATUS_ACCESS_DENIED, m)
                  else grant_handle m target_process (he_object he) effective inheritable))"

definition close_handle :: "object_manager \<Rightarrow> nat \<Rightarrow> nat \<Rightarrow> unit res \<times> object_manager" where
  "close_handle m process_id handle =
     (case map_of (processes m) process_id of
        None \<Rightarrow> (Err STATUS_INVALID_HANDLE, m)
      | Some t \<Rightarrow>
          (case map_of (ht_handles t) handle of
             None \<Rightarrow> (Err STATUS_INVALID_HANDLE, m)
           | Some removed \<Rightarrow>
               let m1 = m\<lparr>processes := om_insert process_id
                          (t\<lparr>ht_handles := om_remove handle (ht_handles t)\<rparr>) (processes m)\<rparr>
               in case drop_reference m1 (he_object removed) of
                    (Ok _, m2) \<Rightarrow> (Ok (), m2)
                  | (Err e, m2) \<Rightarrow> (Err e, m2)
                  | (Panic, m2) \<Rightarrow> (Panic, m2)))"

fun close_handles :: "object_manager \<Rightarrow> nat \<Rightarrow> nat list \<Rightarrow> unit res \<times> object_manager" where
  "close_handles m process_id [] = (Ok (), m)"
| "close_handles m process_id (h # hs) =
     (case close_handle m process_id h of
        (Ok _, m1) \<Rightarrow> close_handles m1 process_id hs
      | (Err e, m1) \<Rightarrow> (Err e, m1)
      | (Panic, m1) \<Rightarrow> (Panic, m1))"

definition close_process :: "object_manager \<Rightarrow> nat \<Rightarrow> nat res \<times> object_manager" where
  "close_process m process_id =
     (case map_of (processes m) process_id of
        None \<Rightarrow> (Ok 0, m)
      | Some t \<Rightarrow>
          let handles = map fst (ht_handles t)
          in case close_handles m process_id handles of
               (Ok _, m1) \<Rightarrow> (Ok (length handles mod 2 ^ 32),
                              m1\<lparr>processes := om_remove process_id (processes m1)\<rparr>)
             | (Err e, m1) \<Rightarrow> (Err e, m1)
             | (Panic, m1) \<Rightarrow> (Panic, m1))"

fun grant_handles ::
  "object_manager \<Rightarrow> nat \<Rightarrow> (nat \<times> u32) list \<Rightarrow> nat list res \<times> object_manager" where
  "grant_handles m child [] = (Ok [], m)"
| "grant_handles m child ((obj, access) # es) =
     (case grant_handle m child obj access True of
        (Ok h, m1) \<Rightarrow>
          (case grant_handles m1 child es of
             (Ok hs, m2) \<Rightarrow> (Ok (h # hs), m2)
           | (Err e, m2) \<Rightarrow> (Err e, m2)
           | (Panic, m2) \<Rightarrow> (Panic, m2))
      | (Err e, m1) \<Rightarrow> (Err e, m1)
      | (Panic, m1) \<Rightarrow> (Panic, m1))"

definition inherit_handles :: "object_manager \<Rightarrow> nat \<Rightarrow> nat \<Rightarrow> nat list res \<times> object_manager" where
  "inherit_handles m parent child =
     (let inheritable = (case map_of (processes m) parent of
            Some t \<Rightarrow> map (\<lambda>e. (he_object e, he_access e)) (filter he_inheritable (map snd (ht_handles t)))
          | None \<Rightarrow> [])
      in grant_handles m child inheritable)"

definition handle_count :: "object_manager \<Rightarrow> nat \<Rightarrow> nat" where
  "handle_count m process_id =
     (case map_of (processes m) process_id of None \<Rightarrow> 0 | Some t \<Rightarrow> length (ht_handles t))"

definition set_payload :: "object_manager \<Rightarrow> nat \<Rightarrow> object_entry \<Rightarrow> object_payload \<Rightarrow> object_manager" where
  "set_payload m i entry payload = m\<lparr>objects := om_insert i (entry\<lparr>oe_payload := payload\<rparr>) (objects m)\<rparr>"

definition set_event :: "object_manager \<Rightarrow> nat \<Rightarrow> unit res \<times> object_manager" where
  "set_event m i =
     (case map_of (objects m) i of
        None \<Rightarrow> (Err STATUS_INVALID_HANDLE, m)
      | Some entry \<Rightarrow>
          (case oe_payload entry of
             PEvent event \<Rightarrow> (Ok (), set_payload m i entry (PEvent (event\<lparr>ev_signaled := True\<rparr>)))
           | _ \<Rightarrow> (Err STATUS_OBJECT_TYPE_MISMATCH, m)))"

definition reset_event :: "object_manager \<Rightarrow> nat \<Rightarrow> unit res \<times> object_manager" where
  "reset_event m i =
     (case map_of (objects m) i of
        None \<Rightarrow> (Err STATUS_INVALID_HANDLE, m)
      | Some entry \<Rightarrow>
          (case oe_payload entry of
             PEvent event \<Rightarrow> (Ok (), set_payload m i entry (PEvent (event\<lparr>ev_signaled := False\<rparr>)))
           | _ \<Rightarrow> (Err STATUS_OBJECT_TYPE_MISMATCH, m)))"

definition acquire_mutant :: "object_manager \<Rightarrow> nat \<Rightarrow> nat \<Rightarrow> bool res \<times> object_manager" where
  "acquire_mutant m i thread_id =
     (case map_of (objects m) i of
        None \<Rightarrow> (Err STATUS_INVALID_HANDLE, m)
      | Some entry \<Rightarrow>
          (case oe_payload entry of
             PMutant mutant \<Rightarrow>
               (case mu_owner_thread mutant of
                  None \<Rightarrow> (Ok True, set_payload m i entry (PMutant
                            (mutant\<lparr>mu_owner_thread := Some thread_id, mu_recursion := 1, mu_abandoned := False\<rparr>)))
                | Some owner \<Rightarrow>
                    if owner = thread_id then
                      (if u32_max < mu_recursion mutant + 1 then (Panic, m)
                       else (Ok True, set_payload m i entry (PMutant
                              (mutant\<lparr>mu_recursion := mu_recursion mutant + 1\<rparr>))))
                    else (Ok False, m))
           | _ \<Rightarrow> (Err STATUS_OBJECT_TYPE_MISMATCH, m)))"

definition release_mutant :: "object_manager \<Rightarrow> nat \<Rightarrow> nat \<Rightarrow> unit res \<times> object_manager" where
  "release_mutant m i thread_id =
     (case map_of (objects m) i of
        None \<Rightarrow> (Err STATUS_INVALID_HANDLE, m)
      | Some entry \<Rightarrow>
          (case oe_payload entry of
             PMutant mutant \<Rightarrow>
               (case mu_owner_thread mutant of
                  Some owner \<Rightarrow>
                    if owner = thread_id then
                      (if mu_recursion mutant > 1
                       then (Ok (), set_payload m i entry (PMutant (mutant\<lparr>mu_recursion := mu_recursion mutant - 1\<rparr>)))
                       else (Ok (), set_payload m i entry (PMutant (mutant\<lparr>mu_owner_thread := None, mu_recursion := 0\<rparr>))))
                    else (Err STATUS_ACCESS_DENIED, m)
                | None \<Rightarrow> (Err STATUS_MUTANT_NOT_OWNED, m))
           | _ \<Rightarrow> (Err STATUS_OBJECT_TYPE_MISMATCH, m)))"

section \<open>Invariant\<close>

text \<open>
  \<open>table_refs\<close> and \<open>handle_refs\<close> count the handles that name an object, in one table and in
  all of them; \<open>obj_refs\<close> is the reference count the manager keeps, 0 for a destroyed object.
\<close>

definition table_refs :: "handle_table \<Rightarrow> nat \<Rightarrow> nat" where
  "table_refs t i = om_sum (\<lambda>_ e. if he_object e = i then 1 else 0) (ht_handles t)"

definition handle_refs :: "object_manager \<Rightarrow> nat \<Rightarrow> nat" where
  "handle_refs m i = om_sum (\<lambda>_ t. table_refs t i) (processes m)"

definition obj_refs :: "object_manager \<Rightarrow> nat \<Rightarrow> nat" where
  "obj_refs m i = (case map_of (objects m) i of None \<Rightarrow> 0 | Some e \<Rightarrow> oe_ref_count e)"

definition generic_bits :: u32 where
  "generic_bits = GENERIC_READ OR GENERIC_WRITE OR GENERIC_ALL"

definition entry_ok :: "nat \<Rightarrow> object_entry \<Rightarrow> bool" where
  "entry_ok i e \<longleftrightarrow> 0 < i \<and> oe_id e = i \<and> payload_kind (oe_payload e) = oe_kind e \<and>
     0 < oe_ref_count e \<and> oe_ref_count e \<le> u32_max"

definition handle_entry_ok :: "nat \<Rightarrow> handle_entry \<Rightarrow> bool" where
  "handle_entry_ok h e \<longleftrightarrow> he_handle e = h \<and> 4 dvd h \<and> 0 < h \<and> he_access e AND generic_bits = 0"

definition table_ok :: "handle_table \<Rightarrow> bool" where
  "table_ok t \<longleftrightarrow> fresh_ids (ht_handles t) (ht_next_handle t) \<and>
     4 dvd ht_next_handle t \<and> 0 < ht_next_handle t \<and> ht_next_handle t \<le> u32_max \<and>
     (\<forall>h e. map_of (ht_handles t) h = Some e \<longrightarrow> handle_entry_ok h e)"

definition objs_ok :: "object_manager \<Rightarrow> bool" where
  "objs_ok m \<longleftrightarrow> fresh_ids (objects m) (next_object_id m) \<and>
     (\<forall>i e. map_of (objects m) i = Some e \<longrightarrow> entry_ok i e)"

definition tabs_ok :: "object_manager \<Rightarrow> bool" where
  "tabs_ok m \<longleftrightarrow> om_wf (processes m) \<and> (\<forall>p t. map_of (processes m) p = Some t \<longrightarrow> table_ok t)"

definition refs_ok :: "object_manager \<Rightarrow> bool" where
  "refs_ok m \<longleftrightarrow> (\<forall>i. handle_refs m i \<le> obj_refs m i)"

definition names_ok :: "object_manager \<Rightarrow> bool" where
  "names_ok m \<longleftrightarrow> (\<forall>k i. map_of (namespace m) k = Some i \<longleftrightarrow>
     (\<exists>e n. map_of (objects m) i = Some e \<and> oe_name e = Some n \<and> name_key n = k))"

definition log_ok :: "object_manager \<Rightarrow> bool" where
  "log_ok m \<longleftrightarrow> distinct (finalized_log m) \<and> finalized m = length (finalized_log m) \<and>
     set (finalized_log m) = {i. 1 \<le> i \<and> i < next_object_id m \<and> map_of (objects m) i = None} \<and>
     1 \<le> next_object_id m \<and>
     (\<forall>calls. on_finalize m = Some calls \<longrightarrow> map fst calls = finalized_log m)"

definition obj_inv :: "object_manager \<Rightarrow> bool" where
  "obj_inv m \<longleftrightarrow> objs_ok m \<and> tabs_ok m \<and> refs_ok m \<and> names_ok m \<and> log_ok m"

lemma obj_invI: "objs_ok m \<Longrightarrow> tabs_ok m \<Longrightarrow> refs_ok m \<Longrightarrow> names_ok m \<Longrightarrow> log_ok m \<Longrightarrow> obj_inv m"
  by (simp add: obj_inv_def)

lemma obj_invD:
  assumes "obj_inv m"
  shows "objs_ok m" "tabs_ok m" "refs_ok m" "names_ok m" "log_ok m"
  using assms by (simp_all add: obj_inv_def)

lemma obj_inv_new: "obj_inv object_manager_new" "obj_inv with_finalizer"
  by (auto simp: obj_inv_def objs_ok_def tabs_ok_def refs_ok_def names_ok_def log_ok_def
      handle_refs_def with_finalizer_def object_manager_new_def)

lemma objs_ok_entry: "objs_ok m \<Longrightarrow> map_of (objects m) i = Some e \<Longrightarrow> entry_ok i e"
  by (simp add: objs_ok_def)

lemma tabs_ok_table: "tabs_ok m \<Longrightarrow> map_of (processes m) p = Some t \<Longrightarrow> table_ok t"
  by (simp add: tabs_ok_def)

lemma table_ok_wf: "table_ok t \<Longrightarrow> om_wf (ht_handles t)"
  by (auto simp: table_ok_def intro: fresh_ids_wf)

lemma table_ok_new [simp]: "table_ok handle_table_new"
  by (simp add: table_ok_def handle_table_new_def u32_max_def)

subsection \<open>Expansion of generic rights\<close>

lemma specific_not_generic:
  "specific_read k AND generic_bits = 0" "specific_write k AND generic_bits = 0"
  "specific_all k AND generic_bits = 0"
  by (cases k; simp add: specific_all_def generic_bits_def access_defs)+

lemma generic_bit: "GENERIC_READ = 2 ^ 31" "GENERIC_WRITE = 2 ^ 30" "GENERIC_ALL = 2 ^ 28"
  by (simp_all add: access_defs)

lemma disjoint_or: "(a OR b) AND g = 0 \<longleftrightarrow> a AND g = 0 \<and> b AND g = (0 :: u32)"
  by (auto simp: bit_eq_iff bit_and_iff bit_or_iff)

lemma and_not_disjoint: "(a AND NOT g) AND g = (0 :: u32)"
  by (auto simp: bit_eq_iff bit_and_iff bit_not_iff)

text \<open>The expansion leaves no generic right, and does nothing where there is none.\<close>

lemma map_generic_access_expanded: "map_generic_access k a AND generic_bits = 0"
  unfolding map_generic_access_def Let_def generic_bits_def [symmetric]
  by (auto simp: disjoint_or and_not_disjoint specific_not_generic)

lemma no_generic_parts:
  "a AND generic_bits = 0 \<Longrightarrow> a AND GENERIC_READ = 0 \<and> a AND GENERIC_WRITE = 0 \<and> a AND GENERIC_ALL = 0"
  by (auto simp: generic_bits_def bit_eq_iff bit_and_iff bit_or_iff)

lemma no_generic_id: "a AND generic_bits = 0 \<Longrightarrow> a AND NOT generic_bits = (a :: u32)"
  by (auto simp: bit_eq_iff bit_and_iff bit_not_iff)

lemma map_generic_access_id: "a AND generic_bits = 0 \<Longrightarrow> map_generic_access k a = a"
  using no_generic_parts [of a] no_generic_id [of a]
  by (simp add: map_generic_access_def generic_bits_def [symmetric])

lemma map_generic_access_idem [simp]:
  "map_generic_access k (map_generic_access k a) = map_generic_access k a"
  by (rule map_generic_access_id) (rule map_generic_access_expanded)

lemma access_granted_covers: "access_granted g d k \<longleftrightarrow> covers g (map_generic_access k d)"
  by (auto simp: access_granted_def covers_def Let_def)

subsection \<open>Every operation keeps the invariant\<close>

text \<open>Replacing an entry by one of the same name keeps everything the entry itself satisfies.\<close>

lemma obj_inv_put_entry:
  assumes inv: "obj_inv m" and e: "map_of (objects m) i = Some e"
    and ok: "entry_ok i e'" and nm: "oe_name e' = oe_name e" and r: "handle_refs m i \<le> oe_ref_count e'"
  shows "obj_inv (m\<lparr>objects := om_insert i e' (objects m)\<rparr>)"
proof (rule obj_invI)
  note d = obj_invD [OF inv]
  let ?m = "m\<lparr>objects := om_insert i e' (objects m)\<rparr>"
  show "objs_ok ?m" using d(1) e ok by (auto simp: objs_ok_def)
  show "tabs_ok ?m" using d(2) by (simp add: tabs_ok_def)
  show "refs_ok ?m" using d(3) r by (auto simp: refs_ok_def handle_refs_def obj_refs_def)
  show "names_ok ?m" using d(4) e nm unfolding names_ok_def by (auto split: if_splits)
  show "log_ok ?m" using d(5) e by (auto simp: log_ok_def)
qed

lemma insert_object_inv:
  assumes inv: "obj_inv m" and k: "payload_kind payload = kind"
    and nm: "\<And>n. normalized = Some n \<Longrightarrow> map_of (namespace m) (name_key n) = None"
  shows "obj_inv (snd (insert_object m kind payload normalized))"
proof (rule obj_invI)
  note d = obj_invD [OF inv]
  let ?i = "next_object_id m"
  let ?m = "snd (insert_object m kind payload normalized)"
  have fresh: "map_of (objects m) ?i = None"
    using d(1) by (auto simp: objs_ok_def intro: fresh_ids_absent)
  have r0: "handle_refs m ?i = 0" using d(3) fresh by (auto simp: refs_ok_def obj_refs_def dest: spec [of _ ?i])
  show "objs_ok ?m" using d(1,5) k
    by (auto simp: objs_ok_def insert_object_def Let_def entry_ok_def log_ok_def u32_max_def
        split: option.splits)
  show "tabs_ok ?m" using d(2) by (simp add: tabs_ok_def insert_object_def Let_def split: option.splits)
  show "refs_ok ?m" using d(3) r0
    by (auto simp: refs_ok_def obj_refs_def handle_refs_def insert_object_def Let_def split: option.splits)
  show "names_ok ?m"
  proof (cases normalized)
    case None
    with d(4) fresh show ?thesis by (auto simp: names_ok_def insert_object_def Let_def)
  next
    case (Some n)
    note ns = d(4) [unfolded names_ok_def, rule_format]
    have "map_of (namespace m) k \<noteq> Some ?i" for k using fresh by (simp add: ns)
    moreover have "map_of (namespace m) (name_key n) \<noteq> Some j" for j using nm [OF Some] by simp
    ultimately show ?thesis using Some unfolding names_ok_def
      by (auto simp: insert_object_def Let_def ns)
  qed
  show "log_ok ?m" using d(5) fresh
    by (auto simp: log_ok_def insert_object_def Let_def split: option.splits)
qed

lemma create_object_inv: "obj_inv m \<Longrightarrow> obj_inv (snd (create_object m kind payload name))"
  by (auto simp: create_object_def intro!: insert_object_inv split: option.splits res.splits)

lemma open_object_inv:
  assumes inv: "obj_inv m"
  shows "obj_inv (snd (open_object m name kind))"
  using inv objs_ok_entry [OF obj_invD(1) [OF inv]] obj_invD(3) [OF inv]
  by (auto simp: open_object_def entry_ok_def refs_ok_def obj_refs_def intro!: obj_inv_put_entry le_SucI
      split: option.splits res.splits)

text \<open>
  Dropping a reference keeps the invariant when the caller owns one: the count exceeds the
  handles. At zero there is then no handle left, and the object is destroyed.
\<close>

lemma drop_reference_last_inv:
  assumes inv: "obj_inv m" and e: "map_of (objects m) i = Some e" and one: "oe_ref_count e - 1 = 0"
    and own: "handle_refs m i < oe_ref_count e"
  shows "obj_inv (snd (drop_reference m i))"
proof (rule obj_invI)
  note d = obj_invD [OF inv]
  let ?m = "snd (drop_reference m i)"
  let ?e = "e\<lparr>oe_ref_count := 0\<rparr>"
  have upd: "?m = m\<lparr>objects := om_remove i (om_insert i ?e (objects m)),
      namespace := (case oe_name e of None \<Rightarrow> namespace m | Some n \<Rightarrow> om_remove (name_key n) (namespace m)),
      finalized := finalized m + 1, finalized_log := finalized_log m @ [i],
      on_finalize := map_option (\<lambda>calls. calls @ [(i, oe_kind e, oe_payload e)]) (on_finalize m)\<rparr>"
    using e one by (simp add: drop_reference_def destroy_def Let_def split: option.splits)
  have bound: "i < next_object_id m" using d(1) e by (auto simp: objs_ok_def intro: fresh_ids_bound)
  have pos: "1 \<le> i" using objs_ok_entry [OF d(1) e] by (simp add: entry_ok_def)
  have r0: "handle_refs m i = 0" using own one by simp
  show "objs_ok ?m" using d(1) e unfolding upd by (auto simp: objs_ok_def)
  show "tabs_ok ?m" using d(2) unfolding upd by (simp add: tabs_ok_def)
  show "refs_ok ?m" using d(3) r0 unfolding upd by (auto simp: refs_ok_def obj_refs_def handle_refs_def)
  show "names_ok ?m"
  proof (cases "oe_name e")
    case None
    with d(4) e show ?thesis unfolding upd names_ok_def by auto
  next
    case (Some n)
    note ns = d(4) [unfolded names_ok_def, rule_format]
    have key: "map_of (namespace m) (name_key n) = Some i" using ns e Some by blast
    have uniq: "k = name_key n \<longleftrightarrow> j = i" if "map_of (namespace m) k = Some j" for k j
      using that key e Some ns [of k i] by auto
    have "map_of (namespace ?m) k = Some j \<longleftrightarrow> map_of (namespace m) k = Some j \<and> j \<noteq> i" for k j
      using uniq [of k j] Some unfolding upd by auto
    then show ?thesis unfolding names_ok_def by (simp add: ns) (auto simp: upd)
  qed
  show "log_ok ?m" using d(5) e bound pos unfolding upd by (auto simp: log_ok_def)
qed

lemma drop_reference_inv:
  assumes inv: "obj_inv m" and own: "\<And>e. map_of (objects m) i = Some e \<Longrightarrow> handle_refs m i < oe_ref_count e"
  shows "obj_inv (snd (drop_reference m i))"
proof (cases "map_of (objects m) i")
  case None
  with inv show ?thesis by (simp add: drop_reference_def)
next
  case (Some e)
  show ?thesis
  proof (cases "oe_ref_count e - 1 = 0")
    case True
    then show ?thesis using drop_reference_last_inv [OF inv Some] own [OF Some] by simp
  next
    case False
    then have "entry_ok i (e\<lparr>oe_ref_count := oe_ref_count e - 1\<rparr>)"
      using objs_ok_entry [OF obj_invD(1) [OF inv] Some] by (auto simp: entry_ok_def)
    from obj_inv_put_entry [OF inv Some this] False own [OF Some] Some show ?thesis
      by (simp add: drop_reference_def Let_def)
  qed
qed

lemma release_object_inv:
  "obj_inv m \<Longrightarrow> (\<And>e. map_of (objects m) i = Some e \<Longrightarrow> handle_refs m i < oe_ref_count e) \<Longrightarrow>
   obj_inv (snd (release_object m i))"
  by (simp add: release_object_def drop_reference_inv)

lemma handle_refs_update_table:
  assumes "om_wf (processes m)" "table_ok t'"
    "table_refs t' i = (case map_of (processes m) p of None \<Rightarrow> 0 | Some t \<Rightarrow> table_refs t i) + d"
  shows "handle_refs (m\<lparr>processes := om_insert p t' (processes m)\<rparr>) i = handle_refs m i + d"
  using assms om_sum_insert_present [of "processes m" p _ "\<lambda>_ t. table_refs t i" t']
  by (cases "map_of (processes m) p") (force simp: handle_refs_def om_sum_insert_fresh)+

text \<open>The table a granted handle goes into.\<close>

definition target_table :: "object_manager \<Rightarrow> nat \<Rightarrow> handle_table" where
  "target_table m p = (case map_of (processes m) p of None \<Rightarrow> handle_table_new | Some t \<Rightarrow> t)"

definition granted_table :: "object_manager \<Rightarrow> nat \<Rightarrow> nat \<Rightarrow> u32 \<Rightarrow> bool \<Rightarrow> handle_table" where
  "granted_table m p obj access inh =
     (let t = target_table m p; h = ht_next_handle t
      in t\<lparr>ht_next_handle := h + 4, ht_handles := om_insert h
            \<lparr>he_handle = h, he_object = obj, he_access = access, he_inheritable = inh\<rparr> (ht_handles t)\<rparr>)"

lemma target_table_ok: "tabs_ok m \<Longrightarrow> table_ok (target_table m p)"
  by (auto simp: target_table_def tabs_ok_def split: option.splits)

lemma target_table_fresh: "tabs_ok m \<Longrightarrow> map_of (ht_handles (target_table m p)) (ht_next_handle (target_table m p)) = None"
  using target_table_ok [of m p] by (auto simp: table_ok_def intro: fresh_ids_absent)

lemma granted_table_ok:
  assumes "tabs_ok m" "access AND generic_bits = 0" "ht_next_handle (target_table m p) + 4 \<le> u32_max"
  shows "table_ok (granted_table m p obj access inh)"
  using target_table_ok [OF assms(1), of p] assms(2,3)
  by (auto simp: table_ok_def granted_table_def Let_def handle_entry_ok_def)

lemma granted_table_refs:
  assumes "tabs_ok m"
  shows "table_refs (granted_table m p obj access inh) i =
         table_refs (target_table m p) i + (if i = obj then 1 else 0)"
  using target_table_fresh [OF assms, of p]
  by (auto simp: table_refs_def granted_table_def Let_def om_sum_insert_fresh)

text \<open>A grant is one of three outcomes: no such object, an overflow trap, or the new handle.\<close>

lemma grant_handle_cases:
  obtains (missing) "map_of (objects m) obj = None" "grant_handle m p obj access inh = (Err STATUS_INVALID_HANDLE, m)"
  | (trap) "grant_handle m p obj access inh = (Panic, m)"
  | (granted) e where "map_of (objects m) obj = Some e" "oe_ref_count e < u32_max"
      "ht_next_handle (target_table m p) + 4 \<le> u32_max"
      "grant_handle m p obj access inh =
         (Ok (ht_next_handle (target_table m p)),
          m\<lparr>objects := om_insert obj (e\<lparr>oe_ref_count := oe_ref_count e + 1\<rparr>) (objects m),
            processes := om_insert p (granted_table m p obj (map_generic_access (oe_kind e) access) inh) (processes m)\<rparr>)"
proof (cases "map_of (objects m) obj")
  case None
  then show ?thesis using missing by (simp add: grant_handle_def)
next
  case (Some e)
  show ?thesis
  proof (cases "u32_max < oe_ref_count e + 1 \<or> u32_max < ht_next_handle (target_table m p) + 4")
    case True
    then show ?thesis using trap Some
      by (auto simp: grant_handle_def Let_def allocate_handle_def target_table_def split: option.splits)
  next
    case False
    then show ?thesis using granted [OF Some] Some
      by (auto simp: grant_handle_def Let_def allocate_handle_def target_table_def granted_table_def
          cong: option.case_cong split: option.splits)
  qed
qed

lemma grant_handle_inv:
  assumes inv: "obj_inv m"
  shows "obj_inv (snd (grant_handle m p obj access inh))"
proof (cases rule: grant_handle_cases [of m obj p access inh])
  case (granted e)
  note d = obj_invD [OF inv]
  let ?t = "granted_table m p obj (map_generic_access (oe_kind e) access) inh"
  let ?m1 = "m\<lparr>objects := om_insert obj (e\<lparr>oe_ref_count := oe_ref_count e + 1\<rparr>) (objects m)\<rparr>"
  let ?m = "?m1\<lparr>processes := om_insert p ?t (processes m)\<rparr>"
  have "entry_ok obj (e\<lparr>oe_ref_count := oe_ref_count e + 1\<rparr>)"
    using objs_ok_entry [OF d(1) granted(1)] granted(2) by (simp add: entry_ok_def)
  moreover have "handle_refs m obj \<le> oe_ref_count e"
    using d(3) granted(1) by (auto simp: refs_ok_def obj_refs_def dest: spec [of _ obj])
  ultimately have inv1: "obj_inv ?m1"
    using obj_inv_put_entry [OF inv granted(1)] by simp
  note d1 = obj_invD [OF this]
  have t: "table_ok ?t" using d(2) granted(3) by (intro granted_table_ok map_generic_access_expanded)
  have "handle_refs ?m i = handle_refs ?m1 i + (if i = obj then 1 else 0)" for i
    using handle_refs_update_table [of ?m1 ?t i p "if i = obj then 1 else 0"] d(2) t granted_table_refs [OF d(2)]
    by (auto simp: tabs_ok_def target_table_def table_refs_def handle_table_new_def split: option.splits)
  moreover have "handle_refs ?m1 i = handle_refs m i" for i by (simp add: handle_refs_def)
  ultimately have "refs_ok ?m"
    using d(3) granted(1) by (auto simp: refs_ok_def obj_refs_def dest: spec [of _ obj])
  moreover have "tabs_ok ?m" using d(2) t by (auto simp: tabs_ok_def)
  ultimately have "obj_inv ?m"
    using d1 by (auto simp: obj_inv_def objs_ok_def names_ok_def log_ok_def)
  then show ?thesis using granted(4) by simp
qed (use inv in auto)

lemma duplicate_handle_inv: "obj_inv m \<Longrightarrow> obj_inv (snd (duplicate_handle m sp sh tp d inh))"
  by (auto simp: duplicate_handle_def Let_def grant_handle_inv split: res.splits option.splits)

lemma grant_handles_inv: "obj_inv m \<Longrightarrow> obj_inv (snd (grant_handles m p es))"
proof (induction m p es rule: grant_handles.induct)
  case (2 m p obj access es)
  have "obj_inv (snd (grant_handle m p obj access True))" using "2.prems" by (rule grant_handle_inv)
  with 2 show ?case by (auto split: prod.splits res.splits)
qed simp

lemma inherit_handles_inv: "obj_inv m \<Longrightarrow> obj_inv (snd (inherit_handles m parent child))"
  by (simp add: inherit_handles_def grant_handles_inv)

lemma drop_reference_frame [simp]:
  "processes (snd (drop_reference m i)) = processes m"
  by (auto simp: drop_reference_def destroy_def Let_def split: option.splits)

lemma drop_reference_refs:
  assumes "obj_inv m" "map_of (objects m) i = Some e"
  shows "obj_refs (snd (drop_reference m i)) j + (if j = i then 1 else 0) = obj_refs m j"
proof -
  have "0 < oe_ref_count e"
    using objs_ok_entry [OF obj_invD(1) [OF assms(1)] assms(2)] by (simp add: entry_ok_def)
  then show ?thesis using assms(2)
    by (auto simp: drop_reference_def destroy_def obj_refs_def Let_def split: option.splits)
qed

lemma close_handle_step:
  assumes inv: "obj_inv m" and t: "map_of (processes m) p = Some t"
    and h: "map_of (ht_handles t) h = Some r"
  obtains m' where "close_handle m p h = (Ok (), m')" "obj_inv m'"
    "processes m' = om_insert p (t\<lparr>ht_handles := om_remove h (ht_handles t)\<rparr>) (processes m)"
    "\<And>i. obj_refs m' i + (if i = he_object r then 1 else 0) = obj_refs m i"
proof -
  note d = obj_invD [OF inv]
  let ?t = "t\<lparr>ht_handles := om_remove h (ht_handles t)\<rparr>"
  let ?m = "m\<lparr>processes := om_insert p ?t (processes m)\<rparr>"
  let ?o = "he_object r"
  have tok: "table_ok t" using tabs_ok_table [OF d(2) t] .
  then have "table_ok ?t" by (auto simp: table_ok_def)
  then have tabs: "tabs_ok ?m" using d(2) by (auto simp: tabs_ok_def)
  have tr: "table_refs ?t i + (if ?o = i then 1 else 0) = table_refs t i" for i
    using om_sum_remove [OF table_ok_wf [OF tok] h, of "\<lambda>_ e. if he_object e = i then 1 else 0"]
    by (simp add: table_refs_def)
  have hr: "handle_refs ?m i + (if ?o = i then 1 else 0) = handle_refs m i" for i
    using om_sum_insert_present [of "processes m" p t "\<lambda>_ t. table_refs t i" ?t] t d(2) tr [of i]
    by (simp add: handle_refs_def tabs_ok_def)
  have less: "handle_refs ?m ?o < obj_refs m ?o"
    using hr [of ?o] d(3) by (simp add: refs_ok_def) (metis Suc_le_eq)
  then obtain e where e: "map_of (objects m) ?o = Some e" by (auto simp: obj_refs_def split: option.splits)
  have "refs_ok ?m" unfolding refs_ok_def
  proof
    fix i
    show "handle_refs ?m i \<le> obj_refs ?m i"
      using hr [of i] d(3) [unfolded refs_ok_def, rule_format, of i] by (simp add: obj_refs_def split: if_splits)
  qed
  then have inv1: "obj_inv ?m" using d tabs by (simp add: obj_inv_def objs_ok_def names_ok_def log_ok_def)
  have inv2: "obj_inv (snd (drop_reference ?m ?o))"
    using less e by (intro drop_reference_inv [OF inv1]) (simp add: obj_refs_def)
  have eq: "close_handle m p h = (Ok (), snd (drop_reference ?m ?o))"
    using t h e by (simp add: close_handle_def Let_def drop_reference_def)
  have "obj_refs (snd (drop_reference ?m ?o)) i + (if i = ?o then 1 else 0) = obj_refs m i" for i
    using drop_reference_refs [OF inv1, of ?o e i] e by (simp add: obj_refs_def)
  then show ?thesis using that [OF eq inv2] by simp
qed

lemma close_handle_inv: "obj_inv m \<Longrightarrow> obj_inv (snd (close_handle m p h))"
proof (cases "Option.bind (map_of (processes m) p) (\<lambda>t. map_of (ht_handles t) h)")
  case None
  assume "obj_inv m"
  with None show ?thesis by (auto simp: close_handle_def bind_eq_None_conv split: option.splits)
next
  case (Some r)
  assume inv: "obj_inv m"
  from Some obtain t where t: "map_of (processes m) p = Some t" "map_of (ht_handles t) h = Some r"
    by (auto simp: bind_eq_Some_conv)
  show ?thesis by (rule close_handle_step [OF inv t]) simp
qed

lemma close_handles_spec:
  assumes "obj_inv m" "map_of (processes m) p = Some t" "distinct hs" "set hs \<subseteq> fst ` set (ht_handles t)"
  shows "\<exists>m' t'. close_handles m p hs = (Ok (), m') \<and> obj_inv m' \<and>
     map_of (processes m') = (map_of (processes m))(p \<mapsto> t') \<and>
     ht_handles t' = filter (\<lambda>e. fst e \<notin> set hs) (ht_handles t) \<and>
     (\<forall>i. obj_refs m' i + table_refs t i = obj_refs m i + table_refs t' i)"
  using assms
proof (induction hs arbitrary: m t)
  case Nil
  then have "map_of (processes m) = (map_of (processes m))(p \<mapsto> t)" by (simp add: fun_upd_idem)
  with Nil show ?case by (intro exI [of _ m] exI [of _ t]) simp
next
  case (Cons h hs)
  have wf: "om_wf (ht_handles t)"
    using tabs_ok_table [OF obj_invD(2) [OF Cons.prems(1)] Cons.prems(2)] by (rule table_ok_wf)
  from Cons.prems(4) obtain r where h: "map_of (ht_handles t) h = Some r"
    by (auto simp: om_get_iff [OF wf])
  let ?t = "t\<lparr>ht_handles := om_remove h (ht_handles t)\<rparr>"
  obtain m1 where m1: "close_handle m p h = (Ok (), m1)" "obj_inv m1"
    "processes m1 = om_insert p ?t (processes m)"
    "\<And>i. obj_refs m1 i + (if i = he_object r then 1 else 0) = obj_refs m i"
    by (rule close_handle_step [OF Cons.prems(1,2) h]) blast
  have tr: "table_refs ?t i + (if he_object r = i then 1 else 0) = table_refs t i" for i
    using om_sum_remove [OF wf h, of "\<lambda>_ e. if he_object e = i then 1 else 0"] by (simp add: table_refs_def)
  have "set hs \<subseteq> fst ` set (ht_handles ?t)" "map_of (processes m1) p = Some ?t" "distinct hs"
    using Cons.prems(3,4) m1(3) by auto
  from Cons.IH [OF m1(2) this(2,3,1)] obtain m' t' where m': "close_handles m1 p hs = (Ok (), m')" "obj_inv m'"
     "map_of (processes m') = (map_of (processes m1))(p \<mapsto> t')"
     "ht_handles t' = filter (\<lambda>e. fst e \<notin> set hs) (ht_handles ?t)"
     "\<forall>i. obj_refs m' i + table_refs ?t i = obj_refs m1 i + table_refs t' i"
    by blast
  have "obj_refs m' i + table_refs t i = obj_refs m i + table_refs t' i" for i
    using m'(5) [rule_format, of i] m1(4) [of i] tr [of i] by (simp split: if_splits)
  moreover have "ht_handles t' = filter (\<lambda>e. fst e \<notin> set (h # hs)) (ht_handles t)"
    using m'(4) by (auto simp: om_remove_def intro: filter_cong)
  moreover have "map_of (processes m') = (map_of (processes m))(p \<mapsto> t')"
    using m'(3) m1(3) by simp
  ultimately show ?case using m1(1) m'(1,2) by (intro exI [of _ m'] exI [of _ t']) simp
qed

lemma table_length_bound: "table_ok t \<Longrightarrow> length (ht_handles t) < 2 ^ 32"
proof -
  assume t: "table_ok t"
  have "length (ht_handles t) = card (fst ` set (ht_handles t))"
    using distinct_card [OF om_wf_distinct [OF table_ok_wf [OF t]]] by simp
  also have "\<dots> \<le> card {0..<ht_next_handle t}"
    using t by (intro card_mono) (auto simp: table_ok_def fresh_ids_def)
  finally show ?thesis using t by (simp add: table_ok_def u32_max_def)
qed

lemma close_process_spec:
  assumes inv: "obj_inv m" and t: "map_of (processes m) p = Some t"
  obtains m' where "close_process m p = (Ok (length (ht_handles t)), m')" "obj_inv m'"
    "map_of (processes m') = (map_of (processes m))(p := None)"
    "\<And>i. obj_refs m' i + table_refs t i = obj_refs m i"
proof -
  have tok: "table_ok t" using tabs_ok_table [OF obj_invD(2) [OF inv] t] .
  then have "distinct (map fst (ht_handles t))" by (intro om_wf_distinct table_ok_wf)
  then obtain m1 t1 where m1: "close_handles m p (map fst (ht_handles t)) = (Ok (), m1)" "obj_inv m1"
     "map_of (processes m1) = (map_of (processes m))(p \<mapsto> t1)"
     "ht_handles t1 = []"
     "\<And>i. obj_refs m1 i + table_refs t i = obj_refs m i + table_refs t1 i"
    using close_handles_spec [OF inv t, of "map fst (ht_handles t)"] by (auto simp: filter_empty_conv)
  let ?m = "m1\<lparr>processes := om_remove p (processes m1)\<rparr>"
  have "table_refs t1 i = 0" for i using m1(4) by (simp add: table_refs_def)
  moreover have "handle_refs ?m i = handle_refs m1 i" for i
    using om_sum_remove [of "processes m1" p t1 "\<lambda>_ t. table_refs t i"] m1(3) calculation
      obj_invD(2) [OF m1(2)] by (simp add: handle_refs_def tabs_ok_def)
  ultimately have "obj_inv ?m" using obj_invD [OF m1(2)]
    by (auto simp: obj_inv_def objs_ok_def names_ok_def log_ok_def tabs_ok_def refs_ok_def obj_refs_def)
  moreover have "close_process m p = (Ok (length (ht_handles t)), ?m)"
    using t m1(1) table_length_bound [OF tok] by (simp add: close_process_def Let_def)
  moreover have "obj_refs ?m i + table_refs t i = obj_refs m i" for i
    using m1(5) [of i] \<open>table_refs t1 i = 0\<close> by (simp add: obj_refs_def)
  ultimately show ?thesis using that [of ?m] m1(3) by auto
qed

lemma close_process_inv: "obj_inv m \<Longrightarrow> obj_inv (snd (close_process m p))"
proof (cases "map_of (processes m) p")
  case None
  assume "obj_inv m"
  with None show ?thesis by (simp add: close_process_def)
next
  case (Some t)
  assume "obj_inv m"
  then show ?thesis by (rule close_process_spec [OF _ Some]) simp
qed

lemma set_payload_inv:
  assumes inv: "obj_inv m" and e: "map_of (objects m) i = Some e" and k: "payload_kind q = oe_kind e"
  shows "obj_inv (set_payload m i e q)"
  unfolding set_payload_def
  using obj_inv_put_entry [OF inv e, of "e\<lparr>oe_payload := q\<rparr>"] objs_ok_entry [OF obj_invD(1) [OF inv] e]
    obj_invD(3) [OF inv, unfolded refs_ok_def, rule_format, of i] e k
  by (simp add: entry_ok_def obj_refs_def)

lemma payload_kind_eq:
  assumes "obj_inv m" "map_of (objects m) i = Some e"
  shows "oe_kind e = payload_kind (oe_payload e)"
  using objs_ok_entry [OF obj_invD(1) [OF assms(1)] assms(2)] by (simp add: entry_ok_def)

lemma payload_ops_inv:
  assumes "obj_inv m"
  shows "obj_inv (snd (set_event m i))" "obj_inv (snd (reset_event m i))"
    "obj_inv (snd (acquire_mutant m i th))" "obj_inv (snd (release_mutant m i th))"
  using assms payload_kind_eq [OF assms]
  by (auto simp: set_event_def reset_event_def acquire_mutant_def release_mutant_def
      intro!: set_payload_inv split: option.splits object_payload.splits)

section \<open>Reachable managers\<close>

text \<open>
  One step is one call, except that a client releases only a reference of its own: one that
  no handle accounts for.
\<close>

inductive om_step :: "object_manager \<Rightarrow> object_manager \<Rightarrow> bool" where
  create: "om_step m (snd (create_object m kind payload name))"
| open_named: "om_step m (snd (open_object m name kind))"
| release: "handle_refs m i < obj_refs m i \<Longrightarrow> om_step m (snd (release_object m i))"
| grant: "om_step m (snd (grant_handle m p obj access inh))"
| duplicate: "om_step m (snd (duplicate_handle m sp sh tp d inh))"
| close: "om_step m (snd (close_handle m p h))"
| close_all: "om_step m (snd (close_process m p))"
| inherit: "om_step m (snd (inherit_handles m parent child))"
| set_ev: "om_step m (snd (set_event m i))"
| reset_ev: "om_step m (snd (reset_event m i))"
| acquire: "om_step m (snd (acquire_mutant m i th))"
| release_mu: "om_step m (snd (release_mutant m i th))"

lemma om_step_inv: "om_step m m' \<Longrightarrow> obj_inv m \<Longrightarrow> obj_inv m'"
  by (induction rule: om_step.induct)
    (auto simp: obj_refs_def intro: create_object_inv open_object_inv release_object_inv grant_handle_inv
      duplicate_handle_inv close_handle_inv close_process_inv inherit_handles_inv payload_ops_inv)

interpretation om: invariant_system "\<lambda>m. m = object_manager_new \<or> m = with_finalizer" om_step obj_inv
  by unfold_locales (auto simp: obj_inv_new intro: om_step_inv)

lemma lookup_handle_Ok:
  "lookup_handle m p h = Ok he \<longleftrightarrow> h \<noteq> 0 \<and> (\<exists>t. map_of (processes m) p = Some t \<and> map_of (ht_handles t) h = Some he)"
  by (auto simp: lookup_handle_def ok_or_def bind_eq_Some_conv split: option.splits bind_splits)

lemma handle_refs_pos:
  assumes "map_of (processes m) p = Some t" "map_of (ht_handles t) h = Some he"
  shows "0 < handle_refs m (he_object he)"
proof -
  have "1 \<le> table_refs t (he_object he)"
    using om_sum_le [OF assms(2), of "\<lambda>_ e. if he_object e = he_object he then 1 else 0"]
    by (simp add: table_refs_def)
  also have "\<dots> \<le> handle_refs m (he_object he)"
    using om_sum_le [OF assms(1), of "\<lambda>_ t. table_refs t (he_object he)"] by (simp add: handle_refs_def)
  finally show ?thesis by simp
qed

lemma obj_inv_handle_live:
  assumes "obj_inv m" "lookup_handle m p h = Ok he"
  shows "\<exists>e. map_of (objects m) (he_object he) = Some e \<and>
             handle_refs m (he_object he) \<le> oe_ref_count e \<and> 0 < handle_refs m (he_object he)"
proof -
  from assms(2) obtain t where t: "map_of (processes m) p = Some t" "map_of (ht_handles t) h = Some he"
    by (auto simp: lookup_handle_Ok)
  have "handle_refs m (he_object he) \<le> obj_refs m (he_object he)"
    using obj_invD(3) [OF assms(1)] by (simp add: refs_ok_def)
  with handle_refs_pos [OF t] show ?thesis by (auto simp: obj_refs_def split: option.splits)
qed

section \<open>Properties\<close>

text \<open>
  C1. No dangling handles: in every manager reached from a new one by any sequence of calls
  (clients releasing only references of their own), a handle of any process names a live
  object whose reference count is at least the number of handles to it over all processes.
\<close>
theorem om_no_dangling_handles:
  assumes "om_step\<^sup>*\<^sup>* object_manager_new m" and "lookup_handle m p h = Ok he"
  shows "\<exists>e. query_object m (he_object he) = Ok e \<and> oe_id e = he_object he \<and>
             0 < handle_refs m (he_object he) \<and> handle_refs m (he_object he) \<le> oe_ref_count e"
proof -
  have inv: "obj_inv m" by (rule om.reachable_inv [OF _ assms(1)]) simp
  from obj_inv_handle_live [OF inv assms(2)] objs_ok_entry [OF obj_invD(1) [OF inv]] show ?thesis
    by (fastforce simp: query_object_def entry_ok_def)
qed

text \<open>
  The run that the witnesses below use: an event named \<open>Ev\<close> is created, granted to process 10
  with generic read and write, and granted again as an inheritable handle.
\<close>

definition demo_event :: object_payload where
  "demo_event = PEvent (event_payload_new False False)"

definition demo_manager :: object_manager where
  "demo_manager =
     snd (grant_handle (snd (grant_handle
       (snd (create_object object_manager_new TEvent demo_event (Some ''Ev''))) 10 1
       (GENERIC_READ OR GENERIC_WRITE) False)) 10 1 SYNCHRONIZE True)"

lemma demo_reachable: "om_step\<^sup>*\<^sup>* object_manager_new demo_manager"
  unfolding demo_manager_def
  by (meson om_step.create om_step.grant rtranclp.rtrancl_into_rtrancl rtranclp.rtrancl_refl)

lemma demo_created:
  "create_object object_manager_new TEvent demo_event (Some ''Ev'') =
     (Ok 1, object_manager_new\<lparr>next_object_id := 2,
        objects := [(1, \<lparr>oe_id = 1, oe_kind = TEvent, oe_name = Some (backslash # ''BaseNamedObjects'' @ backslash # ''Ev''),
                         oe_payload = demo_event, oe_ref_count = 1\<rparr>)],
        namespace := [(name_key (backslash # ''BaseNamedObjects'' @ backslash # ''Ev''), 1)]\<rparr>)"
  by (simp add: create_object_def demo_event_def normalize_name_def str_trim_def is_whitespace_def
      str_contains_def backslash_def insert_object_def object_manager_new_def Let_def)

lemma demo_eq:
  "demo_manager = \<lparr>objects = [(1, \<lparr>oe_id = 1, oe_kind = TEvent,
       oe_name = Some (backslash # ''BaseNamedObjects'' @ backslash # ''Ev''), oe_payload = demo_event, oe_ref_count = 3\<rparr>)],
     namespace = [(name_key (backslash # ''BaseNamedObjects'' @ backslash # ''Ev''), 1)],
     processes = [(10, \<lparr>ht_next_handle = 12, ht_handles =
        [(4, \<lparr>he_handle = 4, he_object = 1, he_access = 0x00100003, he_inheritable = False\<rparr>),
         (8, \<lparr>he_handle = 8, he_object = 1, he_access = 0x00100000, he_inheritable = True\<rparr>)]\<rparr>)],
     next_object_id = 2, finalized = 0, finalized_log = [], on_finalize = None\<rparr>"
  unfolding demo_manager_def demo_created
  by (simp add: grant_handle_def allocate_handle_def handle_table_new_def u32_max_def map_generic_access_def
      access_defs Let_def object_manager_new_def)

lemma demo_lookup:
  "lookup_handle demo_manager 10 4 =
     Ok \<lparr>he_handle = 4, he_object = 1, he_access = 0x00100003, he_inheritable = False\<rparr>"
  by (simp add: demo_eq lookup_handle_def)

theorem om_no_dangling_handles_witness:
  "\<exists>e. query_object demo_manager 1 = Ok e \<and> oe_id e = 1 \<and>
       0 < handle_refs demo_manager 1 \<and> handle_refs demo_manager 1 \<le> oe_ref_count e"
  using om_no_dangling_handles [OF demo_reachable demo_lookup] by simp

text \<open>
  C2. Duplication never amplifies access: in a reachable manager, a successful
  \<open>duplicate_handle\<close> puts into the target process a handle to the same object whose rights are
  all among the rights of the source handle, whatever access was asked for.
\<close>
theorem duplicate_handle_no_amplification:
  assumes "om_step\<^sup>*\<^sup>* object_manager_new m"
    and src: "lookup_handle m sp sh = Ok he"
    and dup: "duplicate_handle m sp sh tp desired inh = (Ok h', m')"
  shows "\<exists>he'. lookup_handle m' tp h' = Ok he' \<and> he_object he' = he_object he \<and>
     covers (he_access he) (he_access he') \<and> he_inheritable he' = inh"
proof -
  have inv: "obj_inv m" by (rule om.reachable_inv [OF _ assms(1)]) simp
  note tabs = obj_invD(2) [OF inv]
  from obj_inv_handle_live [OF inv src] obtain e where e: "map_of (objects m) (he_object he) = Some e" by blast
  have exp: "he_access he AND generic_bits = 0"
    using src tabs by (auto simp: lookup_handle_Ok tabs_ok_def table_ok_def handle_entry_ok_def)
  define eff where "eff = (if desired = 0 then he_access he else map_generic_access (oe_kind e) desired)"
  have eff: "eff AND generic_bits = 0" using exp by (simp add: eff_def map_generic_access_expanded)
  have "access_granted (he_access he) eff (oe_kind e)" "grant_handle m tp (he_object he) eff inh = (Ok h', m')"
    using dup src e by (auto simp: duplicate_handle_def eff_def Let_def split: if_splits)
  then have cov: "covers (he_access he) eff"
    using map_generic_access_id [OF eff] by (simp add: access_granted_covers)
  from \<open>grant_handle m tp (he_object he) eff inh = (Ok h', m')\<close> e show ?thesis
  proof (cases rule: grant_handle_cases [of m "he_object he" tp eff inh])
    case (granted e')
    then have "h' = ht_next_handle (target_table m tp)" "e' = e"
      "m' = m\<lparr>objects := om_insert (he_object he) (e\<lparr>oe_ref_count := oe_ref_count e + 1\<rparr>) (objects m),
              processes := om_insert tp (granted_table m tp (he_object he) eff inh) (processes m)\<rparr>"
      using \<open>grant_handle m tp (he_object he) eff inh = (Ok h', m')\<close> e map_generic_access_id [OF eff] by auto
    then show ?thesis using cov target_table_ok [OF tabs, of tp]
      by (auto simp: lookup_handle_Ok granted_table_def Let_def table_ok_def)
  qed auto
qed

theorem duplicate_handle_no_amplification_witness:
  "\<exists>h' m' he'. duplicate_handle demo_manager 10 4 20 GENERIC_READ True = (Ok h', m') \<and>
     lookup_handle m' 20 h' = Ok he' \<and> he_object he' = 1 \<and> covers 0x00100003 (he_access he')"
proof -
  have d: "\<exists>m'. duplicate_handle demo_manager 10 4 20 GENERIC_READ True = (Ok 4, m')"
    by (simp add: duplicate_handle_def demo_lookup) (simp add: demo_eq map_generic_access_def access_granted_def
        access_defs Let_def grant_handle_def allocate_handle_def handle_table_new_def u32_max_def)
  then obtain m' where m': "duplicate_handle demo_manager 10 4 20 GENERIC_READ True = (Ok 4, m')" ..
  from duplicate_handle_no_amplification [OF demo_reachable demo_lookup m'] m' show ?thesis by auto
qed

lemma finalizer_kept:
  "(on_finalize (snd (drop_reference m i)) = None) = (on_finalize m = None)"
  by (auto simp: drop_reference_def destroy_def Let_def split: option.splits)

lemma grant_handle_finalizer: "on_finalize (snd (grant_handle m p obj access inh)) = on_finalize m"
  by (cases rule: grant_handle_cases [of m obj p access inh]) auto

lemma grant_handles_finalizer: "on_finalize (snd (grant_handles m p es)) = on_finalize m"
proof (induction m p es rule: grant_handles.induct)
  case (2 m p obj access es)
  then show ?case using grant_handle_finalizer [of m p obj access True]
    by (auto split: prod.splits res.splits)
qed simp

lemma close_handle_snd:
  "snd (close_handle m p h) = m \<or> (\<exists>ps i. snd (close_handle m p h) = snd (drop_reference (m\<lparr>processes := ps\<rparr>) i))"
  by (auto simp: close_handle_def Let_def split: option.splits prod.splits res.splits) (metis snd_conv)+

lemma close_handle_finalizer: "(on_finalize (snd (close_handle m p h)) = None) = (on_finalize m = None)"
  using close_handle_snd [of m p h] by (auto simp: finalizer_kept)

lemma close_handles_finalizer: "(on_finalize (snd (close_handles m p hs)) = None) = (on_finalize m = None)"
proof (induction m p hs rule: close_handles.induct)
  case (2 m p h hs)
  then show ?case using close_handle_finalizer [of m p h] by (auto split: prod.splits res.splits)
qed simp

lemma close_process_finalizer: "(on_finalize (snd (close_process m p)) = None) = (on_finalize m = None)"
  using close_handles_finalizer [of m p]
  by (auto simp: close_process_def Let_def split: option.splits prod.splits res.splits) (metis snd_conv)+

lemma om_step_finalizer: "om_step m m' \<Longrightarrow> (on_finalize m' = None) = (on_finalize m = None)"
proof (induction rule: om_step.induct)
  case (create m kind payload name)
  then show ?case by (auto simp: create_object_def insert_object_def Let_def split: option.splits res.splits)
next
  case (open_named m name kind)
  then show ?case by (auto simp: open_object_def split: option.splits res.splits)
next
  case (duplicate m sp sh tp d inh)
  then show ?case
    by (auto simp: duplicate_handle_def Let_def grant_handle_finalizer split: option.splits res.splits)
next
  case (inherit m parent child)
  then show ?case by (simp add: inherit_handles_def grant_handles_finalizer)
qed (auto simp: release_object_def finalizer_kept grant_handle_finalizer close_handle_finalizer close_process_finalizer
    set_event_def reset_event_def acquire_mutant_def release_mutant_def set_payload_def
    split: option.splits object_payload.splits)

interpretation om_fin: invariant_system "\<lambda>m. m = with_finalizer" om_step "\<lambda>m. on_finalize m \<noteq> None"
  by unfold_locales (auto simp: with_finalizer_def om_step_finalizer)

text \<open>
  C3. Finalization happens exactly once: with a finalizer registered, in every reachable
  manager the log of finalized objects has no repetition, it holds exactly the identifiers
  that were issued and no longer resolve, the counter is its length, and the callback was
  invoked for these objects in this order and for no other.
\<close>
theorem finalized_exactly_once:
  assumes "om_step\<^sup>*\<^sup>* with_finalizer m"
  shows "\<exists>calls. on_finalize m = Some calls \<and> map fst calls = finalized_log m \<and>
     distinct (finalized_log m) \<and> finalized m = length (finalized_log m) \<and>
     set (finalized_log m) =
       {i. 1 \<le> i \<and> i < next_object_id m \<and> query_object m i = Err STATUS_INVALID_HANDLE}"
proof -
  have "log_ok m" by (rule obj_invD(5), rule om.reachable_inv [OF _ assms]) simp
  moreover have "on_finalize m \<noteq> None" by (rule om_fin.reachable_inv [OF _ assms]) simp
  ultimately show ?thesis
    by (auto simp: log_ok_def query_object_def ok_or_def split: option.splits)
qed

definition demo_finalized :: object_manager where
  "demo_finalized = snd (release_object (snd (create_object with_finalizer TEvent demo_event None)) 1)"

theorem finalized_exactly_once_witness:
  "finalized_log demo_finalized = [1] \<and>
   (\<exists>calls. on_finalize demo_finalized = Some calls \<and> map fst calls = finalized_log demo_finalized)"
proof -
  let ?m = "snd (create_object with_finalizer TEvent demo_event None)"
  have created: "handle_refs ?m 1 < obj_refs ?m 1"
    by (simp add: create_object_def demo_event_def insert_object_def Let_def with_finalizer_def
        object_manager_new_def handle_refs_def obj_refs_def)
  have "om_step\<^sup>*\<^sup>* with_finalizer demo_finalized"
    unfolding demo_finalized_def
    by (meson created om_step.create om_step.release rtranclp.rtrancl_into_rtrancl rtranclp.rtrancl_refl)
  from finalized_exactly_once [OF this] show ?thesis
    by (auto simp: demo_finalized_def release_object_def drop_reference_def destroy_def create_object_def
        demo_event_def insert_object_def Let_def with_finalizer_def object_manager_new_def)
qed

text \<open>
  Names: after a named object is created, opening any spelling of the name that has the
  same canonical form up to case returns that object and adds one reference, opening it as
  another type or creating it again fails, and once its last reference is released the name
  is gone.
\<close>
theorem create_open_name:
  assumes c: "create_object m k pl (Some n) = (Ok i, m1)"
    and n: "normalize_name n = Ok c" and n': "normalize_name n' = Ok c'"
    and key: "name_key c' = name_key c"
  shows "(\<exists>m2. open_object m1 n' k = (Ok i, m2) \<and> ref_count m2 i = Ok 2) \<and>
    (\<forall>k'. k' \<noteq> k \<longrightarrow> open_object m1 n' k' = (Err STATUS_OBJECT_TYPE_MISMATCH, m1)) \<and>
    (\<forall>pl'. create_object m1 (payload_kind pl') pl' (Some n') = (Err STATUS_OBJECT_NAME_COLLISION, m1)) \<and>
    fst (open_object (snd (release_object m1 i)) n' k) = Err STATUS_OBJECT_NAME_NOT_FOUND"
proof -
  have i: "map_of (objects m1) i =
      Some \<lparr>oe_id = i, oe_kind = k, oe_name = Some c, oe_payload = pl, oe_ref_count = 1\<rparr>"
    and ns: "map_of (namespace m1) (name_key c) = Some i"
    using c n by (auto simp: create_object_def insert_object_def Let_def split: if_splits)
  have "fst (open_object (snd (release_object m1 i)) n' k) = Err STATUS_OBJECT_NAME_NOT_FOUND"
    using n' key i by (simp add: open_object_def release_object_def drop_reference_def destroy_def Let_def)
  then show ?thesis
    using n' key i ns by (simp add: open_object_def create_object_def ref_count_def u32_max_def)
qed

theorem create_open_name_witness:
  "\<exists>m2. open_object (snd (create_object object_manager_new TEvent demo_event (Some ''Ev''))) ''EV '' TEvent = (Ok 1, m2) \<and>
     ref_count m2 1 = Ok 2"
proof -
  have n: "normalize_name ''Ev'' = Ok (backslash # ''BaseNamedObjects'' @ backslash # ''Ev'')"
    and n': "normalize_name ''EV '' = Ok (backslash # ''BaseNamedObjects'' @ backslash # ''EV'')"
    by (simp_all add: normalize_name_def str_trim_def is_whitespace_def str_contains_def backslash_def Let_def)
  have key: "name_key (backslash # ''BaseNamedObjects'' @ backslash # ''EV'') =
      name_key (backslash # ''BaseNamedObjects'' @ backslash # ''Ev'')"
    by code_simp
  show ?thesis using create_open_name [OF demo_created n n' key] by (simp add: demo_created)
qed

text \<open>
  C4. Closing a process: in a reachable manager \<open>close_process\<close> succeeds and returns the number
  of handles the process had; afterwards it has none, every other process keeps its table,
  and each object has lost exactly as many references as the process had handles to it.
\<close>
theorem close_process_releases_all:
  assumes "om_step\<^sup>*\<^sup>* object_manager_new m" and t: "map_of (processes m) p = Some t"
  shows "\<exists>m'. close_process m p = (Ok (handle_count m p), m') \<and> handle_count m' p = 0 \<and>
     (\<forall>q. q \<noteq> p \<longrightarrow> map_of (processes m') q = map_of (processes m) q) \<and>
     (\<forall>i. obj_refs m' i + table_refs t i = obj_refs m i)"
proof -
  have "obj_inv m" by (rule om.reachable_inv [OF _ assms(1)]) simp
  then obtain m' where m': "close_process m p = (Ok (length (ht_handles t)), m')"
    "map_of (processes m') = (map_of (processes m))(p := None)"
    "\<And>i. obj_refs m' i + table_refs t i = obj_refs m i"
    by (rule close_process_spec [OF _ t]) blast
  then show ?thesis using t by (auto simp: handle_count_def)
qed

theorem close_process_releases_all_witness:
  "\<exists>m'. close_process demo_manager 10 = (Ok 2, m') \<and> obj_refs m' 1 = 1"
proof -
  let ?t = "\<lparr>ht_next_handle = 12, ht_handles =
        [(4, \<lparr>he_handle = 4, he_object = 1, he_access = 0x00100003, he_inheritable = False\<rparr>),
         (8, \<lparr>he_handle = 8, he_object = 1, he_access = 0x00100000, he_inheritable = True\<rparr>)]\<rparr>"
  have t: "map_of (processes demo_manager) 10 = Some ?t" by (simp add: demo_eq)
  have v: "handle_count demo_manager 10 = 2" "table_refs ?t 1 = 2" "obj_refs demo_manager 1 = 3"
    by (simp_all add: demo_eq handle_count_def table_refs_def obj_refs_def)
  from close_process_releases_all [OF demo_reachable t] obtain m' where
    m': "close_process demo_manager 10 = (Ok 2, m')" "\<forall>i. obj_refs m' i + table_refs ?t i = obj_refs demo_manager i"
    by (auto simp: v(1))
  from m'(2) [rule_format, of 1] v(2,3) have "obj_refs m' 1 = 1" by linarith
  with m'(1) show ?thesis by blast
qed

text \<open>The state of a mutant: its owner and recursion count.\<close>

definition mutant_state :: "object_manager \<Rightarrow> nat \<Rightarrow> (nat option \<times> nat) option" where
  "mutant_state m i = (case map_of (objects m) i of
     Some e \<Rightarrow> (case oe_payload e of PMutant mu \<Rightarrow> Some (mu_owner_thread mu, mu_recursion mu) | _ \<Rightarrow> None)
   | None \<Rightarrow> None)"

lemma mutant_state_Some:
  "mutant_state m i = Some (ow, r) \<longleftrightarrow> (\<exists>e mu. map_of (objects m) i = Some e \<and> oe_payload e = PMutant mu \<and>
     mu_owner_thread mu = ow \<and> mu_recursion mu = r)"
  by (auto simp: mutant_state_def split: option.splits object_payload.splits)

lemma acquire_free: "mutant_state m i = Some (None, r) \<Longrightarrow>
   fst (acquire_mutant m i t) = Ok True \<and> mutant_state (snd (acquire_mutant m i t)) i = Some (Some t, 1)"
  by (auto simp: mutant_state_Some acquire_mutant_def set_payload_def)

lemma acquire_again: "mutant_state m i = Some (Some t, r) \<Longrightarrow> r < u32_max \<Longrightarrow>
   fst (acquire_mutant m i t) = Ok True \<and> mutant_state (snd (acquire_mutant m i t)) i = Some (Some t, Suc r)"
  by (auto simp: mutant_state_Some acquire_mutant_def set_payload_def)

lemma release_step: "mutant_state m i = Some (Some t, r) \<Longrightarrow>
   mutant_state (snd (release_mutant m i t)) i = (if 1 < r then Some (Some t, r - 1) else Some (None, 0))"
  by (auto simp: mutant_state_Some release_mutant_def set_payload_def)

lemma acquire_many:
  "mutant_state m i = Some (None, r) \<Longrightarrow> Suc n \<le> u32_max \<Longrightarrow>
   mutant_state (((\<lambda>m. snd (acquire_mutant m i t)) ^^ Suc n) m) i = Some (Some t, Suc n)"
  by (induction n) (auto simp: acquire_free acquire_again)

lemma release_many:
  "mutant_state m i = Some (Some t, n) \<Longrightarrow> k < n \<Longrightarrow>
   mutant_state (((\<lambda>m. snd (release_mutant m i t)) ^^ k) m) i = Some (Some t, n - k)"
  by (induction k) (auto simp: release_step)

text \<open>
  A mutant is held by one thread and is recursive: after \<open>n\<close> acquisitions by a thread, any
  \<open>k < n\<close> releases leave it held \<open>n - k\<close> times, no other thread can acquire or release it
  meanwhile, and exactly the \<open>n\<close>th release frees it.
\<close>
theorem mutant_recursive_exclusion:
  assumes free: "mutant_state m i = Some (None, r)" and n: "n \<le> u32_max" and k: "k < n" and t: "t' \<noteq> t"
    and m': "m' = ((\<lambda>m. snd (acquire_mutant m i t)) ^^ n) m"
    and m'': "m'' = ((\<lambda>m. snd (release_mutant m i t)) ^^ k) m'"
  shows "mutant_state m'' i = Some (Some t, n - k) \<and>
     acquire_mutant m'' i t' = (Ok False, m'') \<and>
     release_mutant m'' i t' = (Err STATUS_ACCESS_DENIED, m'') \<and>
     mutant_state (((\<lambda>m. snd (release_mutant m i t)) ^^ n) m') i = Some (None, 0)"
proof -
  from k obtain n' where n': "n = Suc n'" by (cases n) auto
  have a: "mutant_state m' i = Some (Some t, n)" using acquire_many [OF free] n n' m' by simp
  have s: "mutant_state m'' i = Some (Some t, n - k)" unfolding m'' by (rule release_many [OF a k])
  have o: "acquire_mutant m'' i t' = (Ok False, m'')" "release_mutant m'' i t' = (Err STATUS_ACCESS_DENIED, m'')"
    using s t by (auto simp: mutant_state_Some acquire_mutant_def release_mutant_def)
  have "mutant_state (((\<lambda>m. snd (release_mutant m i t)) ^^ n') m') i = Some (Some t, 1)"
    using release_many [OF a, of n'] n' by simp
  from release_step [OF this] have "mutant_state (((\<lambda>m. snd (release_mutant m i t)) ^^ n) m') i = Some (None, 0)"
    by (simp add: n')
  with s o show ?thesis by blast
qed

theorem mutant_recursive_exclusion_witness:
  "mutant_state (snd (acquire_mutant (snd (acquire_mutant
     (snd (create_object object_manager_new TMutant (PMutant mutant_payload_new) None)) 1 77)) 1 77)) 1 = Some (Some 77, 2)"
proof -
  let ?m = "snd (create_object object_manager_new TMutant (PMutant mutant_payload_new) None)"
  have "mutant_state ?m 1 = Some (None, 0)"
    by (simp add: create_object_def insert_object_def object_manager_new_def mutant_state_def mutant_payload_new_def Let_def)
  moreover have "Suc 1 \<le> u32_max" by (simp add: u32_max_def)
  ultimately show ?thesis
    using mutant_recursive_exclusion [of ?m 1 0 "Suc 1" 0 78 77, OF _ _ _ _ refl refl] by simp
qed

lemma grant_handle_table:
  assumes inv: "obj_inv m" and ex: "a AND generic_bits = 0"
    and g: "grant_handle m p obj a inh = (Ok h, m')"
  shows "map_of (processes m') = (map_of (processes m))(p \<mapsto> target_table m' p)"
    and "ht_handles (target_table m' p) = ht_handles (target_table m p) @
       [(h, \<lparr>he_handle = h, he_object = obj, he_access = a, he_inheritable = inh\<rparr>)]"
proof -
  have t: "table_ok (target_table m p)" using target_table_ok [OF obj_invD(2) [OF inv]] .
  from g obtain e where "m' = m\<lparr>objects := om_insert obj (e\<lparr>oe_ref_count := oe_ref_count e + 1\<rparr>) (objects m),
      processes := om_insert p (granted_table m p obj a inh) (processes m)\<rparr>"
    and h: "h = ht_next_handle (target_table m p)"
    by (cases rule: grant_handle_cases [of m obj p a inh]) (auto simp: map_generic_access_id [OF ex])
  then have m': "map_of (processes m') = (map_of (processes m))(p \<mapsto> granted_table m p obj a inh)" by simp
  then have tt: "target_table m' p = granted_table m p obj a inh" by (simp add: target_table_def)
  with m' show "map_of (processes m') = (map_of (processes m))(p \<mapsto> target_table m' p)" by simp
  show "ht_handles (target_table m' p) = ht_handles (target_table m p) @
       [(h, \<lparr>he_handle = h, he_object = obj, he_access = a, he_inheritable = inh\<rparr>)]"
    unfolding tt using t h by (simp add: granted_table_def Let_def table_ok_def fresh_ids_def om_insert_last)
qed

lemma grant_handles_table:
  assumes "obj_inv m" "\<forall>(obj, a) \<in> set es. a AND generic_bits = 0" "grant_handles m p es = (Ok hs, m')"
  shows "length hs = length es \<and> (\<forall>q. q \<noteq> p \<longrightarrow> map_of (processes m') q = map_of (processes m) q) \<and>
     ht_handles (target_table m' p) = ht_handles (target_table m p) @
       map2 (\<lambda>h (obj, a). (h, \<lparr>he_handle = h, he_object = obj, he_access = a, he_inheritable = True\<rparr>)) hs es"
  using assms
proof (induction m p es arbitrary: hs rule: grant_handles.induct)
  case (2 m p obj a es)
  from "2.prems"(3) obtain h m1 hs' where g: "grant_handle m p obj a True = (Ok h, m1)"
    and gs: "grant_handles m1 p es = (Ok hs', m')" and hs: "hs = h # hs'"
    by (auto split: prod.splits res.splits)
  have ex: "a AND generic_bits = 0" and exs: "\<forall>(obj, a) \<in> set es. a AND generic_bits = 0"
    using "2.prems"(2) by auto
  have inv1: "obj_inv m1" using grant_handle_inv [OF "2.prems"(1), of p obj a True] g by simp
  note t = grant_handle_table [OF "2.prems"(1) ex g]
  from "2.IH" [OF g [symmetric] refl inv1 exs gs] t show ?case by (auto simp: hs)
qed auto

text \<open>
  Inheritance: in a reachable manager, \<open>inherit_handles\<close> into a process without handles gives
  it exactly one handle for each inheritable handle of the parent, in table order, on the same
  object with the same rights and again inheritable; every other process keeps its table.
\<close>
theorem inherit_handles_exact:
  assumes "om_step\<^sup>*\<^sup>* object_manager_new m"
    and parent: "map_of (processes m) parent = Some t"
    and child: "map_of (processes m) child = None"
    and inh: "inherit_handles m parent child = (Ok hs, m')"
    and src: "src = filter he_inheritable (map snd (ht_handles t))"
  shows "map_of (processes m') parent = Some t \<and> length hs = length src \<and>
     map snd (ht_handles (target_table m' child)) =
       map2 (\<lambda>h e. \<lparr>he_handle = h, he_object = he_object e, he_access = he_access e, he_inheritable = True\<rparr>) hs src"
proof -
  have inv: "obj_inv m" by (rule om.reachable_inv [OF _ assms(1)]) simp
  let ?es = "map (\<lambda>e. (he_object e, he_access e)) src"
  have tok: "table_ok t" using tabs_ok_table [OF obj_invD(2) [OF inv] parent] .
  have "he_access e AND generic_bits = 0" if "e \<in> set src" for e
  proof -
    from that src obtain h where "(h, e) \<in> set (ht_handles t)" by auto
    then have "map_of (ht_handles t) h = Some e" by (simp add: om_get_iff [OF table_ok_wf [OF tok]])
    then show ?thesis using tok by (simp add: table_ok_def handle_entry_ok_def)
  qed
  then have ex: "\<forall>(obj, a) \<in> set ?es. a AND generic_bits = 0" by auto
  have g: "grant_handles m child ?es = (Ok hs, m')" using inh parent src by (simp add: inherit_handles_def)
  have "parent \<noteq> child" using parent child by auto
  with grant_handles_table [OF inv ex g] child parent show ?thesis
    by (auto simp: target_table_def handle_table_new_def map_zip_map2 zip_map2 split: option.splits
        intro!: nth_equalityI)
qed

theorem inherit_handles_exact_witness:
  "\<exists>hs m'. inherit_handles demo_manager 10 30 = (Ok hs, m') \<and> length hs = 1"
proof -
  have "fst (inherit_handles demo_manager 10 30) = Ok [4]"
    by (simp add: demo_eq inherit_handles_def grant_handle_def allocate_handle_def handle_table_new_def
        u32_max_def map_generic_access_def access_defs Let_def)
  then obtain m' where i: "inherit_handles demo_manager 10 30 = (Ok [4], m')" by (metis prod.collapse)
  have t: "map_of (processes demo_manager) 10 = Some \<lparr>ht_next_handle = 12, ht_handles =
        [(4, \<lparr>he_handle = 4, he_object = 1, he_access = 0x00100003, he_inheritable = False\<rparr>),
         (8, \<lparr>he_handle = 8, he_object = 1, he_access = 0x00100000, he_inheritable = True\<rparr>)]\<rparr>"
    and c: "map_of (processes demo_manager) 30 = None"
    by (simp_all add: demo_eq)
  from inherit_handles_exact [OF demo_reachable t c i refl] i show ?thesis by auto
qed

end
