(* ===== verification/Exec_Pool.thy ===== *)
theory Exec_Pool
  imports Status "HOL-Library.Multiset"
begin

text \<open>
  The executive primitives of \<open>src/src/casak/exec.rs\<close>: the tagged pool, the lookaside list and
  the queue of deferred procedure calls. The address of a fresh buffer is chosen by Rust's
  allocator, which is not part of the sources: it is the argument \<open>ptr\<close> of the two \<open>allocate\<close>
  operations, and what the code relies on, that it is not the address of a buffer still owned,
  is a hypothesis where it is used. A deferred call is any value of a type \<open>'c\<close>; running the
  queue returns the calls that ran, in order. Sizes are \<open>usize\<close> of 64 bits.
\<close>

section \<open>Pool tags\<close>

datatype pool_tag = PoolTag u8 u8 u8 u8

fun pool_tag_bytes :: "pool_tag \<Rightarrow> u8 list" where
  "pool_tag_bytes (PoolTag a b c d) = [a, b, c, d]"

lemma pool_tag_bytes_inj: "pool_tag_bytes s = pool_tag_bytes t \<Longrightarrow> s = t"
  by (cases s; cases t) simp

instantiation pool_tag :: linorder
begin

definition less_eq_pool_tag :: "pool_tag \<Rightarrow> pool_tag \<Rightarrow> bool" where
  "less_eq_pool_tag s t \<longleftrightarrow> pool_tag_bytes s \<le> pool_tag_bytes t"

definition less_pool_tag :: "pool_tag \<Rightarrow> pool_tag \<Rightarrow> bool" where
  "less_pool_tag s t \<longleftrightarrow> pool_tag_bytes s < pool_tag_bytes t"

instance
  by standard (auto simp: less_eq_pool_tag_def less_pool_tag_def dest: pool_tag_bytes_inj)

end

section \<open>Tagged pool\<close>

record pool_block =
  pb_ptr :: nat
  pb_size :: nat
  pb_tag :: pool_tag

record tag_stats =
  ts_bytes :: nat
  ts_count :: nat

record tagged_pool =
  tp_budget :: nat
  tp_used :: nat
  tp_peak :: nat
  tp_allocations :: nat
  tp_frees :: nat
  tp_tag_stats :: "(pool_tag, tag_stats) omap"
  tp_live :: "(nat, pool_block \<times> u8 list) omap"

definition tagged_pool_new :: "nat \<Rightarrow> tagged_pool" where
  "tagged_pool_new budget = \<lparr>tp_budget = budget, tp_used = 0, tp_peak = 0, tp_allocations = 0,
     tp_frees = 0, tp_tag_stats = [], tp_live = []\<rparr>"

definition pool_tag_stats :: "tagged_pool \<Rightarrow> pool_tag \<Rightarrow> tag_stats" where
  "pool_tag_stats p tag = (case map_of (tp_tag_stats p) tag of
     None \<Rightarrow> \<lparr>ts_bytes = 0, ts_count = 0\<rparr> | Some s \<Rightarrow> s)"

definition pool_allocate :: "nat \<Rightarrow> tagged_pool \<Rightarrow> pool_tag \<Rightarrow> nat \<Rightarrow> pool_block res \<times> tagged_pool" where
  "pool_allocate ptr p tag sz =
     (let sz = max sz 1
      in if saturating_add64 (tp_used p) sz > tp_budget p then (Err STATUS_INSUFFICIENT_RESOURCES, p)
         else if tp_used p + sz > u64_max then (Panic, p)
         else let block = \<lparr>pb_ptr = ptr, pb_size = sz, pb_tag = tag\<rparr>;
                  stats = pool_tag_stats p tag
              in (Ok block,
                  p\<lparr>tp_live := om_insert ptr (block, replicate sz 0) (tp_live p),
                    tp_used := tp_used p + sz,
                    tp_peak := max (tp_peak p) (tp_used p + sz),
                    tp_allocations := tp_allocations p + 1,
                    tp_tag_stats := om_insert tag
                      (stats\<lparr>ts_bytes := ts_bytes stats + sz, ts_count := ts_count stats + 1\<rparr>) (tp_tag_stats p)\<rparr>))"

definition pool_free :: "tagged_pool \<Rightarrow> pool_block \<Rightarrow> unit res \<times> tagged_pool" where
  "pool_free p block =
     (case map_of (tp_live p) (pb_ptr block) of
        None \<Rightarrow> (Err STATUS_INVALID_ADDRESS, p)
      | Some (stored, buffer) \<Rightarrow>
          let p1 = p\<lparr>tp_live := om_remove (pb_ptr block) (tp_live p)\<rparr>
          in if pb_size stored \<noteq> pb_size block \<or> pb_tag stored \<noteq> pb_tag block
             then (Err STATUS_INVALID_ADDRESS,
                   p1\<lparr>tp_live := om_insert (pb_ptr stored) (stored, buffer) (tp_live p1)\<rparr>)
             else (Ok (),
                   p1\<lparr>tp_used := tp_used p - pb_size stored,
                      tp_frees := tp_frees p + 1,
                      tp_tag_stats := (case map_of (tp_tag_stats p) (pb_tag stored) of
                          None \<Rightarrow> tp_tag_stats p
                        | Some stats \<Rightarrow> om_insert (pb_tag stored)
                            (stats\<lparr>ts_bytes := ts_bytes stats - pb_size stored, ts_count := ts_count stats - 1\<rparr>)
                            (tp_tag_stats p))\<rparr>))"

section \<open>Lookaside list\<close>

text \<open>A buffer is its address and its bytes.\<close>

type_synonym buffer = "nat \<times> u8 list"

record lookaside_block =
  lb_ptr :: nat
  lb_size :: nat
  lb_epoch :: nat
  lb_tag :: pool_tag

record lookaside_list =
  ll_tag :: pool_tag
  ll_max_depth :: nat
  ll_budget :: nat
  ll_held_bytes :: nat
  ll_hits :: nat
  ll_misses :: nat
  ll_depth_high_water :: nat
  ll_next_epoch :: nat
  ll_free :: "(nat \<times> buffer) list"
  ll_outstanding :: "(nat, nat \<times> buffer) omap"

definition lookaside_list_new :: "pool_tag \<Rightarrow> nat \<Rightarrow> nat \<Rightarrow> lookaside_list" where
  "lookaside_list_new tag max_depth budget = \<lparr>ll_tag = tag, ll_max_depth = max_depth, ll_budget = budget,
     ll_held_bytes = 0, ll_hits = 0, ll_misses = 0, ll_depth_high_water = 0, ll_next_epoch = 1,
     ll_free = [], ll_outstanding = []\<rparr>"

fun position :: "('a \<Rightarrow> bool) \<Rightarrow> 'a list \<Rightarrow> nat option" where
  "position P [] = None"
| "position P (x # xs) = (if P x then Some 0 else map_option Suc (position P xs))"

text \<open>\<open>Vec::swap_remove\<close>: the last element takes the place of the removed one.\<close>

definition swap_remove :: "nat \<Rightarrow> 'a list \<Rightarrow> 'a list" where
  "swap_remove i xs = (if i = length xs - 1 then butlast xs else (butlast xs)[i := last xs])"

definition lookaside_allocate :: "nat \<Rightarrow> lookaside_list \<Rightarrow> nat \<Rightarrow> lookaside_block res \<times> lookaside_list" where
  "lookaside_allocate ptr l sz =
     (let sz = max sz 1;
          index = (case position (\<lambda>(_, b). length (snd b) = sz) (ll_free l) of
                     Some i \<Rightarrow> Some i
                   | None \<Rightarrow> position (\<lambda>(_, b). length (snd b) \<ge> sz) (ll_free l))
      in case index of
           Some i \<Rightarrow>
             let (epoch, buffer) = ll_free l ! i
             in (Ok \<lparr>lb_ptr = fst buffer, lb_size = sz, lb_epoch = epoch + 1, lb_tag = ll_tag l\<rparr>,
                 l\<lparr>ll_free := swap_remove i (ll_free l), ll_hits := ll_hits l + 1,
                   ll_outstanding := om_insert (fst buffer) (epoch + 1, buffer) (ll_outstanding l)\<rparr>)
         | None \<Rightarrow>
             if saturating_add64 (ll_held_bytes l) sz > ll_budget l then (Err STATUS_INSUFFICIENT_RESOURCES, l)
             else if ll_held_bytes l + sz > u64_max then (Panic, l)
             else (Ok \<lparr>lb_ptr = ptr, lb_size = sz, lb_epoch = ll_next_epoch l, lb_tag = ll_tag l\<rparr>,
                   l\<lparr>ll_next_epoch := ll_next_epoch l + 1, ll_misses := ll_misses l + 1,
                     ll_held_bytes := ll_held_bytes l + sz,
                     ll_outstanding := om_insert ptr (ll_next_epoch l, ptr, replicate sz 0) (ll_outstanding l)\<rparr>))"

definition lookaside_free :: "lookaside_list \<Rightarrow> lookaside_block \<Rightarrow> unit res \<times> lookaside_list" where
  "lookaside_free l block =
     (case map_of (ll_outstanding l) (lb_ptr block) of
        None \<Rightarrow> (Err STATUS_INVALID_ADDRESS, l)
      | Some (epoch, buffer) \<Rightarrow>
          let l1 = l\<lparr>ll_outstanding := om_remove (lb_ptr block) (ll_outstanding l)\<rparr>
          in if epoch \<noteq> lb_epoch block \<or> lb_tag block \<noteq> ll_tag l
             then (Err STATUS_INVALID_ADDRESS,
                   l1\<lparr>ll_outstanding := om_insert (lb_ptr block) (epoch, buffer) (ll_outstanding l1)\<rparr>)
             else if length (ll_free l) < ll_max_depth l
             then (Ok (), l1\<lparr>ll_free := ll_free l @ [(epoch, buffer)],
                             ll_depth_high_water := max (ll_depth_high_water l) (length (ll_free l) + 1)\<rparr>)
             else (Ok (), l1\<lparr>ll_held_bytes := ll_held_bytes l - length (snd buffer)\<rparr>))"

section \<open>Deferred procedure calls\<close>

record 'c dpc_object =
  dpc_sequence :: nat
  dpc_callback :: "'c option"

record 'c dpc_queue =
  dq_next_sequence :: nat
  dq_pending :: "'c dpc_object list"
  dq_executed :: nat
  dq_cancelled :: nat

definition dpc_queue_new :: "'c dpc_queue" where
  "dpc_queue_new = \<lparr>dq_next_sequence = 1, dq_pending = [], dq_executed = 0, dq_cancelled = 0\<rparr>"

definition dpc_invoke :: "'c dpc_object \<Rightarrow> 'c option \<times> 'c dpc_object" where
  "dpc_invoke d = (dpc_callback d, d\<lparr>dpc_callback := None\<rparr>)"

definition dpc_enqueue :: "'c dpc_queue \<Rightarrow> 'c \<Rightarrow> nat \<times> 'c dpc_queue" where
  "dpc_enqueue q callback =
     (let sequence = dq_next_sequence q
      in (sequence, q\<lparr>dq_next_sequence := sequence + 1,
            dq_pending := dq_pending q @ [\<lparr>dpc_sequence = sequence, dpc_callback = Some callback\<rparr>]\<rparr>))"

text \<open>The sequence number of a prepared object is chosen by the caller; its plain increment may overflow.\<close>

definition dpc_queue_object :: "'c dpc_queue \<Rightarrow> 'c dpc_object \<Rightarrow> unit res \<times> 'c dpc_queue" where
  "dpc_queue_object q dpc =
     (if dpc_sequence dpc + 1 > u64_max then (Panic, q)
      else (Ok (), q\<lparr>dq_next_sequence := max (dq_next_sequence q) (dpc_sequence dpc + 1), dq_pending := dq_pending q @ [dpc]\<rparr>))"

text \<open>The loop of \<open>execute_pending\<close>: the calls that ran, their number, and the queue.\<close>

function dpc_run :: "'c dpc_queue \<Rightarrow> nat \<Rightarrow> 'c list \<Rightarrow> nat \<times> 'c list \<times> 'c dpc_queue" where
  "dpc_run q done_count calls =
     (case dq_pending q of
        [] \<Rightarrow> (done_count, calls, q)
      | d # ds \<Rightarrow>
          (case dpc_invoke d of
             (Some c, _) \<Rightarrow> dpc_run (q\<lparr>dq_pending := ds, dq_executed := dq_executed q + 1\<rparr>) (done_count + 1) (calls @ [c])
           | (None, _) \<Rightarrow> dpc_run (q\<lparr>dq_pending := ds\<rparr>) done_count calls))"
  by pat_completeness auto
termination by (relation "measure (\<lambda>(q, done_count, calls). length (dq_pending q))") auto

declare dpc_run.simps [simp del]

definition dpc_execute_pending :: "'c dpc_queue \<Rightarrow> nat \<times> 'c list \<times> 'c dpc_queue" where
  "dpc_execute_pending q = dpc_run q 0 []"

definition dpc_cancel :: "'c dpc_queue \<Rightarrow> nat \<Rightarrow> unit res \<times> 'c dpc_queue" where
  "dpc_cancel q sequence =
     (case position (\<lambda>d. dpc_sequence d = sequence) (dq_pending q) of
        None \<Rightarrow> (Err STATUS_NOT_FOUND, q)
      | Some i \<Rightarrow> (Ok (), q\<lparr>dq_pending := take i (dq_pending q) @ drop (Suc i) (dq_pending q),
                           dq_cancelled := dq_cancelled q + 1\<rparr>))"

definition dpc_pending_sequences :: "'c dpc_queue \<Rightarrow> nat list" where
  "dpc_pending_sequences q = map dpc_sequence (dq_pending q)"

section \<open>Accounting of the pool\<close>

definition tag_bytes :: "pool_tag \<Rightarrow> (nat, pool_block \<times> u8 list) omap \<Rightarrow> nat" where
  "tag_bytes tag live = om_sum (\<lambda>_ b. if pb_tag (fst b) = tag then pb_size (fst b) else 0) live"

definition tag_blocks :: "pool_tag \<Rightarrow> (nat, pool_block \<times> u8 list) omap \<Rightarrow> nat" where
  "tag_blocks tag live = om_sum (\<lambda>_ b. if pb_tag (fst b) = tag then 1 else 0) live"

definition pool_inv :: "tagged_pool \<Rightarrow> bool" where
  "pool_inv p \<longleftrightarrow> om_wf (tp_live p) \<and>
     (\<forall>a b buf. map_of (tp_live p) a = Some (b, buf) \<longrightarrow> pb_ptr b = a \<and> 1 \<le> pb_size b \<and> length buf = pb_size b) \<and>
     tp_used p = om_sum (\<lambda>_ b. pb_size (fst b)) (tp_live p) \<and>
     tp_used p \<le> tp_peak p \<and> tp_peak p \<le> tp_budget p \<and>
     tp_allocations p = tp_frees p + length (tp_live p) \<and>
     (\<forall>tag. pool_tag_stats p tag = \<lparr>ts_bytes = tag_bytes tag (tp_live p), ts_count = tag_blocks tag (tp_live p)\<rparr>)"

lemma pool_inv_new: "pool_inv (tagged_pool_new budget)"
  by (simp add: pool_inv_def tagged_pool_new_def pool_tag_stats_def tag_bytes_def tag_blocks_def)

lemma saturating_add64_le: "a + b \<le> u64_max \<Longrightarrow> saturating_add64 a b = a + b"
  by (simp add: saturating_add64_def)

lemma pool_allocate_inv:
  assumes inv: "pool_inv p" and fresh: "map_of (tp_live p) ptr = None"
  shows "pool_inv (snd (pool_allocate ptr p tag n))"
proof -
  let ?n = "max n 1"
  have eq: "snd (pool_allocate ptr p tag n) =
      (if tp_used p + ?n \<le> tp_budget p \<and> tp_used p + ?n \<le> u64_max
       then p\<lparr>tp_live := om_insert ptr (\<lparr>pb_ptr = ptr, pb_size = ?n, pb_tag = tag\<rparr>, replicate ?n 0) (tp_live p),
           tp_used := tp_used p + ?n, tp_peak := max (tp_peak p) (tp_used p + ?n),
           tp_allocations := tp_allocations p + 1,
           tp_tag_stats := om_insert tag (let s = pool_tag_stats p tag in
             s\<lparr>ts_bytes := ts_bytes s + ?n, ts_count := ts_count s + 1\<rparr>) (tp_tag_stats p)\<rparr>
       else p)"
    by (simp add: pool_allocate_def Let_def saturating_add64_def min_def)
  show ?thesis
  proof (cases "tp_used p + ?n \<le> tp_budget p \<and> tp_used p + ?n \<le> u64_max")
    case True
    have "ptr \<notin> fst ` set (tp_live p)" using fresh by (simp add: map_of_eq_None_iff)
    with True inv fresh show ?thesis unfolding eq
      by (auto simp: pool_inv_def om_sum_insert_fresh tag_bytes_def tag_blocks_def pool_tag_stats_def
          om_insert_fresh_length Let_def)
  next
    case False
    then show ?thesis using inv unfolding eq by auto
  qed
qed

text \<open>
  A free either matches the live block at its address, and removes it, or is rejected and
  leaves the pool as it was.
\<close>

definition pool_freed :: "tagged_pool \<Rightarrow> pool_block \<Rightarrow> tagged_pool" where
  "pool_freed p b = p\<lparr>tp_live := om_remove (pb_ptr b) (tp_live p), tp_used := tp_used p - pb_size b,
     tp_frees := tp_frees p + 1,
     tp_tag_stats := (case map_of (tp_tag_stats p) (pb_tag b) of None \<Rightarrow> tp_tag_stats p
        | Some s \<Rightarrow> om_insert (pb_tag b) (s\<lparr>ts_bytes := ts_bytes s - pb_size b, ts_count := ts_count s - 1\<rparr>) (tp_tag_stats p))\<rparr>"

lemma pool_free_eq:
  assumes "pool_inv p"
  shows "pool_free p b =
     (if \<exists>buf. map_of (tp_live p) (pb_ptr b) = Some (b, buf) then (Ok (), pool_freed p b)
      else (Err STATUS_INVALID_ADDRESS, p))"
proof (cases "map_of (tp_live p) (pb_ptr b)")
  case None
  then show ?thesis by (simp add: pool_free_def)
next
  case (Some sb)
  obtain s buf where sb: "sb = (s, buf)" by (cases sb)
  have ptr: "pb_ptr s = pb_ptr b" and wf: "om_wf (tp_live p)" using assms Some sb by (auto simp: pool_inv_def)
  show ?thesis
  proof (cases "pb_size s = pb_size b \<and> pb_tag s = pb_tag b")
    case True
    with ptr have "s = b" by simp
    with Some sb show ?thesis by (simp add: pool_free_def pool_freed_def Let_def)
  next
    case False
    then have "pool_free p b = (Err STATUS_INVALID_ADDRESS, p)"
      using Some sb ptr om_remove_insert_same [OF wf Some] by (auto simp: pool_free_def Let_def)
    moreover have "s \<noteq> b" using False by auto
    ultimately show ?thesis using Some sb by auto
  qed
qed

lemma pool_freed_inv:
  assumes inv: "pool_inv p" and b: "map_of (tp_live p) (pb_ptr b) = Some (b, buf)"
  shows "pool_inv (pool_freed p b)"
proof -
  have wf: "om_wf (tp_live p)" using inv by (simp add: pool_inv_def)
  have sums: "tag_bytes t (om_remove (pb_ptr b) (tp_live p)) + (if pb_tag b = t then pb_size b else 0) = tag_bytes t (tp_live p)"
     "tag_blocks t (om_remove (pb_ptr b) (tp_live p)) + (if pb_tag b = t then 1 else 0) = tag_blocks t (tp_live p)"
     "om_sum (\<lambda>_ b. pb_size (fst b)) (om_remove (pb_ptr b) (tp_live p)) + pb_size b = om_sum (\<lambda>_ b. pb_size (fst b)) (tp_live p)"
    for t
    using om_sum_remove [OF wf b, of "\<lambda>_ b. if pb_tag (fst b) = t then pb_size (fst b) else 0"]
      om_sum_remove [OF wf b, of "\<lambda>_ b. if pb_tag (fst b) = t then 1 else 0"]
      om_sum_remove [OF wf b, of "\<lambda>_ b. pb_size (fst b)"]
    by (auto simp: tag_bytes_def tag_blocks_def split: if_splits)
  have st: "pool_tag_stats p t = \<lparr>ts_bytes = tag_bytes t (tp_live p), ts_count = tag_blocks t (tp_live p)\<rparr>" for t
    using inv by (simp add: pool_inv_def)
  have "tag_blocks (pb_tag b) (tp_live p) \<noteq> 0" using sums(2) [of "pb_tag b"] by simp
  then obtain s where s: "map_of (tp_tag_stats p) (pb_tag b) = Some s"
    using st [of "pb_tag b"] by (cases "map_of (tp_tag_stats p) (pb_tag b)") (auto simp: pool_tag_stats_def)
  then have s': "ts_bytes s = tag_bytes (pb_tag b) (tp_live p)" "ts_count s = tag_blocks (pb_tag b) (tp_live p)"
    using st [of "pb_tag b"] by (simp_all add: pool_tag_stats_def)
  have "pool_tag_stats (pool_freed p b) t =
      \<lparr>ts_bytes = tag_bytes t (tp_live (pool_freed p b)), ts_count = tag_blocks t (tp_live (pool_freed p b))\<rparr>" for t
    using sums(1,2) [of t] st [of t] s s' by (auto simp: pool_freed_def pool_tag_stats_def)
  moreover have "Suc (length (om_remove (pb_ptr b) (tp_live p))) = length (tp_live p)"
    by (rule om_remove_length [OF wf b])
  ultimately show ?thesis
    using inv sums(3) wf by (auto simp: pool_inv_def pool_freed_def)
qed

lemma pool_free_inv: "pool_inv p \<Longrightarrow> pool_inv (snd (pool_free p b))"
  by (auto simp: pool_free_eq intro: pool_freed_inv)

inductive pool_step :: "tagged_pool \<Rightarrow> tagged_pool \<Rightarrow> bool" where
  alloc: "map_of (tp_live p) ptr = None \<Longrightarrow> pool_step p (snd (pool_allocate ptr p tag n))"
| free: "pool_step p (snd (pool_free p b))"

lemma pool_step_inv: "pool_step p p' \<Longrightarrow> pool_inv p \<Longrightarrow> pool_inv p'"
  by (induction rule: pool_step.induct) (auto intro: pool_allocate_inv pool_free_inv)

interpretation pool: invariant_system "\<lambda>p. p = tagged_pool_new budget" pool_step pool_inv for budget
  by unfold_locales (auto simp: pool_inv_new intro: pool_step_inv)

section \<open>Accounting of the lookaside list\<close>

lemma position_Some: "position P xs = Some i \<Longrightarrow> i < length xs \<and> P (xs ! i) \<and> (\<forall>j < i. \<not> P (xs ! j))"
  by (induction P xs arbitrary: i rule: position.induct)
    (auto split: if_splits simp: nth_Cons less_Suc_eq_0_disj split: nat.splits)

lemma position_None: "position P xs = None \<longleftrightarrow> (\<forall>x \<in> set xs. \<not> P x)"
  by (induction P xs rule: position.induct) auto

lemma position_append_last:
  "\<forall>x \<in> set xs. \<not> P x \<Longrightarrow> position P (xs @ [y]) = (if P y then Some (length xs) else None)"
  by (induction xs) auto

lemma swap_remove_append_last: "swap_remove (length xs) (xs @ [x]) = xs"
  by (simp add: swap_remove_def)

lemma swap_remove_mset:
  assumes "i < length xs"
  shows "add_mset (xs ! i) (mset (swap_remove i xs)) = mset xs"
proof (cases "i = length xs - 1")
  case True
  from assms have xs: "xs = butlast xs @ [last xs]" by (cases xs rule: rev_cases) auto
  have "xs ! i = last xs" using True assms by (metis last_conv_nth length_0_conv not_less_zero)
  moreover have "mset xs = add_mset (last xs) (mset (butlast xs))" by (subst xs) simp
  ultimately show ?thesis using True by (simp add: swap_remove_def)
next
  case False
  with assms have i: "i < length (butlast xs)" by simp
  from assms have xs: "xs = butlast xs @ [last xs]" by (cases xs rule: rev_cases) auto
  have "mset ((butlast xs)[i := last xs]) = add_mset (last xs) (mset (butlast xs) - {#butlast xs ! i#})"
    by (rule mset_update [OF i])
  moreover have "butlast xs ! i \<in># mset (butlast xs)" using i by simp
  moreover have "mset xs = add_mset (last xs) (mset (butlast xs))" by (subst xs) simp
  moreover have "xs ! i = butlast xs ! i" using i by (simp add: nth_butlast)
  ultimately show ?thesis using False by (simp add: swap_remove_def)
qed

text \<open>The addresses and the bytes of the buffers a list owns, cached and handed out.\<close>

definition la_cached :: "lookaside_list \<Rightarrow> nat multiset" where
  "la_cached l = image_mset (\<lambda>(_, b). fst b) (mset (ll_free l))"

definition la_owned :: "lookaside_list \<Rightarrow> nat multiset" where
  "la_owned l = la_cached l + image_mset fst (mset (ll_outstanding l))"

definition la_bytes :: "lookaside_list \<Rightarrow> nat" where
  "la_bytes l = sum_list (map (\<lambda>(_, b). length (snd b)) (ll_free l)) +
     om_sum (\<lambda>_ (_, b). length (snd b)) (ll_outstanding l)"

definition la_inv :: "lookaside_list \<Rightarrow> bool" where
  "la_inv l \<longleftrightarrow> om_wf (ll_outstanding l) \<and>
     (\<forall>a e b. map_of (ll_outstanding l) a = Some (e, b) \<longrightarrow> fst b = a) \<and>
     (\<forall>a. count (la_owned l) a \<le> 1) \<and>
     ll_held_bytes l = la_bytes l \<and> ll_held_bytes l \<le> ll_budget l \<and>
     length (ll_free l) \<le> ll_depth_high_water l \<and> ll_depth_high_water l \<le> ll_max_depth l"

lemma la_inv_new: "la_inv (lookaside_list_new tag d budget)"
  by (simp add: la_inv_def lookaside_list_new_def la_owned_def la_cached_def la_bytes_def)

lemma mset_keys_insert_fresh:
  "k \<notin> fst ` set m \<Longrightarrow> image_mset fst (mset (om_insert k v m)) = add_mset k (image_mset fst (mset m))"
  by (induction k v m rule: om_insert.induct) auto

lemma mset_keys_remove:
  assumes "om_wf m" "map_of m k = Some v"
  shows "add_mset k (image_mset fst (mset (om_remove k m))) = image_mset fst (mset m)"
proof -
  have "image_mset fst (mset m) = image_mset fst (mset (om_insert k v (om_remove k m)))"
    by (simp add: om_remove_insert_same [OF assms])
  also have "\<dots> = add_mset k (image_mset fst (mset (om_remove k m)))"
    by (rule mset_keys_insert_fresh) simp
  finally show ?thesis ..
qed

text \<open>The two outcomes of a successful allocation.\<close>

definition la_pick :: "lookaside_list \<Rightarrow> nat \<Rightarrow> nat option" where
  "la_pick l n = (case position (\<lambda>(_, b). length (snd b) = n) (ll_free l) of
     Some i \<Rightarrow> Some i | None \<Rightarrow> position (\<lambda>(_, b). length (snd b) \<ge> n) (ll_free l))"

lemma la_pick_Some:
  "la_pick l n = Some i \<Longrightarrow> i < length (ll_free l) \<and> n \<le> length (snd (snd (ll_free l ! i)))"
  by (auto simp: la_pick_def split: option.splits dest!: position_Some)

lemma lookaside_allocate_hit:
  assumes "la_pick l (max n 1) = Some i" "ll_free l ! i = (e, b)"
  shows "lookaside_allocate ptr l n = (Ok \<lparr>lb_ptr = fst b, lb_size = max n 1, lb_epoch = e + 1, lb_tag = ll_tag l\<rparr>,
     l\<lparr>ll_free := swap_remove i (ll_free l), ll_hits := ll_hits l + 1,
       ll_outstanding := om_insert (fst b) (e + 1, b) (ll_outstanding l)\<rparr>)"
  using assms by (simp add: lookaside_allocate_def la_pick_def Let_def)

lemma la_hit_inv:
  assumes inv: "la_inv l" and i: "la_pick l n = Some i" and b: "ll_free l ! i = (e, b)"
  shows "la_inv (l\<lparr>ll_free := swap_remove i (ll_free l), ll_hits := h,
     ll_outstanding := om_insert (fst b) (e', b) (ll_outstanding l)\<rparr>)"
proof -
  let ?f = "swap_remove i (ll_free l)"
  from la_pick_Some [OF i] have il: "i < length (ll_free l)" by simp
  note m = swap_remove_mset [OF il, unfolded b]
  have len: "length ?f < length (ll_free l)" using il by (auto simp: swap_remove_def)
  have cached: "la_cached l = add_mset (fst b) (image_mset (\<lambda>(_, b). fst b) (mset ?f))"
    unfolding la_cached_def m [symmetric] by simp
  have "fst b \<notin> fst ` set (ll_outstanding l)"
  proof
    assume "fst b \<in> fst ` set (ll_outstanding l)"
    then have "fst b \<in># image_mset fst (mset (ll_outstanding l))" by simp
    then have "1 \<le> count (image_mset fst (mset (ll_outstanding l))) (fst b)" by (simp only: count_greater_eq_one_iff)
    then have "2 \<le> count (la_owned l) (fst b)"
      unfolding la_owned_def cached count_union count_add_mset by (simp only: if_True refl)
    moreover have "count (la_owned l) (fst b) \<le> 1" using inv by (simp add: la_inv_def)
    ultimately show False by linarith
  qed
  then have none: "map_of (ll_outstanding l) (fst b) = None"
    and keys: "image_mset fst (mset (om_insert (fst b) (e', b) (ll_outstanding l))) = add_mset (fst b) (image_mset fst (mset (ll_outstanding l)))"
    by (simp_all add: map_of_eq_None_iff mset_keys_insert_fresh)
  have bytes: "sum_list (map (\<lambda>(_, b). length (snd b)) (ll_free l)) =
      length (snd b) + sum_list (map (\<lambda>(_, b). length (snd b)) ?f)"
    using arg_cong [OF m, of "\<lambda>M. \<Sum>x\<in>#M. (\<lambda>(_, b). length (snd b)) x"]
    by (simp flip: sum_mset_sum_list add: mset_map)
  let ?l = "l\<lparr>ll_free := ?f, ll_hits := h, ll_outstanding := om_insert (fst b) (e', b) (ll_outstanding l)\<rparr>"
  have "la_owned ?l = la_owned l" unfolding la_owned_def cached by (simp add: la_cached_def keys)
  moreover have "la_bytes ?l = la_bytes l" using none bytes by (simp add: la_bytes_def om_sum_insert_fresh)
  ultimately show ?thesis using inv len by (auto simp: la_inv_def)
qed

lemma la_allocate_inv:
  assumes inv: "la_inv l" and fresh: "ptr \<notin># la_owned l"
  shows "la_inv (snd (lookaside_allocate ptr l n))"
proof (cases "la_pick l (max n 1)")
  case (Some i)
  obtain e b where b: "ll_free l ! i = (e, b)" by (cases "ll_free l ! i")
  show ?thesis using la_hit_inv [OF inv Some b] by (simp add: lookaside_allocate_hit [OF Some b])
next
  case None
  let ?n = "max n 1"
  have k: "ptr \<notin> fst ` set (ll_outstanding l)" using fresh by (simp add: la_owned_def)
  then have none: "map_of (ll_outstanding l) ptr = None" by (simp add: map_of_eq_None_iff)
  have c: "count (la_owned l) ptr = 0" using fresh by (simp add: not_in_iff)
  have "snd (lookaside_allocate ptr l n) =
     (if ll_held_bytes l + ?n \<le> ll_budget l \<and> ll_held_bytes l + ?n \<le> u64_max
      then l\<lparr>ll_next_epoch := ll_next_epoch l + 1, ll_misses := ll_misses l + 1, ll_held_bytes := ll_held_bytes l + ?n,
        ll_outstanding := om_insert ptr (ll_next_epoch l, ptr, replicate ?n 0) (ll_outstanding l)\<rparr> else l)"
    using None by (simp add: lookaside_allocate_def la_pick_def Let_def saturating_add64_def min_def)
  then show ?thesis using inv none c
    by (auto simp: la_inv_def la_owned_def la_cached_def la_bytes_def om_sum_insert_fresh mset_keys_insert_fresh [OF k])
qed

lemma la_free_inv:
  assumes inv: "la_inv l"
  shows "la_inv (snd (lookaside_free l blk))"
proof (cases "map_of (ll_outstanding l) (lb_ptr blk)")
  case None
  with inv show ?thesis by (simp add: lookaside_free_def)
next
  case (Some eb)
  obtain e b where eb: "eb = (e, b)" by (cases eb)
  have wf: "om_wf (ll_outstanding l)" and fb: "fst b = lb_ptr blk"
    using inv Some eb unfolding la_inv_def by (simp, metis)
  note k = mset_keys_remove [OF wf Some]
  have bytes: "om_sum (\<lambda>_ (_, b). length (snd b)) (om_remove (lb_ptr blk) (ll_outstanding l)) + length (snd b) =
      om_sum (\<lambda>_ (_, b). length (snd b)) (ll_outstanding l)"
    using om_sum_remove [OF wf Some, of "\<lambda>_ (_, b). length (snd b)"] eb by simp
  have same: "om_insert (lb_ptr blk) (e, b) (om_remove (lb_ptr blk) (ll_outstanding l)) = ll_outstanding l"
    using om_remove_insert_same [OF wf Some] eb by simp
  have cnt: "count (image_mset fst (mset (om_remove (lb_ptr blk) (ll_outstanding l)))) a \<le> count (image_mset fst (mset (ll_outstanding l))) a" for a
    by (simp add: k [symmetric])
  have own: "la_owned l = la_cached l + add_mset (fst b) (image_mset fst (mset (om_remove (lb_ptr blk) (ll_outstanding l))))"
    unfolding la_owned_def k [symmetric] fb ..
  show ?thesis
  proof (cases "e \<noteq> lb_epoch blk \<or> lb_tag blk \<noteq> ll_tag l")
    case True
    then show ?thesis using inv Some eb same by (simp add: lookaside_free_def Let_def)
  next
    case False
    show ?thesis
    proof (cases "length (ll_free l) < ll_max_depth l")
      case True
      let ?l = "l\<lparr>ll_outstanding := om_remove (lb_ptr blk) (ll_outstanding l), ll_free := ll_free l @ [(e, b)],
        ll_depth_high_water := max (ll_depth_high_water l) (length (ll_free l) + 1)\<rparr>"
      have "la_owned ?l = la_owned l" unfolding own by (simp add: la_owned_def la_cached_def)
      then have "la_inv ?l" using inv bytes wf True by (auto simp: la_inv_def la_bytes_def)
      moreover have "snd (lookaside_free l blk) = ?l"
        using False True Some eb by (simp add: lookaside_free_def Let_def)
      ultimately show ?thesis by simp
    next
      case full: False
      have "count (la_cached l) a + count (image_mset fst (mset (om_remove (lb_ptr blk) (ll_outstanding l)))) a \<le> 1" for a
        using inv cnt [of a] by (auto simp: la_inv_def la_owned_def intro: order_trans [OF add_left_mono])
      with False full show ?thesis using inv Some eb bytes wf
        by (auto simp: lookaside_free_def Let_def la_inv_def la_owned_def la_cached_def la_bytes_def)
    qed
  qed
qed

inductive la_step :: "lookaside_list \<Rightarrow> lookaside_list \<Rightarrow> bool" where
  alloc: "ptr \<notin># la_owned l \<Longrightarrow> la_step l (snd (lookaside_allocate ptr l n))"
| free: "la_step l (snd (lookaside_free l b))"

interpretation lookaside: invariant_system "\<lambda>l. l = lookaside_list_new tag d budget" la_step la_inv for tag d budget
  by unfold_locales (auto simp: la_inv_new intro: la_allocate_inv la_free_inv elim!: la_step.cases)

section \<open>Order of the deferred procedure calls\<close>

lemma dpc_run_eq:
  "dpc_run q n calls =
     (n + length (List.map_filter dpc_callback (dq_pending q)), calls @ List.map_filter dpc_callback (dq_pending q),
      q\<lparr>dq_pending := [], dq_executed := dq_executed q + length (List.map_filter dpc_callback (dq_pending q))\<rparr>)"
proof (induction "dq_pending q" arbitrary: q n calls)
  case Nil
  then show ?case by (subst dpc_run.simps) (simp add: List.map_filter_simps)
next
  case (Cons d ds)
  note p = Cons.hyps(2) [symmetric]
  show ?case
    using Cons.hyps(1) [of "q\<lparr>dq_pending := ds\<rparr>" n calls]
      Cons.hyps(1) [of "q\<lparr>dq_pending := ds, dq_executed := dq_executed q + 1\<rparr>" "n + 1"]
    by (subst dpc_run.simps) (simp add: p dpc_invoke_def List.map_filter_simps split: option.splits)
qed

text \<open>
  Sequence numbers of pending calls are distinct, increasing and below the next one, as long as
  calls are queued through \<open>queue\<close>, or through \<open>queue_object\<close> with a fresh object that carries the next number. Other prepared objects may repeat a number or
  leave gaps; the code does not refuse them.
\<close>

definition dpc_inv :: "'c dpc_queue \<Rightarrow> bool" where
  "dpc_inv q \<longleftrightarrow> sorted_wrt (<) (dpc_pending_sequences q) \<and>
     (\<forall>d \<in> set (dq_pending q). dpc_sequence d < dq_next_sequence q \<and> dpc_callback d \<noteq> None) \<and>
     dq_next_sequence q = Suc (length (dq_pending q) + dq_executed q + dq_cancelled q)"

inductive dpc_step :: "'c dpc_queue \<Rightarrow> 'c dpc_queue \<Rightarrow> bool" where
  queue: "dpc_step q (snd (dpc_enqueue q c))"
| queue_object: "dpc_sequence d = dq_next_sequence q \<Longrightarrow> dpc_callback d \<noteq> None \<Longrightarrow> dpc_step q (snd (dpc_queue_object q d))"
| execute: "dpc_step q (snd (snd (dpc_execute_pending q)))"
| cancel: "dpc_step q (snd (dpc_cancel q s))"

lemma map_filter_all_length: "(\<forall>x \<in> set xs. f x \<noteq> None) \<Longrightarrow> length (List.map_filter f xs) = length xs"
  by (induction xs) (auto simp: List.map_filter_simps)

lemma dpc_cancel_inv:
  assumes "dpc_inv q"
  shows "dpc_inv (snd (dpc_cancel q s))"
proof (cases "position (\<lambda>d. dpc_sequence d = s) (dq_pending q)")
  case (Some i)
  then have i: "i < length (dq_pending q)" by (auto dest: position_Some)
  then have split: "dq_pending q = take i (dq_pending q) @ dq_pending q ! i # drop (Suc i) (dq_pending q)"
    by (rule id_take_nth_drop)
  have "sorted_wrt (<) (map dpc_sequence (take i (dq_pending q) @ dq_pending q ! i # drop (Suc i) (dq_pending q)))"
    using assms split by (simp add: dpc_inv_def dpc_pending_sequences_def)
  then have "sorted_wrt (<) (map dpc_sequence (take i (dq_pending q) @ drop (Suc i) (dq_pending q)))"
    by (auto simp: sorted_wrt_append)
  with assms Some i show ?thesis
    by (auto simp: dpc_inv_def dpc_cancel_def dpc_pending_sequences_def dest: in_set_takeD in_set_dropD)
qed (use assms in \<open>simp add: dpc_cancel_def\<close>)

interpretation dpcs: invariant_system "\<lambda>q. q = dpc_queue_new" dpc_step dpc_inv
proof unfold_locales
  fix q :: "'c dpc_queue" and q'
  assume inv: "dpc_inv q" and step: "dpc_step q q'"
  from step show "dpc_inv q'"
  proof cases
    case queue
    with inv show ?thesis
      by (auto simp: dpc_inv_def dpc_enqueue_def dpc_pending_sequences_def Let_def sorted_wrt_append)
  next
    case (queue_object d)
    with inv show ?thesis
      by (auto simp: dpc_inv_def dpc_queue_object_def dpc_pending_sequences_def sorted_wrt_append)
  next
    case execute
    with inv show ?thesis
      by (auto simp: dpc_inv_def dpc_execute_pending_def dpc_run_eq dpc_pending_sequences_def map_filter_all_length)
  next
    case cancel
    with inv show ?thesis by (simp add: dpc_cancel_inv)
  qed
qed (simp add: dpc_inv_def dpc_queue_new_def dpc_pending_sequences_def)

section \<open>Properties\<close>

definition demo_io :: pool_tag where "demo_io = PoolTag 73 111 32 32"
definition demo_ob :: pool_tag where "demo_ob = PoolTag 79 98 106 32"
definition demo_md :: pool_tag where "demo_md = PoolTag 77 100 108 32"

definition demo_pool :: tagged_pool where
  "demo_pool = snd (pool_free (snd (pool_allocate 4096 (snd (pool_allocate 8192 (tagged_pool_new 64) demo_io 24)) demo_ob 16))
     \<lparr>pb_ptr = 4096, pb_size = 16, pb_tag = demo_ob\<rparr>)"

lemmas pool_eval = pool_allocate_def pool_free_def tagged_pool_new_def pool_tag_stats_def saturating_add64_def
  u64_max_def demo_io_def demo_ob_def demo_md_def less_pool_tag_def om_remove_def Let_def

lemma demo_pool_eq:
  "demo_pool = \<lparr>tp_budget = 64, tp_used = 24, tp_peak = 40, tp_allocations = 2, tp_frees = 1,
     tp_tag_stats = [(demo_io, \<lparr>ts_bytes = 24, ts_count = 1\<rparr>), (demo_ob, \<lparr>ts_bytes = 0, ts_count = 0\<rparr>)],
     tp_live = [(8192, \<lparr>pb_ptr = 8192, pb_size = 24, pb_tag = demo_io\<rparr>, replicate 24 0)]\<rparr>"
  by (simp add: demo_pool_def pool_eval)

lemma demo_pool_reachable: "pool_step\<^sup>*\<^sup>* (tagged_pool_new 64) demo_pool"
proof -
  let ?p0 = "tagged_pool_new 64" let ?p1 = "snd (pool_allocate 8192 ?p0 demo_io 24)"
  let ?p2 = "snd (pool_allocate 4096 ?p1 demo_ob 16)"
  have "pool_step ?p0 ?p1" by (rule pool_step.alloc) (simp add: tagged_pool_new_def)
  moreover have "pool_step ?p1 ?p2" by (rule pool_step.alloc) (simp add: pool_eval)
  moreover have "pool_step ?p2 demo_pool" unfolding demo_pool_def by (rule pool_step.free)
  ultimately show ?thesis by (meson rtranclp.rtrancl_into_rtrancl rtranclp.rtrancl_refl)
qed

text \<open>
  C5. In every pool reachable from a fresh one, the bytes in use are the sum of the sizes of the live
  blocks, the peak is at least that and never above the budget, allocations and frees differ by the
  number of live blocks, and the per-tag statistics are exactly the bytes and the number of the live
  blocks of that tag.
\<close>
theorem pool_accounting_exact:
  assumes "pool_step\<^sup>*\<^sup>* (tagged_pool_new budget) p"
  shows "tp_used p = om_sum (\<lambda>_ b. pb_size (fst b)) (tp_live p) \<and>
     tp_used p \<le> tp_peak p \<and> tp_peak p \<le> tp_budget p \<and>
     tp_allocations p = tp_frees p + length (tp_live p) \<and>
     ts_bytes (pool_tag_stats p tag) = tag_bytes tag (tp_live p) \<and>
     ts_count (pool_tag_stats p tag) = tag_blocks tag (tp_live p)"
  using pool.reachable_inv [OF refl assms] by (simp add: pool_inv_def)

theorem pool_accounting_exact_witness:
  "tp_used demo_pool = 24 \<and> tp_peak demo_pool = 40 \<and> ts_bytes (pool_tag_stats demo_pool demo_io) = 24 \<and>
   tag_bytes demo_io (tp_live demo_pool) = 24"
  using pool_accounting_exact [OF demo_pool_reachable, of demo_io]
  by (simp add: demo_pool_eq tag_bytes_def)

text \<open>
  A block that a reachable pool hands out can be freed exactly once: the free restores the live
  blocks, the bytes in use and every per-tag statistic to what they were before the allocation, a second
  free of the same block is rejected with an invalid address and changes nothing, and so is a free of a
  descriptor that has the block's address but another size or tag.
\<close>
theorem pool_free_exactly_once:
  assumes r: "pool_step\<^sup>*\<^sup>* (tagged_pool_new budget) p"
    and fresh: "map_of (tp_live p) ptr = None"
    and al: "pool_allocate ptr p tag n = (Ok b, p1)"
  shows "fst (pool_free p1 b) = Ok () \<and>
     tp_live (snd (pool_free p1 b)) = tp_live p \<and> tp_used (snd (pool_free p1 b)) = tp_used p \<and>
     (\<forall>t. pool_tag_stats (snd (pool_free p1 b)) t = pool_tag_stats p t) \<and>
     pool_free (snd (pool_free p1 b)) b = (Err STATUS_INVALID_ADDRESS, snd (pool_free p1 b)) \<and>
     (\<forall>b'. pb_ptr b' = ptr \<and> b' \<noteq> b \<longrightarrow> pool_free p1 b' = (Err STATUS_INVALID_ADDRESS, p1))"
proof -
  have inv: "pool_inv p" by (rule pool.reachable_inv [OF refl r])
  have inv1: "pool_inv p1" using pool_allocate_inv [OF inv fresh, of tag n] al by simp
  have b: "b = \<lparr>pb_ptr = ptr, pb_size = max n 1, pb_tag = tag\<rparr>" and
    live: "tp_live p1 = om_insert ptr (b, replicate (max n 1) 0) (tp_live p)" and
    used: "tp_used p1 = tp_used p + max n 1"
    using al by (auto simp: pool_allocate_def Let_def split: if_splits)
  have f: "pool_free p1 b = (Ok (), pool_freed p1 b)"
    unfolding pool_free_eq [OF inv1] by (simp add: b live)
  have inv2: "pool_inv (pool_freed p1 b)" using pool_free_inv [OF inv1, of b] f by simp
  have wf: "om_wf (tp_live p)" using inv by (simp add: pool_inv_def)
  have live2: "tp_live (pool_freed p1 b) = tp_live p"
    using wf fresh by (auto simp: pool_freed_def b live om_remove_absent intro!: om_eqI)
  have used2: "tp_used (pool_freed p1 b) = tp_used p"
    using inv inv2 live2 by (simp add: pool_inv_def)
  have st: "pool_tag_stats (pool_freed p1 b) t = pool_tag_stats p t" for t
    using inv inv2 live2 by (simp add: pool_inv_def)
  have again: "pool_free (pool_freed p1 b) b = (Err STATUS_INVALID_ADDRESS, pool_freed p1 b)"
    unfolding pool_free_eq [OF inv2] live2 using fresh by (simp add: b)
  have other: "pool_free p1 b' = (Err STATUS_INVALID_ADDRESS, p1)" if "pb_ptr b' = ptr" "b' \<noteq> b" for b'
    unfolding pool_free_eq [OF inv1] using that by (simp add: live)
  show ?thesis unfolding f snd_conv using live2 used2 st again other by simp
qed

theorem pool_free_exactly_once_witness:
  "fst (pool_allocate 4096 demo_pool demo_md 8) = Ok \<lparr>pb_ptr = 4096, pb_size = 8, pb_tag = demo_md\<rparr> \<and>
   fst (pool_free (snd (pool_allocate 4096 demo_pool demo_md 8)) \<lparr>pb_ptr = 4096, pb_size = 8, pb_tag = demo_md\<rparr>) = Ok ()"
proof -
  have a: "map_of (tp_live demo_pool) 4096 = None"
    and f: "fst (pool_allocate 4096 demo_pool demo_md 8) = Ok \<lparr>pb_ptr = 4096, pb_size = 8, pb_tag = demo_md\<rparr>"
    by (simp_all add: demo_pool_eq pool_eval)
  from f have "pool_allocate 4096 demo_pool demo_md 8 =
    (Ok \<lparr>pb_ptr = 4096, pb_size = 8, pb_tag = demo_md\<rparr>, snd (pool_allocate 4096 demo_pool demo_md 8))"
    by (metis prod.collapse)
  from pool_free_exactly_once [OF demo_pool_reachable a this] f show ?thesis by simp
qed

text \<open>
  In every lookaside list reachable from a fresh one, where each fresh buffer has an address the
  list does not own, the bytes held are exactly those of the buffers cached and handed out, they never
  exceed the budget, the cache is never deeper than the maximum, and no address is owned twice: no
  buffer is both cached and handed out.
\<close>
theorem lookaside_accounting:
  assumes "la_step\<^sup>*\<^sup>* (lookaside_list_new tag max_depth budget) l"
  shows "ll_held_bytes l = la_bytes l \<and> ll_held_bytes l \<le> ll_budget l \<and>
     length (ll_free l) \<le> ll_depth_high_water l \<and> ll_depth_high_water l \<le> ll_max_depth l \<and>
     count (la_owned l) a \<le> 1"
  using lookaside.reachable_inv [OF refl assms] by (simp add: la_inv_def)

definition demo_la :: lookaside_list where
  "demo_la = snd (lookaside_allocate 512 (snd (lookaside_allocate 256 (lookaside_list_new demo_io 1 64) 16)) 16)"

lemmas la_eval = lookaside_allocate_def lookaside_free_def lookaside_list_new_def saturating_add64_def
  u64_max_def om_remove_def swap_remove_def Let_def

lemma demo_la_eq:
  "demo_la = \<lparr>ll_tag = demo_io, ll_max_depth = 1, ll_budget = 64, ll_held_bytes = 32, ll_hits = 0, ll_misses = 2,
     ll_depth_high_water = 0, ll_next_epoch = 3, ll_free = [],
     ll_outstanding = [(256, 1, 256, replicate 16 0), (512, 2, 512, replicate 16 0)]\<rparr>"
  by (simp add: demo_la_def la_eval)

lemma demo_la_reachable: "la_step\<^sup>*\<^sup>* (lookaside_list_new demo_io 1 64) demo_la"
proof -
  let ?l0 = "lookaside_list_new demo_io 1 64" let ?l1 = "snd (lookaside_allocate 256 ?l0 16)"
  have "la_step ?l0 ?l1" by (rule la_step.alloc) (simp add: lookaside_list_new_def la_owned_def la_cached_def)
  moreover have "la_step ?l1 demo_la" unfolding demo_la_def
    by (rule la_step.alloc) (simp add: la_eval la_owned_def la_cached_def)
  ultimately show ?thesis by (meson rtranclp.rtrancl_into_rtrancl rtranclp.rtrancl_refl)
qed

theorem lookaside_accounting_witness:
  "ll_held_bytes demo_la = 32 \<and> la_bytes demo_la = 32 \<and> count (la_owned demo_la) 256 \<le> 1"
  using lookaside_accounting [OF demo_la_reachable, of 256] by (simp add: demo_la_eq)

text \<open>
  Returning a handed-out block to a list whose cache has room and holds nothing as large succeeds
  once: the same block cannot be freed again, an allocation of at most the buffer's length gets the very
  same buffer back (same address, no new bytes, one more hit) under the next epoch, and freeing the
  earlier descriptor is then rejected while the new one is accepted.
\<close>
theorem lookaside_reuse:
  assumes r: "la_step\<^sup>*\<^sup>* (lookaside_list_new tag max_depth budget) l"
    and out: "map_of (ll_outstanding l) a = Some (e, a, buf)"
    and room: "length (ll_free l) < ll_max_depth l"
    and none: "\<forall>(e', b') \<in> set (ll_free l). length (snd b') < max n 1" and n: "max n 1 \<le> length buf"
    and blk: "blk = \<lparr>lb_ptr = a, lb_size = k, lb_epoch = e, lb_tag = ll_tag l\<rparr>"
    and l1: "l1 = snd (lookaside_free l blk)" and l2: "l2 = snd (lookaside_allocate p l1 n)"
  shows "fst (lookaside_free l blk) = Ok () \<and>
     lookaside_free l1 blk = (Err STATUS_INVALID_ADDRESS, l1) \<and>
     fst (lookaside_allocate p l1 n) = Ok \<lparr>lb_ptr = a, lb_size = max n 1, lb_epoch = e + 1, lb_tag = ll_tag l\<rparr> \<and>
     ll_held_bytes l2 = ll_held_bytes l \<and> ll_hits l2 = ll_hits l + 1 \<and> ll_free l2 = ll_free l \<and>
     lookaside_free l2 blk = (Err STATUS_INVALID_ADDRESS, l2) \<and>
     fst (lookaside_free l2 \<lparr>lb_ptr = a, lb_size = max n 1, lb_epoch = e + 1, lb_tag = ll_tag l\<rparr>) = Ok ()"
proof -
  let ?f = "ll_free l @ [(e, a, buf)]"
  have L1: "lookaside_free l blk = (Ok (), l1)"
    and l1_eq: "l1 = l\<lparr>ll_outstanding := om_remove a (ll_outstanding l), ll_free := ?f,
      ll_depth_high_water := max (ll_depth_high_water l) (length (ll_free l) + 1)\<rparr>"
    using out room by (simp_all add: l1 blk lookaside_free_def Let_def)
  have "position (\<lambda>(_, b). length (snd b) = max n 1) ?f = (if length buf = max n 1 then Some (length (ll_free l)) else None)"
    "position (\<lambda>(_, b). length (snd b) \<ge> max n 1) ?f = Some (length (ll_free l))"
    using none n by (subst position_append_last; auto)+
  then have pick: "la_pick l1 (max n 1) = Some (length (ll_free l))"
    by (simp add: la_pick_def l1_eq split: if_splits)
  have wf: "om_wf (ll_outstanding l)" using lookaside.reachable_inv [OF refl r] by (simp add: la_inv_def)
  have nth: "ll_free l1 ! length (ll_free l) = (e, a, buf)" by (simp add: l1_eq)
  have L2: "lookaside_allocate p l1 n = (Ok \<lparr>lb_ptr = a, lb_size = max n 1, lb_epoch = e + 1, lb_tag = ll_tag l\<rparr>, l2)"
    and l2_eq: "l2 = l\<lparr>ll_outstanding := om_insert a (e + 1, a, buf) (om_remove a (ll_outstanding l)), ll_hits := ll_hits l + 1,
      ll_depth_high_water := max (ll_depth_high_water l) (length (ll_free l) + 1)\<rparr>"
    using lookaside_allocate_hit [OF pick nth, of p]
    by (simp_all add: l2 l1_eq swap_remove_append_last)
  have F1: "lookaside_free l1 blk = (Err STATUS_INVALID_ADDRESS, l1)"
    using wf by (simp add: lookaside_free_def l1_eq blk)
  have same: "om_insert a v (om_remove a (om_insert a v m)) = om_insert a v m" if "om_wf m" for v and m :: "(nat, nat \<times> buffer) omap"
    using that by (intro om_remove_insert_same) auto
  have F2: "lookaside_free l2 blk = (Err STATUS_INVALID_ADDRESS, l2)"
    using wf by (simp add: lookaside_free_def l2_eq blk Let_def same)
  have F3: "fst (lookaside_free l2 \<lparr>lb_ptr = a, lb_size = max n 1, lb_epoch = e + 1, lb_tag = ll_tag l\<rparr>) = Ok ()"
    using wf by (simp add: lookaside_free_def l2_eq Let_def)
  show ?thesis using L1 L2 F1 F2 F3 by (simp add: l2_eq)
qed

theorem lookaside_reuse_witness:
  "fst (lookaside_free demo_la \<lparr>lb_ptr = 256, lb_size = 16, lb_epoch = 1, lb_tag = demo_io\<rparr>) = Ok () \<and>
   fst (lookaside_allocate 1024 (snd (lookaside_free demo_la \<lparr>lb_ptr = 256, lb_size = 16, lb_epoch = 1, lb_tag = demo_io\<rparr>)) 10)
     = Ok \<lparr>lb_ptr = 256, lb_size = 10, lb_epoch = 2, lb_tag = demo_io\<rparr>"
proof -
  have t: "ll_tag demo_la = demo_io" by (simp add: demo_la_eq)
  show ?thesis
    using lookaside_reuse [OF demo_la_reachable, of 256 1 "replicate 16 0" 10
        "\<lparr>lb_ptr = 256, lb_size = 16, lb_epoch = 1, lb_tag = demo_io\<rparr>" 16 _ _ 1024, OF _ _ _ _ _ refl refl]
    unfolding t by (simp add: demo_la_eq)
qed

definition demo_blk :: "nat \<Rightarrow> nat \<Rightarrow> lookaside_block" where
  "demo_blk a e = \<lparr>lb_ptr = a, lb_size = 16, lb_epoch = e, lb_tag = demo_io\<rparr>"

definition demo_recycled :: lookaside_list where
  "demo_recycled = snd (lookaside_free (snd (lookaside_allocate 0
     (snd (lookaside_free (snd (lookaside_allocate 256 (lookaside_list_new demo_io 1 64) 16)) (demo_blk 256 1))) 16)) (demo_blk 256 2))"

definition demo_released :: lookaside_list where
  "demo_released = snd (lookaside_free (snd (lookaside_free (snd (lookaside_allocate 512
     (snd (lookaside_allocate 0 demo_recycled 16)) 16)) (demo_blk 512 2))) (demo_blk 256 3))"

definition demo_stale :: lookaside_list where
  "demo_stale = snd (lookaside_allocate 256 demo_released 32)"

lemma demo_recycled_eq:
  "demo_recycled = \<lparr>ll_tag = demo_io, ll_max_depth = 1, ll_budget = 64, ll_held_bytes = 16, ll_hits = 1, ll_misses = 1,
     ll_depth_high_water = 1, ll_next_epoch = 2, ll_free = [(2, 256, replicate 16 0)], ll_outstanding = []\<rparr>"
  by (simp add: demo_recycled_def demo_blk_def la_eval)

lemma demo_released_eq:
  "demo_released = \<lparr>ll_tag = demo_io, ll_max_depth = 1, ll_budget = 64, ll_held_bytes = 16, ll_hits = 2, ll_misses = 2,
     ll_depth_high_water = 1, ll_next_epoch = 3, ll_free = [(2, 512, replicate 16 0)], ll_outstanding = []\<rparr>"
  by (simp add: demo_released_def demo_recycled_eq demo_blk_def la_eval)

lemma demo_recycled_reachable: "la_step\<^sup>*\<^sup>* (lookaside_list_new demo_io 1 64) demo_recycled"
proof -
  let ?l0 = "lookaside_list_new demo_io 1 64" let ?l1 = "snd (lookaside_allocate 256 ?l0 16)"
  let ?l2 = "snd (lookaside_free ?l1 (demo_blk 256 1))" let ?l3 = "snd (lookaside_allocate 0 ?l2 16)"
  have "la_step ?l0 ?l1" by (rule la_step.alloc) (simp add: lookaside_list_new_def la_owned_def la_cached_def)
  moreover have "la_step ?l1 ?l2" by (rule la_step.free)
  moreover have "la_step ?l2 ?l3" by (rule la_step.alloc) (simp add: la_eval demo_blk_def la_owned_def la_cached_def)
  moreover have "la_step ?l3 demo_recycled" unfolding demo_recycled_def by (rule la_step.free)
  ultimately show ?thesis by (meson rtranclp.rtrancl_into_rtrancl rtranclp.rtrancl_refl)
qed

lemma demo_released_reachable: "la_step\<^sup>*\<^sup>* demo_recycled demo_released"
proof -
  let ?l1 = "snd (lookaside_allocate 0 demo_recycled 16)" let ?l2 = "snd (lookaside_allocate 512 ?l1 16)"
  let ?l3 = "snd (lookaside_free ?l2 (demo_blk 512 2))"
  have "la_step demo_recycled ?l1" by (rule la_step.alloc) (simp add: demo_recycled_eq la_owned_def la_cached_def)
  moreover have "la_step ?l1 ?l2"
    by (rule la_step.alloc) (simp add: demo_recycled_eq la_eval la_owned_def la_cached_def)
  moreover have "la_step ?l2 ?l3" by (rule la_step.free)
  moreover have "la_step ?l3 demo_released" unfolding demo_released_def by (rule la_step.free)
  ultimately show ?thesis by (meson rtranclp.rtrancl_into_rtrancl rtranclp.rtrancl_refl)
qed

text \<open>
  C6. The epochs of reused buffers are not drawn from \<open>next_epoch\<close>, so two allocations at one address
  can carry the same epoch. On a reachable list the block at address 256 with epoch 3 is handed out and
  freed, which releases its buffer to the allocator; the next allocation is placed at the same address,
  which the list does not own, and gets epoch 3 again; freeing the first, stale descriptor is then accepted
  and takes the second buffer away from its owner, although the comment of \<open>free\<close> promises that stale frees
  are rejected.
\<close>
theorem lookaside_stale_free_accepted:
  "la_step\<^sup>*\<^sup>* (lookaside_list_new demo_io 1 64) demo_released \<and>
   fst (lookaside_allocate 0 demo_recycled 16) = Ok (demo_blk 256 3) \<and>
   256 \<notin># la_owned demo_released \<and>
   fst (lookaside_allocate 256 demo_released 32) = Ok \<lparr>lb_ptr = 256, lb_size = 32, lb_epoch = 3, lb_tag = demo_io\<rparr> \<and>
   fst (lookaside_free demo_stale (demo_blk 256 3)) = Ok () \<and>
   map_of (ll_outstanding (snd (lookaside_free demo_stale (demo_blk 256 3)))) 256 = None"
proof -
  have "la_step\<^sup>*\<^sup>* (lookaside_list_new demo_io 1 64) demo_released"
    by (rule rtranclp_trans [OF demo_recycled_reachable demo_released_reachable])
  then show ?thesis
    by (simp add: demo_stale_def demo_released_eq demo_recycled_eq demo_blk_def la_eval la_owned_def la_cached_def)
qed

lemma map_filter_all_Some: "(\<forall>x \<in> set xs. f x \<noteq> None) \<Longrightarrow> map Some (List.map_filter f xs) = map f xs"
  by (induction xs) (auto simp: List.map_filter_simps)

text \<open>
  C7. Deferred calls run in the order they were queued, each exactly once: in every queue reachable from
  the empty one by queueing, cancelling and running (a prepared object is queued only with the next sequence number), the pending sequence numbers increase strictly,
  running returns the callbacks of all pending calls in that order with their number and leaves nothing
  pending, and every sequence number handed out is accounted for as pending, executed or cancelled.
\<close>
theorem dpc_fifo_exactly_once:
  assumes "dpc_step\<^sup>*\<^sup>* (dpc_queue_new :: 'c dpc_queue) q" and "dpc_execute_pending q = (n, calls, q')"
  shows "sorted_wrt (<) (dpc_pending_sequences q) \<and>
     map Some calls = map dpc_callback (dq_pending q) \<and> n = length (dq_pending q) \<and>
     dq_pending q' = [] \<and> dq_executed q' = dq_executed q + n \<and>
     dq_next_sequence q = Suc (length (dq_pending q) + dq_executed q + dq_cancelled q)"
proof -
  have inv: "dpc_inv q" by (rule dpcs.reachable_inv [OF refl assms(1)])
  then have c: "\<forall>d \<in> set (dq_pending q). dpc_callback d \<noteq> None" by (simp add: dpc_inv_def)
  note map_filter_all_Some [OF c] map_filter_all_length [OF c]
  with inv c assms(2) show ?thesis
    by (simp add: dpc_execute_pending_def dpc_run_eq dpc_inv_def) auto
qed

definition demo_dpc :: "nat dpc_queue" where
  "demo_dpc = snd (dpc_cancel (snd (dpc_enqueue (snd (dpc_enqueue (snd (dpc_enqueue dpc_queue_new 7)) 8)) 9)) 2)"

lemma demo_dpc_reachable: "dpc_step\<^sup>*\<^sup>* dpc_queue_new demo_dpc"
  unfolding demo_dpc_def
  by (meson dpc_step.queue dpc_step.cancel rtranclp.rtrancl_into_rtrancl rtranclp.rtrancl_refl)

lemma demo_dpc_eq:
  "demo_dpc = \<lparr>dq_next_sequence = 4, dq_pending = [\<lparr>dpc_sequence = 1, dpc_callback = Some 7\<rparr>, \<lparr>dpc_sequence = 3, dpc_callback = Some 9\<rparr>],
     dq_executed = 0, dq_cancelled = 1\<rparr>"
  by (simp add: demo_dpc_def dpc_cancel_def dpc_enqueue_def dpc_queue_new_def Let_def)

theorem dpc_fifo_exactly_once_witness:
  "fst (snd (dpc_execute_pending demo_dpc)) = [7, 9] \<and> dq_pending (snd (snd (dpc_execute_pending demo_dpc))) = []"
proof -
  obtain n calls q' where e: "dpc_execute_pending demo_dpc = (n, calls, q')" by (cases "dpc_execute_pending demo_dpc")
  have "map Some calls = map Some [7, 9]"
    using dpc_fifo_exactly_once [OF demo_dpc_reachable e] by (simp add: demo_dpc_eq)
  then have "calls = [7, 9]" by (simp only: inj_map_eq_map [OF inj_Some])
  with dpc_fifo_exactly_once [OF demo_dpc_reachable e] e show ?thesis by simp
qed

end
