(* ===== verification/Memory.thy ===== *)
theory Memory
  imports Status
begin

text \<open>
  The virtual memory manager and the table of memory descriptor lists of
  \<open>src/src/casak/memory.rs\<close>. Addresses and sizes are \<open>u64\<close> kept as \<open>nat\<close>, with the checked and
  saturating additions of the code written out. The field \<open>page_size\<close> is set to \<open>PAGE_SIZE\<close> by the only
  constructor and never assigned, so the model uses the constant. The resident set is a set
  of pages, the order in which the pages became resident a list.
\<close>

section \<open>Constants and protections\<close>

definition PAGE_SIZE :: nat where "PAGE_SIZE = 4096"
definition MAX_SECTION_SIZE :: nat where "MAX_SECTION_SIZE = 256 * 1024 * 1024"
definition MAX_REGION_SIZE :: nat where "MAX_REGION_SIZE = 2 ^ 32"
definition DEFAULT_BASE :: nat where "DEFAULT_BASE = 0x10000"
definition USER_LIMIT :: nat where "USER_LIMIT = 0x7FFFFFFF0000"

datatype protection = Protection u32

definition NOACCESS :: protection where "NOACCESS = Protection 0x01"
definition READONLY :: protection where "READONLY = Protection 0x02"
definition READWRITE :: protection where "READWRITE = Protection 0x04"
definition EXECUTE :: protection where "EXECUTE = Protection 0x10"
definition EXECUTE_READ :: protection where "EXECUTE_READ = Protection 0x20"
definition EXECUTE_READWRITE :: protection where "EXECUTE_READWRITE = Protection 0x40"

lemmas prot_defs = NOACCESS_def READONLY_def READWRITE_def EXECUTE_def EXECUTE_READ_def EXECUTE_READWRITE_def

definition prot_valid :: "protection \<Rightarrow> bool" where
  "prot_valid p \<longleftrightarrow> p = NOACCESS \<or> p = READONLY \<or> p = READWRITE \<or> p = EXECUTE \<or> p = EXECUTE_READ \<or> p = EXECUTE_READWRITE"

definition readable :: "protection \<Rightarrow> bool" where
  "readable p \<longleftrightarrow> p = READONLY \<or> p = READWRITE \<or> p = EXECUTE_READ \<or> p = EXECUTE_READWRITE"

definition writable :: "protection \<Rightarrow> bool" where
  "writable p \<longleftrightarrow> p = READWRITE \<or> p = EXECUTE_READWRITE"

section \<open>State\<close>

datatype view_kind = Image | Data | Pagefile

record mem_section =
  sec_id :: nat
  sec_kind :: view_kind
  sec_size :: nat
  sec_backing :: "u8 list"

record mapping_info =
  mp_section :: nat
  mp_offset :: nat
  mp_cow :: bool

record vad =
  vad_base :: nat
  vad_size :: nat
  vad_protection :: protection
  vad_pages :: "(nat, protection) omap"
  vad_private :: "(nat, u8 list) omap"
  vad_mapping :: "mapping_info option"

text \<open>
  \<open>Vad::end\<close> is a plain addition. Its value is \<open>vad_end\<close>; \<open>end_traps\<close> says when the addition overflows, and
  every function that evaluates the end of a region it has just found panics in that case.
\<close>

definition vad_end :: "vad \<Rightarrow> nat" where
  "vad_end v = vad_base v + vad_size v"

definition end_traps :: "vad \<Rightarrow> bool" where
  "end_traps v = (vad_base v + vad_size v > u64_max)"

datatype memory_state = Reserved | Committed

record memory_info =
  mi_base :: nat
  mi_size :: nat
  mi_protection :: protection
  mi_state :: memory_state
  mi_mapped :: "nat option"

record memory_manager =
  vads :: "(nat, vad) omap"
  sections :: "(nat, mem_section) omap"
  next_section :: nat
  next_base :: nat
  committed_bytes :: nat
  mapped_bytes :: nat
  max_commit :: nat
  max_sections :: nat
  resident :: "nat set"
  resident_order :: "nat list"
  max_working_set :: nat

definition memory_manager_new :: "nat \<Rightarrow> nat \<Rightarrow> nat \<Rightarrow> memory_manager" where
  "memory_manager_new mc ms mw = \<lparr>vads = [], sections = [], next_section = 1, next_base = DEFAULT_BASE,
     committed_bytes = 0, mapped_bytes = 0, max_commit = mc, max_sections = ms,
     resident = {}, resident_order = [], max_working_set = mw\<rparr>"

section \<open>Addresses\<close>

definition align_up :: "nat \<Rightarrow> nat \<Rightarrow> nat option" where
  "align_up v alignment =
     (let m = alignment - 1
      in map_option (\<lambda>v. unat ((of_nat v :: 64 word) AND NOT (of_nat m))) (checked_add64 v m))"

text \<open>
  The pages of a range. The code computes \<open>range.1 + PAGE_SIZE - 1\<close> by plain operations when the pages are first asked for;
  \<open>page_range\<close> adds the overflow of the sum, and the operations call it at that point.
\<close>

definition range_pages :: "nat \<times> nat \<Rightarrow> nat list" where
  "range_pages r = map (\<lambda>i. i * PAGE_SIZE) [fst r div PAGE_SIZE ..< (snd r + PAGE_SIZE - 1) div PAGE_SIZE]"

definition page_range :: "nat \<times> nat \<Rightarrow> nat list res" where
  "page_range r = (if snd r + PAGE_SIZE > u64_max then Panic else Ok (range_pages r))"

definition find_vad :: "memory_manager \<Rightarrow> nat \<Rightarrow> vad res" where
  "find_vad m address =
     (case om_last_le address (vads m) of
        None \<Rightarrow> Err STATUS_INVALID_ADDRESS
      | Some (_, v) \<Rightarrow> if end_traps v then Panic else if address \<ge> vad_end v then Err STATUS_INVALID_ADDRESS else Ok v)"

fun overlaps_any :: "nat \<Rightarrow> nat \<Rightarrow> (nat, vad) omap \<Rightarrow> bool res" where
  "overlaps_any base e [] = Ok False"
| "overlaps_any base e ((_, v) # vs) =
     (if end_traps v then Panic
      else if base < vad_end v \<and> vad_base v < e then Ok True
      else overlaps_any base e vs)"

definition overlaps :: "memory_manager \<Rightarrow> nat \<Rightarrow> nat \<Rightarrow> bool res" where
  "overlaps m base sz = overlaps_any base (saturating_add64 base sz) (vads m)"

text \<open>The loop of \<open>find_free_base\<close>: the candidate base and the end of the region at it.\<close>

function find_free_loop :: "(nat, vad) omap \<Rightarrow> nat \<Rightarrow> nat \<Rightarrow> (nat \<times> nat) res" where
  "find_free_loop vs candidate sz =
     (case checked_add64 candidate sz of
        None \<Rightarrow> Err STATUS_INVALID_PARAMETER
      | Some e \<Rightarrow>
          if e > USER_LIMIT then Err STATUS_NO_MEMORY
          else (case om_last_less e vs of
                  Some (_, v) \<Rightarrow>
                    if end_traps v then Panic
                    else if vad_end v > candidate then find_free_loop vs (vad_end v) sz else Ok (candidate, e)
                | None \<Rightarrow> Ok (candidate, e)))"
  by pat_completeness auto
termination
  by (relation "measure (\<lambda>(vs, candidate, sz). USER_LIMIT + 1 - candidate)") auto

declare find_free_loop.simps [simp del]

definition find_free_base :: "memory_manager \<Rightarrow> nat \<Rightarrow> nat res \<times> memory_manager" where
  "find_free_base m sz =
     attempt (find_free_loop (vads m) (next_base m) sz) m
       (\<lambda>(candidate, e). (Ok candidate, m\<lparr>next_base := e\<rparr>))"

definition validate_range :: "memory_manager \<Rightarrow> nat \<Rightarrow> nat \<Rightarrow> (nat \<times> nat) res" where
  "validate_range m base sz =
     (if base = 0 \<or> sz = 0 \<or> base mod PAGE_SIZE \<noteq> 0 then Err STATUS_INVALID_PARAMETER
      else rbind (ok_or (align_up sz PAGE_SIZE) STATUS_INVALID_PARAMETER) (\<lambda>aligned.
           rbind (ok_or (checked_add64 base aligned) STATUS_INVALID_PARAMETER) (\<lambda>e.
           rbind (find_vad m base) (\<lambda>v.
           if e > vad_end v then Err STATUS_INVALID_ADDRESS else Ok (base, e)))))"

section \<open>Reservation, commitment and protection\<close>

definition reserve_at :: "memory_manager \<Rightarrow> nat \<Rightarrow> nat \<Rightarrow> nat res \<times> memory_manager" where
  "reserve_at m base sz =
     attempt (ok_or (checked_add64 base sz) STATUS_INVALID_PARAMETER) m (\<lambda>e.
       if e > USER_LIMIT then (Err STATUS_NO_MEMORY, m)
       else (Ok base, m\<lparr>vads := om_insert base \<lparr>vad_base = base, vad_size = sz, vad_protection = READWRITE,
                            vad_pages = [], vad_private = [], vad_mapping = None\<rparr> (vads m),
                        next_base := max (next_base m) e\<rparr>))"

definition reserve :: "memory_manager \<Rightarrow> nat option \<Rightarrow> nat \<Rightarrow> nat res \<times> memory_manager" where
  "reserve m base sz =
     (if sz = 0 \<or> sz > MAX_REGION_SIZE then (Err STATUS_INVALID_PARAMETER, m)
      else attempt (ok_or (align_up sz PAGE_SIZE) STATUS_INVALID_PARAMETER) m (\<lambda>sz.
        case base of
          Some b \<Rightarrow>
            if b = 0 \<or> b mod PAGE_SIZE \<noteq> 0 then (Err STATUS_INVALID_PARAMETER, m)
            else attempt (overlaps m b sz) m (\<lambda>hit.
              if hit then (Err STATUS_CONFLICTING_ADDRESSES, m) else reserve_at m b sz)
        | None \<Rightarrow> (case find_free_base m sz of (r, m1) \<Rightarrow> attempt r m1 (\<lambda>b. reserve_at m1 b sz))))"

text \<open>The loops of \<open>commit\<close>, \<open>decommit\<close>, \<open>release\<close> and \<open>protect\<close> over the pages of a range.\<close>

definition commit_pages :: "protection \<Rightarrow> nat list \<Rightarrow> vad \<Rightarrow> vad" where
  "commit_pages prot = fold (\<lambda>page v. v\<lparr>vad_pages := om_insert page prot (vad_pages v),
     vad_private := om_insert page (replicate PAGE_SIZE 0) (vad_private v)\<rparr>)"

definition protect_pages :: "protection \<Rightarrow> nat list \<Rightarrow> vad \<Rightarrow> vad" where
  "protect_pages prot = fold (\<lambda>page v. v\<lparr>vad_pages := om_insert page prot (vad_pages v)\<rparr>)"

definition decommit_pages :: "nat list \<Rightarrow> vad \<Rightarrow> vad" where
  "decommit_pages = fold (\<lambda>page v. v\<lparr>vad_pages := om_remove page (vad_pages v),
     vad_private := om_remove page (vad_private v)\<rparr>)"

definition evict_pages :: "nat list \<Rightarrow> memory_manager \<Rightarrow> memory_manager" where
  "evict_pages = fold (\<lambda>page m. m\<lparr>resident := resident m - {page},
     resident_order := filter (\<lambda>candidate. candidate \<noteq> page) (resident_order m)\<rparr>)"

definition committed_count :: "vad \<Rightarrow> nat \<times> nat \<Rightarrow> nat" where
  "committed_count v r = length (filter (\<lambda>page. map_of (vad_pages v) page \<noteq> None) (range_pages r))"

definition commit :: "memory_manager \<Rightarrow> nat \<Rightarrow> nat \<Rightarrow> protection \<Rightarrow> unit res \<times> memory_manager" where
  "commit m base sz prot =
     (if \<not> prot_valid prot then (Err STATUS_INVALID_PAGE_PROTECTION, m)
      else attempt (validate_range m base sz) m (\<lambda>range.
           attempt (find_vad m (fst range)) m (\<lambda>v.
           if vad_mapping v \<noteq> None then (Err STATUS_ALREADY_COMMITTED, m)
           else attempt (page_range range) m (\<lambda>pages.
           if committed_count v range \<noteq> 0 then (Err STATUS_ALREADY_COMMITTED, m)
           else attempt (ok_or (checked_mul64 (length pages) PAGE_SIZE) STATUS_INVALID_PARAMETER) m (\<lambda>charge.
             if saturating_add64 (committed_bytes m) charge > max_commit m then (Err STATUS_COMMITMENT_LIMIT, m)
             else (case map_of (vads m) (vad_base v) of
                     None \<Rightarrow> (Panic, m)
                   | Some w \<Rightarrow>
                       if committed_bytes m + charge > u64_max then (Panic, m)
                       else (Ok (), m\<lparr>vads := om_insert (vad_base v)
                               ((commit_pages prot pages w)\<lparr>vad_protection := prot\<rparr>) (vads m),
                               committed_bytes := committed_bytes m + charge\<rparr>)))))))"

definition decommit :: "memory_manager \<Rightarrow> nat \<Rightarrow> nat \<Rightarrow> unit res \<times> memory_manager" where
  "decommit m base sz =
     attempt (validate_range m base sz) m (\<lambda>range.
     attempt (find_vad m (fst range)) m (\<lambda>v.
       if vad_mapping v \<noteq> None then (Err STATUS_INVALID_PARAMETER, m)
       else attempt (page_range range) m (\<lambda>pages.
       if committed_count v range = 0 then (Err STATUS_NOT_COMMITTED, m)
       else (case map_of (vads m) (vad_base v) of
               None \<Rightarrow> (Panic, m)
             | Some w \<Rightarrow>
                 if committed_count v range * PAGE_SIZE > u64_max then (Panic, m)
                 else (Ok (), (evict_pages pages
                    (m\<lparr>vads := om_insert (vad_base v) (decommit_pages pages w) (vads m)\<rparr>))
                    \<lparr>committed_bytes := committed_bytes m - committed_count v range * PAGE_SIZE\<rparr>)))))"

definition protect :: "memory_manager \<Rightarrow> nat \<Rightarrow> nat \<Rightarrow> protection \<Rightarrow> nat res \<times> memory_manager" where
  "protect m base sz prot =
     (if \<not> prot_valid prot then (Err STATUS_INVALID_PAGE_PROTECTION, m)
      else attempt (validate_range m base sz) m (\<lambda>range.
           attempt (find_vad m (fst range)) m (\<lambda>v.
           case map_of (vads m) (vad_base v) of
             None \<Rightarrow> (Panic, m)
           | Some w \<Rightarrow> attempt (page_range range) m (\<lambda>pages.
               if list_ex (\<lambda>page. map_of (vad_pages w) page = None) pages then (Err STATUS_NOT_COMMITTED, m)
               else (Ok (length pages),
                     m\<lparr>vads := om_insert (vad_base v)
                         (protect_pages prot pages (w\<lparr>vad_protection := prot\<rparr>)) (vads m)\<rparr>)))))"

definition release :: "memory_manager \<Rightarrow> nat \<Rightarrow> nat \<Rightarrow> nat res \<times> memory_manager" where
  "release m base sz =
     (case map_of (vads m) base of
        None \<Rightarrow> (Err STATUS_INVALID_ADDRESS, m)
      | Some v \<Rightarrow>
          if sz \<noteq> 0 \<and> sz \<noteq> vad_size v then (Err STATUS_INVALID_PARAMETER, m)
          else let committed = length (vad_pages v) * PAGE_SIZE;
                   mapped = (if vad_mapping v \<noteq> None then vad_size v else 0)
               in if committed > u64_max then (Panic, m)
                  else (Ok (vad_size v), evict_pages (map fst (vad_pages v))
                     (m\<lparr>vads := om_remove base (vads m),
                        committed_bytes := committed_bytes m - committed,
                        mapped_bytes := mapped_bytes m - mapped\<rparr>)))"

definition query :: "memory_manager \<Rightarrow> nat \<Rightarrow> memory_info res" where
  "query m address =
     rbind (find_vad m address) (\<lambda>v. Ok \<lparr>mi_base = vad_base v, mi_size = vad_size v,
       mi_protection = vad_protection v,
       mi_state = (if vad_pages v = [] then Reserved else Committed),
       mi_mapped = map_option mp_section (vad_mapping v)\<rparr>)"

section \<open>Sections and views\<close>

definition section_bytes :: "memory_manager \<Rightarrow> nat \<Rightarrow> nat \<Rightarrow> nat \<Rightarrow> u8 list res" where
  "section_bytes m sid off len =
     rbind (ok_or (map_of (sections m) sid) STATUS_INVALID_HANDLE) (\<lambda>s.
     rbind (ok_or (checked_add64 off len) STATUS_INVALID_PARAMETER) (\<lambda>e.
       if e \<le> length (sec_backing s) then Ok (take len (drop off (sec_backing s))) else Err STATUS_INVALID_PARAMETER))"

definition create_section :: "memory_manager \<Rightarrow> view_kind \<Rightarrow> nat \<Rightarrow> u8 list \<Rightarrow> nat res \<times> memory_manager" where
  "create_section m kind sz initial =
     (if sz = 0 \<or> length initial > sz then (Err STATUS_INVALID_PARAMETER, m)
      else if sz > MAX_SECTION_SIZE then (Err STATUS_SECTION_TOO_BIG, m)
      else if length (sections m) \<ge> max_sections m then (Err STATUS_INSUFFICIENT_RESOURCES, m)
      else let sid = next_section m
           in (Ok sid, m\<lparr>next_section := sid + 1,
                 sections := om_insert sid \<lparr>sec_id = sid, sec_kind = kind, sec_size = sz,
                   sec_backing = initial @ replicate (sz - length initial) 0\<rparr> (sections m)\<rparr>))"

definition delete_section :: "memory_manager \<Rightarrow> nat \<Rightarrow> unit res \<times> memory_manager" where
  "delete_section m sid =
     (if list_ex (\<lambda>(_, v). case vad_mapping v of None \<Rightarrow> False | Some mp \<Rightarrow> mp_section mp = sid) (vads m)
      then (Err STATUS_INVALID_PARAMETER, m)
      else (case map_of (sections m) sid of
              None \<Rightarrow> (Err STATUS_INVALID_HANDLE, m)
            | Some _ \<Rightarrow> (Ok (), m\<lparr>sections := om_remove sid (sections m)\<rparr>)))"

definition map_section :: "memory_manager \<Rightarrow> nat \<Rightarrow> nat option \<Rightarrow> nat \<Rightarrow> protection \<Rightarrow> bool \<Rightarrow> nat res \<times> memory_manager" where
  "map_section m sid base sz prot cow =
     (if \<not> prot_valid prot then (Err STATUS_INVALID_PAGE_PROTECTION, m)
      else attempt (ok_or (map_of (sections m) sid) STATUS_INVALID_HANDLE) m (\<lambda>s.
        if sz = 0 then (Err STATUS_INVALID_PARAMETER, m)
        else if sz > sec_size s then (Err STATUS_INVALID_VIEW_SIZE, m)
        else attempt (ok_or (align_up sz PAGE_SIZE) STATUS_INVALID_PARAMETER) m (\<lambda>aligned.
          if aligned > sec_size s then (Err STATUS_INVALID_VIEW_SIZE, m)
          else (case reserve m base aligned of (r, m1) \<Rightarrow> attempt r m1 (\<lambda>b.
            let pages = map (\<lambda>i. b + i * PAGE_SIZE) [0 ..< aligned div PAGE_SIZE]
            in if list_ex (\<lambda>page. page > u64_max) pages then (Panic, m1)
               else case map_of (vads m1) b of
                 None \<Rightarrow> (Panic, m1)
               | Some v \<Rightarrow>
                   if mapped_bytes m1 + aligned > u64_max then (Panic, m1)
                   else (Ok b, m1\<lparr>vads := om_insert b
                           ((protect_pages prot pages (v\<lparr>vad_protection := prot\<rparr>))
                              \<lparr>vad_mapping := Some \<lparr>mp_section = sid, mp_offset = 0, mp_cow = cow\<rparr>\<rparr>) (vads m1),
                           mapped_bytes := mapped_bytes m1 + aligned\<rparr>))))))"

definition unmap_section :: "memory_manager \<Rightarrow> nat \<Rightarrow> nat res \<times> memory_manager" where
  "unmap_section m base =
     (case map_of (vads m) base of
        None \<Rightarrow> (Err STATUS_INVALID_ADDRESS, m)
      | Some v \<Rightarrow> if vad_mapping v = None then (Err STATUS_INVALID_PARAMETER, m) else release m base 0)"

section \<open>Working set\<close>

fun drop_excess :: "nat \<Rightarrow> nat set \<Rightarrow> nat list \<Rightarrow> nat \<Rightarrow> (nat \<times> nat set \<times> nat list) res" where
  "drop_excess limit rs [] evicted = (if card rs > limit then Panic else Ok (evicted, rs, []))"
| "drop_excess limit rs (page # order) evicted =
     (if card rs > limit then drop_excess limit (rs - {page}) order (evicted + 1)
      else Ok (evicted, rs, page # order))"

definition trim_working_set :: "memory_manager \<Rightarrow> nat \<Rightarrow> nat res \<times> memory_manager" where
  "trim_working_set m target =
     attempt (drop_excess target (resident m) (resident_order m) 0) m
       (\<lambda>(n, rs, order). (Ok n, m\<lparr>resident := rs, resident_order := order\<rparr>))"

definition touch :: "memory_manager \<Rightarrow> nat \<Rightarrow> unit res \<times> memory_manager" where
  "touch m page =
     (if page \<in> resident m then (Ok (), m)
      else attempt (drop_excess (max_working_set m) (insert page (resident m)) (resident_order m @ [page]) 0) m
             (\<lambda>(n, rs, order). (Ok (), m\<lparr>resident := rs, resident_order := order\<rparr>)))"

section \<open>Access\<close>

fun check_pages :: "vad \<Rightarrow> bool \<Rightarrow> nat list \<Rightarrow> unit res" where
  "check_pages v wr [] = Ok ()"
| "check_pages v wr (page # pages) =
     (case map_of (vad_pages v) page of
        None \<Rightarrow> Err STATUS_ACCESS_VIOLATION
      | Some prot \<Rightarrow>
          if wr then (if \<not> writable prot then Err STATUS_ACCESS_VIOLATION else check_pages v wr pages)
          else if \<not> readable prot then Err STATUS_ACCESS_VIOLATION else check_pages v wr pages)"

definition check_access :: "memory_manager \<Rightarrow> nat \<Rightarrow> nat \<Rightarrow> bool \<Rightarrow> unit res" where
  "check_access m start e wr =
     rbind (find_vad m start) (\<lambda>v.
       if e > vad_end v then Err STATUS_INVALID_ADDRESS
       else rbind (page_range (start, e)) (check_pages v wr))"

definition page_bytes :: "memory_manager \<Rightarrow> nat \<Rightarrow> nat \<Rightarrow> u8 list res" where
  "page_bytes m vb page =
     (case map_of (vads m) vb of
        None \<Rightarrow> Err STATUS_INVALID_ADDRESS
      | Some v \<Rightarrow>
          (case map_of (vad_private v) page of
             Some bytes \<Rightarrow> Ok bytes
           | None \<Rightarrow>
               (case vad_mapping v of
                  None \<Rightarrow> Panic
                | Some mp \<Rightarrow>
                    rbind (ok_or (map_of (sections m) (mp_section mp)) STATUS_INVALID_HANDLE) (\<lambda>s.
                      if page < vad_base v then Panic
                      else let start = mp_offset mp + (page - vad_base v)
                           in if start + PAGE_SIZE \<le> length (sec_backing s)
                              then Ok (take PAGE_SIZE (drop start (sec_backing s))) else Panic))))"

text \<open>\<open>target[offset..offset + data.len()].copy_from_slice(data)\<close>, on the bytes it stays within.\<close>

definition copy_at :: "nat \<Rightarrow> u8 list \<Rightarrow> u8 list \<Rightarrow> u8 list" where
  "copy_at off data bytes = take off bytes @ data @ drop (off + length data) bytes"

definition write_page :: "memory_manager \<Rightarrow> nat \<Rightarrow> nat \<Rightarrow> nat \<Rightarrow> u8 list \<Rightarrow> unit res \<times> memory_manager" where
  "write_page m vb page off data =
     (case map_of (vads m) vb of
        None \<Rightarrow> (Err STATUS_INVALID_ADDRESS, m)
      | Some v \<Rightarrow>
          (case vad_mapping v of
             Some mp \<Rightarrow>
               if mp_cow mp then
                 attempt (page_bytes m vb page) m (\<lambda>source.
                   let target = (case map_of (vad_private v) page of Some bytes \<Rightarrow> bytes | None \<Rightarrow> source)
                   in if off + length data > length target then (Panic, m)
                      else (Ok (), m\<lparr>vads := om_insert vb
                             (v\<lparr>vad_private := om_insert page (copy_at off data target) (vad_private v)\<rparr>) (vads m)\<rparr>))
               else if page < vb then (Panic, m)
               else let start = mp_offset mp + (page - vb) + off
                    in attempt (ok_or (map_of (sections m) (mp_section mp)) STATUS_INVALID_HANDLE) m (\<lambda>s.
                         if start + length data > length (sec_backing s) then (Err STATUS_INVALID_ADDRESS, m)
                         else (Ok (), m\<lparr>sections := om_insert (mp_section mp)
                                (s\<lparr>sec_backing := copy_at start data (sec_backing s)\<rparr>) (sections m)\<rparr>))
           | None \<Rightarrow>
               (case map_of (vad_private v) page of
                  None \<Rightarrow> (Panic, m)
                | Some bytes \<Rightarrow>
                    if off + length data > length bytes then (Panic, m)
                    else (Ok (), m\<lparr>vads := om_insert vb
                           (v\<lparr>vad_private := om_insert page (copy_at off data bytes) (vad_private v)\<rparr>) (vads m)\<rparr>))))"

lemma PAGE_SIZE_pos [simp]: "0 < PAGE_SIZE" "PAGE_SIZE \<noteq> 0" by (simp_all add: PAGE_SIZE_def)

lemma chunk_decreases:
  assumes "cursor < e" and "n = min (PAGE_SIZE - cursor mod PAGE_SIZE) (e - cursor)"
  shows "e - (cursor + n) < e - cursor"
proof -
  have "cursor mod PAGE_SIZE < PAGE_SIZE" by simp
  with assms show ?thesis by linarith
qed

function read_loop :: "memory_manager \<Rightarrow> nat \<Rightarrow> nat \<Rightarrow> nat \<Rightarrow> u8 list \<Rightarrow> u8 list res \<times> memory_manager" where
  "read_loop m vb cursor e output =
     (if cursor < e then
        let page = (cursor div PAGE_SIZE) * PAGE_SIZE;
            off = cursor mod PAGE_SIZE;
            n = min (PAGE_SIZE - off) (e - cursor)
        in attempt (page_bytes m vb page) m (\<lambda>bytes.
             if off + n > length bytes then (Panic, m)
             else (case touch m page of (t, m1) \<Rightarrow>
               attempt t m1 (\<lambda>_. read_loop m1 vb (cursor + n) e (output @ take n (drop off bytes)))))
      else (Ok output, m))"
  by pat_completeness auto
termination
proof (relation "measure (\<lambda>(m, vb, cursor, e, output). e - cursor)", goal_cases)
  case (2 m vb cursor e out page off n)
  then show ?case using chunk_decreases [of cursor e n] by simp
qed simp

definition read_mem :: "memory_manager \<Rightarrow> nat \<Rightarrow> nat \<Rightarrow> u8 list res \<times> memory_manager" where
  "read_mem m address len =
     (if len = 0 then (Ok [], m)
      else attempt (ok_or (checked_add64 address len) STATUS_INVALID_ADDRESS) m (\<lambda>e.
           attempt (check_access m address e False) m (\<lambda>_.
           attempt (find_vad m address) m (\<lambda>v. read_loop m (vad_base v) address e []))))"

text \<open>
  The guard \<open>n = 0\<close> stands for an iteration without progress, which the code would repeat for ever; it is
  never taken, since \<open>e\<close> is the address plus the length of the data.
\<close>

function write_loop :: "memory_manager \<Rightarrow> nat \<Rightarrow> nat \<Rightarrow> nat \<Rightarrow> u8 list \<Rightarrow> nat \<Rightarrow> unit res \<times> memory_manager" where
  "write_loop m vb cursor e data written =
     (if cursor < e then
        let page = (cursor div PAGE_SIZE) * PAGE_SIZE;
            off = cursor mod PAGE_SIZE;
            n = min (PAGE_SIZE - off) (length data - written)
        in if n = 0 then (Panic, m)
           else case write_page m vb page off (take n (drop written data)) of (w, m1) \<Rightarrow>
             attempt w m1 (\<lambda>_. case touch m1 page of (t, m2) \<Rightarrow>
               attempt t m2 (\<lambda>_. write_loop m2 vb (cursor + n) e data (written + n)))
      else (Ok (), m))"
  by pat_completeness auto
termination
proof (relation "measure (\<lambda>(m, vb, cursor, e, data, written). e - cursor)", goal_cases)
  case (2 m vb cursor e data written page off n)
  then show ?case by (simp only: in_measure split_conv) linarith
qed simp

declare read_loop.simps [simp del] write_loop.simps [simp del]

definition write_mem :: "memory_manager \<Rightarrow> nat \<Rightarrow> u8 list \<Rightarrow> unit res \<times> memory_manager" where
  "write_mem m address data =
     (if data = [] then (Ok (), m)
      else attempt (ok_or (checked_add64 address (length data)) STATUS_INVALID_ADDRESS) m (\<lambda>e.
           attempt (check_access m address e True) m (\<lambda>_.
           attempt (find_vad m address) m (\<lambda>v. write_loop m (vad_base v) address e data 0))))"

section \<open>Memory descriptor lists\<close>

record mdl =
  mdl_id :: nat
  mdl_virtual_address :: nat
  mdl_byte_count :: nat
  mdl_write_access :: bool
  mdl_locked :: bool
  mdl_page_count :: nat

record mdl_table =
  mdls :: "(nat, mdl) omap"
  mdl_next_id :: nat
  locked_pages :: nat
  peak_locked_pages :: nat

definition mdl_table_new :: mdl_table where
  "mdl_table_new = \<lparr>mdls = [], mdl_next_id = 1, locked_pages = 0, peak_locked_pages = 0\<rparr>"

definition mdl_allocate :: "mdl_table \<Rightarrow> memory_manager \<Rightarrow> nat \<Rightarrow> nat \<Rightarrow> bool \<Rightarrow> nat res \<times> mdl_table" where
  "mdl_allocate t m va n wr =
     (if n = 0 \<or> n > u32_max then (Err STATUS_INVALID_PARAMETER, t)
      else attempt (ok_or (checked_add64 va n) STATUS_INVALID_ADDRESS) t (\<lambda>e.
           attempt (check_access m va e wr) t (\<lambda>_.
             let pages = (va mod PAGE_SIZE + n + PAGE_SIZE - 1) div PAGE_SIZE;
                 i = mdl_next_id t
             in (Ok i, t\<lparr>mdl_next_id := i + 1,
                   mdls := om_insert i \<lparr>mdl_id = i, mdl_virtual_address = va, mdl_byte_count = n,
                     mdl_write_access = wr, mdl_locked = False, mdl_page_count = pages\<rparr> (mdls t)\<rparr>))))"

definition probe_and_lock :: "mdl_table \<Rightarrow> memory_manager \<Rightarrow> nat \<Rightarrow> bool \<Rightarrow> unit res \<times> mdl_table" where
  "probe_and_lock t m i wr =
     attempt (ok_or (map_of (mdls t) i) STATUS_INVALID_HANDLE) t (\<lambda>r.
       if mdl_locked r then (Err STATUS_INVALID_DEVICE_STATE, t)
       else if wr \<and> \<not> mdl_write_access r then (Err STATUS_ACCESS_VIOLATION, t)
       else attempt (ok_or (checked_add64 (mdl_virtual_address r) (mdl_byte_count r)) STATUS_INVALID_ADDRESS) t (\<lambda>e.
            attempt (check_access m (mdl_virtual_address r) e wr) t (\<lambda>_.
              (Ok (), t\<lparr>mdls := om_insert i (r\<lparr>mdl_locked := True\<rparr>) (mdls t),
                        locked_pages := locked_pages t + mdl_page_count r,
                        peak_locked_pages := max (peak_locked_pages t) (locked_pages t + mdl_page_count r)\<rparr>))))"

definition mdl_unlock :: "mdl_table \<Rightarrow> nat \<Rightarrow> unit res \<times> mdl_table" where
  "mdl_unlock t i =
     attempt (ok_or (map_of (mdls t) i) STATUS_INVALID_HANDLE) t (\<lambda>r.
       if \<not> mdl_locked r then (Err STATUS_INVALID_DEVICE_STATE, t)
       else (Ok (), t\<lparr>mdls := om_insert i (r\<lparr>mdl_locked := False\<rparr>) (mdls t),
                      locked_pages := locked_pages t - mdl_page_count r\<rparr>))"

definition mdl_free :: "mdl_table \<Rightarrow> nat \<Rightarrow> unit res \<times> mdl_table" where
  "mdl_free t i =
     attempt (ok_or (map_of (mdls t) i) STATUS_INVALID_HANDLE) t (\<lambda>r.
       if mdl_locked r then (Err STATUS_INVALID_DEVICE_STATE, t)
       else (Ok (), t\<lparr>mdls := om_remove i (mdls t)\<rparr>))"

definition mdl_query :: "mdl_table \<Rightarrow> nat \<Rightarrow> mdl res" where
  "mdl_query t i = ok_or (map_of (mdls t) i) STATUS_INVALID_HANDLE"

end
