(* ===== verification/Memory_Inv.thy ===== *)
theory Memory_Inv
  imports Memory
begin

text \<open>
  The invariant of the virtual memory manager and its preservation by every operation: regions
  are page aligned, disjoint and below the user limit, committed pages lie inside their
  region and own their bytes, views refer to live sections that are large enough, the resident
  set is tracked by its order and within its cap, and the byte counters agree with the regions.
\<close>

section \<open>Page arithmetic\<close>

lemma and_not_mask_nat:
  assumes "v < 2 ^ 64" "k \<le> 64"
  shows "unat ((of_nat v :: 64 word) AND NOT (of_nat (2 ^ k - 1))) = v div 2 ^ k * 2 ^ k"
proof -
  have m: "(of_nat (2 ^ k - 1) :: 64 word) = mask k"
    by (simp add: mask_eq_exp_minus_1 of_nat_diff)
  have "(of_nat v :: 64 word) AND NOT (mask k) = push_bit k (drop_bit k (of_nat v))"
    by (rule bit_word_eqI) (auto simp: bit_and_iff bit_not_iff bit_mask_iff bit_push_bit_iff bit_drop_bit_eq)
  then have "unat ((of_nat v :: 64 word) AND NOT (mask k)) = unat (push_bit k (drop_bit k (of_nat v :: 64 word)))" by simp
  also have "\<dots> = take_bit 64 (push_bit k (drop_bit k v))"
    using assms by (simp add: unsigned_push_bit_eq unsigned_drop_bit_eq unsigned_of_nat take_bit_nat_eq_self)
  also have "\<dots> = push_bit k (drop_bit k v)"
    using assms by (intro take_bit_nat_eq_self) (simp add: push_bit_eq_mult drop_bit_eq_div, meson div_times_less_eq_dividend le_less_trans)
  finally show ?thesis unfolding m by (simp add: push_bit_eq_mult drop_bit_eq_div)
qed

lemma align_up_page:
  "align_up v PAGE_SIZE =
     (if v + 4095 \<le> u64_max then Some ((v + 4095) div PAGE_SIZE * PAGE_SIZE) else None)"
  using and_not_mask_nat [of "v + 4095" 12]
  by (auto simp: align_up_def PAGE_SIZE_def checked_add64_def u64_max_def Let_def)

lemma align_up_SomeD:
  assumes "align_up v PAGE_SIZE = Some a"
  shows "PAGE_SIZE dvd a \<and> v \<le> a \<and> a < v + PAGE_SIZE"
proof -
  have a: "a = (v + 4095) div PAGE_SIZE * PAGE_SIZE" using assms by (simp add: align_up_page split: if_splits)
  have "(v + 4095) div PAGE_SIZE * PAGE_SIZE + (v + 4095) mod PAGE_SIZE = v + 4095" by (rule div_mult_mod_eq)
  moreover have "(v + 4095) mod PAGE_SIZE < PAGE_SIZE" by simp
  ultimately show ?thesis unfolding a by (simp add: PAGE_SIZE_def) linarith
qed

lemma align_up_aligned:
  assumes "align_up v PAGE_SIZE = Some a" and "align_up a PAGE_SIZE = Some a'"
  shows "a' = a"
proof -
  obtain i j where "a = PAGE_SIZE * i" "a' = PAGE_SIZE * j" "a \<le> a'" "a' < a + PAGE_SIZE"
    using align_up_SomeD [OF assms(1)] align_up_SomeD [OF assms(2)] by (auto simp: dvd_def)
  then show ?thesis by (simp add: PAGE_SIZE_def)
qed

lemma distinct_range_pages: "distinct (range_pages r)"
  by (simp add: range_pages_def distinct_map inj_on_def)

lemma set_range_pages:
  assumes "a < b"
  shows "set (range_pages (a, b)) = {p. PAGE_SIZE dvd p \<and> a < p + PAGE_SIZE \<and> p < b}"
proof -
  have "i * PAGE_SIZE \<in> set (range_pages (a, b)) \<longleftrightarrow> a < i * PAGE_SIZE + PAGE_SIZE \<and> i * PAGE_SIZE < b" for i
  proof -
    have "a div PAGE_SIZE \<le> i \<longleftrightarrow> a < i * PAGE_SIZE + PAGE_SIZE"
      using div_less_iff_less_mult [OF PAGE_SIZE_pos(1), of a "Suc i"] by (simp add: less_Suc_eq_le algebra_simps)
    moreover have "i < (b + PAGE_SIZE - 1) div PAGE_SIZE \<longleftrightarrow> i * PAGE_SIZE < b"
      using less_eq_div_iff_mult_less_eq [OF PAGE_SIZE_pos(1), of "Suc i" "b + PAGE_SIZE - 1"]
      by (simp add: Suc_le_eq algebra_simps) (use PAGE_SIZE_pos in linarith)
    ultimately show ?thesis by (auto simp: range_pages_def)
  qed
  moreover have "set (range_pages (a, b)) \<subseteq> {p. PAGE_SIZE dvd p}" by (auto simp: range_pages_def)
  ultimately show ?thesis by (auto elim!: dvdE simp: mult.commute)
qed

lemma set_range_pages_aligned:
  assumes "PAGE_SIZE dvd a" "a < b"
  shows "set (range_pages (a, b)) = {p. PAGE_SIZE dvd p \<and> a \<le> p \<and> p < b}"
proof -
  have "a < p + PAGE_SIZE \<longleftrightarrow> a \<le> p" if p: "PAGE_SIZE dvd p" for p
  proof
    assume "a < p + PAGE_SIZE"
    moreover obtain i j where "a = PAGE_SIZE * i" "p = PAGE_SIZE * j" using assms(1) p by (auto simp: dvd_def)
    ultimately have "PAGE_SIZE * i < PAGE_SIZE * Suc j" by simp
    then have "i < Suc j" by (simp only: mult_less_cancel1)
    then show "a \<le> p" using \<open>a = _\<close> \<open>p = _\<close> by simp
  qed (use PAGE_SIZE_pos in linarith)
  then show ?thesis unfolding set_range_pages [OF assms(2)] by auto
qed

lemma length_range_pages_aligned:
  assumes "PAGE_SIZE dvd a" "PAGE_SIZE dvd b" "a \<le> b"
  shows "length (range_pages (a, b)) * PAGE_SIZE = b - a"
proof -
  obtain i j where ij: "a = PAGE_SIZE * i" "b = PAGE_SIZE * j" using assms by (auto simp: dvd_def)
  have "(PAGE_SIZE * j + PAGE_SIZE - 1) div PAGE_SIZE = j"
    by (rule div_nat_eqI) (simp_all add: PAGE_SIZE_def)
  then show ?thesis by (simp add: ij range_pages_def algebra_simps diff_mult_distrib2)
qed

lemma page_of_in: "PAGE_SIZE dvd p \<Longrightarrow> a div PAGE_SIZE * PAGE_SIZE = p \<longleftrightarrow> p \<le> a \<and> a < p + PAGE_SIZE"
  by (auto elim!: dvdE simp: PAGE_SIZE_def)

section \<open>Predecessors in ordered maps\<close>

lemma last_filter_Some:
  assumes "om_wf m"
  shows "(let xs = filter (\<lambda>e. P (fst e)) m in if xs = [] then None else Some (last xs)) = Some (k, v) \<longleftrightarrow>
     map_of m k = Some v \<and> P k \<and> (\<forall>k'. map_of m k' \<noteq> None \<longrightarrow> P k' \<longrightarrow> k' \<le> k)"
  using assms
proof (induction m)
  case (Cons e m)
  obtain k0 v0 where e: "e = (k0, v0)" by (cases e)
  have wf: "om_wf m" and lt: "\<forall>k' \<in> fst ` set m. k0 < k'" using Cons.prems by (auto simp: e om_wf_Cons)
  have none: "map_of m k0 = None" using lt by (auto simp: map_of_eq_None_iff)
  show ?case
  proof (cases "filter (\<lambda>e. P (fst e)) m = []")
    case True
    then have "\<not> P k'" if "map_of m k' \<noteq> None" for k'
      using that by (auto simp: filter_empty_conv dest!: map_of_SomeD)
    with True none show ?thesis by (auto simp: e split: if_splits)
  next
    case False
    then obtain k1 where k1: "map_of m k1 \<noteq> None" "P k1"
      using lt by (auto simp: filter_empty_conv map_of_eq_None_iff image_iff)
    have gt: "k0 < k'" if "map_of m k' \<noteq> None" for k'
      using that lt by (auto dest!: map_of_SomeD)
    have "(let xs = filter (\<lambda>e. P (fst e)) (e # m) in if xs = [] then None else Some (last xs)) = Some (k, v) \<longleftrightarrow>
        map_of m k = Some v \<and> P k \<and> (\<forall>k'. map_of m k' \<noteq> None \<longrightarrow> P k' \<longrightarrow> k' \<le> k)"
      unfolding Cons.IH [OF wf, symmetric] using False by (simp add: Let_def)
    also have "\<dots> \<longleftrightarrow> map_of (e # m) k = Some v \<and> P k \<and> (\<forall>k'. map_of (e # m) k' \<noteq> None \<longrightarrow> P k' \<longrightarrow> k' \<le> k)"
    proof (cases "k = k0")
      case True
      then show ?thesis using none k1 gt [OF k1(1)] by (auto simp: e)
    next
      case False
      then have "k0 \<le> k" if "map_of m k = Some v" using gt [of k] that by simp
      with False show ?thesis by (auto simp: e)
    qed
    finally show ?thesis .
  qed
qed simp

lemmas om_last_le_Some = last_filter_Some [of _ "\<lambda>k. k \<le> a" for a, folded om_last_le_def]
lemmas om_last_less_Some = last_filter_Some [of _ "\<lambda>k. k < a" for a, folded om_last_less_def]

lemma om_last_less_None: "om_last_less a m = None \<longleftrightarrow> (\<forall>k. map_of m k \<noteq> None \<longrightarrow> a \<le> k)"
  by (force simp: om_last_less_def Let_def filter_empty_conv map_of_eq_None_iff image_iff)

section \<open>The invariant\<close>

text \<open>\<open>vad_pages_ok\<close>: the shape of a region and of its pages; \<open>view_ok\<close>: where its bytes come from.\<close>

definition vad_pages_ok :: "nat \<Rightarrow> vad \<Rightarrow> bool" where
  "vad_pages_ok b v \<longleftrightarrow> vad_base v = b \<and> 0 < b \<and> PAGE_SIZE dvd b \<and> 0 < vad_size v \<and> PAGE_SIZE dvd vad_size v \<and>
     vad_end v \<le> USER_LIMIT \<and> om_wf (vad_pages v) \<and> om_wf (vad_private v) \<and>
     (\<forall>p prot. map_of (vad_pages v) p = Some prot \<longrightarrow> PAGE_SIZE dvd p \<and> b \<le> p \<and> p < vad_end v \<and> prot_valid prot) \<and>
     (\<forall>p bytes. map_of (vad_private v) p = Some bytes \<longrightarrow> map_of (vad_pages v) p \<noteq> None \<and> length bytes = PAGE_SIZE)"

definition view_ok :: "(nat, mem_section) omap \<Rightarrow> vad \<Rightarrow> bool" where
  "view_ok secs v \<longleftrightarrow>
     (case vad_mapping v of
        None \<Rightarrow> (\<forall>p. map_of (vad_pages v) p \<noteq> None \<longrightarrow> map_of (vad_private v) p \<noteq> None)
      | Some mp \<Rightarrow> mp_offset mp = 0 \<and> (\<not> mp_cow mp \<longrightarrow> vad_private v = []) \<and>
          (\<forall>p. PAGE_SIZE dvd p \<and> vad_base v \<le> p \<and> p < vad_end v \<longrightarrow> map_of (vad_pages v) p \<noteq> None) \<and>
          (\<exists>s. map_of secs (mp_section mp) = Some s \<and> vad_size v \<le> length (sec_backing s)))"

definition vads_disjoint :: "(nat, vad) omap \<Rightarrow> bool" where
  "vads_disjoint vs \<longleftrightarrow> (\<forall>b c v w. map_of vs b = Some v \<longrightarrow> map_of vs c = Some w \<longrightarrow> b < c \<longrightarrow> b + vad_size v \<le> c)"

definition vads_ok :: "memory_manager \<Rightarrow> bool" where
  "vads_ok m \<longleftrightarrow> om_wf (vads m) \<and> vads_disjoint (vads m) \<and>
     (\<forall>b v. map_of (vads m) b = Some v \<longrightarrow> vad_pages_ok b v \<and> view_ok (sections m) v \<and> vad_end v \<le> next_base m) \<and>
     0 < next_base m \<and> PAGE_SIZE dvd next_base m"

definition sections_ok :: "memory_manager \<Rightarrow> bool" where
  "sections_ok m \<longleftrightarrow> fresh_ids (sections m) (next_section m) \<and> length (sections m) \<le> max_sections m \<and>
     (\<forall>i s. map_of (sections m) i = Some s \<longrightarrow> sec_id s = i \<and> length (sec_backing s) = sec_size s \<and> sec_size s \<le> MAX_SECTION_SIZE)"

definition committed_in :: "memory_manager \<Rightarrow> nat \<Rightarrow> bool" where
  "committed_in m p \<longleftrightarrow> (\<exists>b v. map_of (vads m) b = Some v \<and> map_of (vad_pages v) p \<noteq> None)"

definition resident_ok :: "memory_manager \<Rightarrow> bool" where
  "resident_ok m \<longleftrightarrow> distinct (resident_order m) \<and> set (resident_order m) = resident m \<and>
     length (resident_order m) \<le> max_working_set m \<and> (\<forall>p \<in> resident m. committed_in m p)"

text \<open>The bytes of the committed pages of plain reservations, and of the mapped views.\<close>

definition private_bytes :: "(nat, vad) omap \<Rightarrow> nat" where
  "private_bytes vs = om_sum (\<lambda>_ v. if vad_mapping v = None then length (vad_pages v) * PAGE_SIZE else 0) vs"

definition view_bytes :: "(nat, vad) omap \<Rightarrow> nat" where
  "view_bytes vs = om_sum (\<lambda>_ v. if vad_mapping v = None then 0 else vad_size v) vs"

definition counters_ok :: "memory_manager \<Rightarrow> bool" where
  "counters_ok m \<longleftrightarrow> committed_bytes m \<le> private_bytes (vads m) \<and> committed_bytes m \<le> max_commit m \<and>
     mapped_bytes m = view_bytes (vads m)"

definition mm_inv :: "memory_manager \<Rightarrow> bool" where
  "mm_inv m \<longleftrightarrow> vads_ok m \<and> sections_ok m \<and> resident_ok m \<and> counters_ok m"

lemma mm_inv_new: "mm_inv (memory_manager_new mc ms mw)"
  by (simp add: mm_inv_def vads_ok_def sections_ok_def resident_ok_def counters_ok_def memory_manager_new_def
      vads_disjoint_def private_bytes_def view_bytes_def DEFAULT_BASE_def PAGE_SIZE_def)

section \<open>Looking up regions\<close>

text \<open>The limit of the user addresses keeps the ends of regions and of page ranges within 64 bits.\<close>

lemma end_fits: "vads_ok m \<Longrightarrow> map_of (vads m) b = Some v \<Longrightarrow> \<not> end_traps v"
  by (fastforce simp: vads_ok_def vad_pages_ok_def end_traps_def vad_end_def USER_LIMIT_def u64_max_def)

lemma page_range_fits: "snd r \<le> USER_LIMIT \<Longrightarrow> page_range r = Ok (range_pages r)"
  by (simp add: page_range_def USER_LIMIT_def PAGE_SIZE_def u64_max_def)

lemma page_range_Ok: "page_range r = Ok ps \<longleftrightarrow> snd r + PAGE_SIZE \<le> u64_max \<and> ps = range_pages r"
  by (auto simp: page_range_def)

lemma find_vad_Ok:
  assumes "vads_ok m"
  shows "find_vad m a = Ok v \<longleftrightarrow> map_of (vads m) (vad_base v) = Some v \<and> vad_base v \<le> a \<and> a < vad_end v"
proof
  have wf: "om_wf (vads m)" using assms by (simp add: vads_ok_def)
  have base: "vad_base w = b" if "map_of (vads m) b = Some w" for b w
    using assms that by (simp add: vads_ok_def vad_pages_ok_def)
  {
    assume "find_vad m a = Ok v"
    then obtain k where "om_last_le a (vads m) = Some (k, v)" "a < vad_end v"
      by (auto simp: find_vad_def split: option.splits if_splits)
    then show "map_of (vads m) (vad_base v) = Some v \<and> vad_base v \<le> a \<and> a < vad_end v"
      using base by (auto simp: om_last_le_Some [OF wf])
  next
    assume v: "map_of (vads m) (vad_base v) = Some v \<and> vad_base v \<le> a \<and> a < vad_end v"
    have "k' \<le> vad_base v" if "map_of (vads m) k' \<noteq> None" "k' \<le> a" for k'
    proof (rule ccontr)
      assume "\<not> k' \<le> vad_base v"
      moreover from that obtain w where "map_of (vads m) k' = Some w" by auto
      ultimately have "vad_base v + vad_size v \<le> k'"
        using v assms unfolding vads_ok_def vads_disjoint_def by (meson not_le)
      then show False using v that by (simp add: vad_end_def)
    qed
    then have "om_last_le a (vads m) = Some (vad_base v, v)" using v by (simp add: om_last_le_Some [OF wf])
    then show "find_vad m a = Ok v" using v end_fits [OF assms, of "vad_base v" v] by (simp add: find_vad_def)
  }
qed

lemma find_vad_not_Panic: "vads_ok m \<Longrightarrow> find_vad m a \<noteq> Panic"
  using end_fits [of m] om_last_le_Some [of "vads m" a] by (auto simp: find_vad_def vads_ok_def split: option.splits)

lemma validate_range_Ok:
  assumes "vads_ok m" "validate_range m base sz = Ok r"
  obtains v e where "r = (base, e)" "find_vad m base = Ok v" "PAGE_SIZE dvd base" "PAGE_SIZE dvd e"
    "base < e" "e \<le> vad_end v" "align_up sz PAGE_SIZE = Some (e - base)" "0 < sz"
proof -
  from assms(2) obtain al v where al: "align_up sz PAGE_SIZE = Some al" "r = (base, base + al)" "find_vad m base = Ok v"
    "base + al \<le> vad_end v" "sz \<noteq> 0" "base mod PAGE_SIZE = 0"
    by (auto simp: validate_range_def ok_or_def rbind_eq_Ok split: if_splits option.splits)
  with align_up_SomeD [OF al(1)] show ?thesis
    by (intro that [of "base + al" v]) (auto simp: mod_eq_0_iff_dvd)
qed

lemma validate_range_facts:
  assumes "vads_ok m" "validate_range m b sz = Ok (b, e)" "find_vad m b = Ok v"
  shows "PAGE_SIZE dvd b" "PAGE_SIZE dvd e" "b < e" "e \<le> vad_end v" "align_up sz PAGE_SIZE = Some (e - b)"
  using assms by (auto elim: validate_range_Ok)

lemma validate_range_not_Panic: "vads_ok m \<Longrightarrow> validate_range m base sz \<noteq> Panic"
  using find_vad_not_Panic [of m base] by (auto simp: validate_range_def ok_or_def rbind_neq_Panic split: option.splits)

lemma region_range_fits: "vads_ok m \<Longrightarrow> find_vad m a = Ok v \<Longrightarrow> e \<le> vad_end v \<Longrightarrow> page_range (b, e) = Ok (range_pages (b, e))"
  by (rule page_range_fits) (auto simp: find_vad_Ok vads_ok_def vad_pages_ok_def dest: order_trans)

lemma valid_range_fits: "vads_ok m \<Longrightarrow> validate_range m base sz = Ok r \<Longrightarrow> page_range r = Ok (range_pages r)"
  by (auto elim: validate_range_Ok dest: region_range_fits)

lemma overlaps_any_eq:
  "\<forall>(k, v) \<in> set vs. \<not> end_traps v \<Longrightarrow> overlaps_any base e vs = Ok (\<exists>(k, v) \<in> set vs. base < vad_end v \<and> vad_base v < e)"
  by (induction base e vs rule: overlaps_any.induct) auto

lemma overlaps_eq:
  assumes "vads_ok m"
  shows "overlaps m base sz = Ok (\<exists>b v. map_of (vads m) b = Some v \<and> base < b + vad_size v \<and> b < saturating_add64 base sz)"
proof -
  have wf: "om_wf (vads m)" and base: "\<And>b w. map_of (vads m) b = Some w \<Longrightarrow> vad_base w = b"
    using assms by (auto simp: vads_ok_def vad_pages_ok_def)
  have "\<forall>(k, v) \<in> set (vads m). \<not> end_traps v" using end_fits [OF assms] by (auto simp: om_get_iff [OF wf, symmetric])
  from overlaps_any_eq [OF this] have "overlaps m base sz =
      Ok (\<exists>(b, v) \<in> set (vads m). base < vad_end v \<and> vad_base v < saturating_add64 base sz)" unfolding overlaps_def .
  moreover have "(\<exists>(b, v) \<in> set (vads m). base < vad_end v \<and> vad_base v < saturating_add64 base sz) \<longleftrightarrow>
      (\<exists>b v. map_of (vads m) b = Some v \<and> base < b + vad_size v \<and> b < saturating_add64 base sz)"
    unfolding Bex_def split_paired_Ex om_get_iff [OF wf, symmetric] vad_end_def using base by auto
  ultimately show ?thesis by simp
qed

lemma overlaps_iff:
  assumes "vads_ok m" "base + sz \<le> u64_max"
  shows "overlaps m base sz = Ok (\<exists>b v. map_of (vads m) b = Some v \<and> base < b + vad_size v \<and> b < base + sz)"
  using overlaps_eq [OF assms(1), of base sz] assms(2) by (simp add: saturating_add64_def min_absorb1)

section \<open>Loops over pages\<close>

lemma commit_pages_fields [simp]:
  "vad_base (commit_pages prot ps v) = vad_base v" "vad_size (commit_pages prot ps v) = vad_size v"
  "vad_mapping (commit_pages prot ps v) = vad_mapping v" "vad_end (commit_pages prot ps v) = vad_end v"
  by (induction ps arbitrary: v) (simp_all add: commit_pages_def vad_end_def)

lemma protect_pages_fields [simp]:
  "vad_base (protect_pages prot ps v) = vad_base v" "vad_size (protect_pages prot ps v) = vad_size v"
  "vad_mapping (protect_pages prot ps v) = vad_mapping v" "vad_end (protect_pages prot ps v) = vad_end v"
  "vad_private (protect_pages prot ps v) = vad_private v"
  by (induction ps arbitrary: v) (simp_all add: protect_pages_def vad_end_def)

lemma decommit_pages_fields [simp]:
  "vad_base (decommit_pages ps v) = vad_base v" "vad_size (decommit_pages ps v) = vad_size v"
  "vad_mapping (decommit_pages ps v) = vad_mapping v" "vad_end (decommit_pages ps v) = vad_end v"
  by (induction ps arbitrary: v) (simp_all add: decommit_pages_def vad_end_def)

lemma commit_pages_get [simp]:
  "map_of (vad_pages (commit_pages prot ps v)) p = (if p \<in> set ps then Some prot else map_of (vad_pages v) p)"
  "map_of (vad_private (commit_pages prot ps v)) p =
     (if p \<in> set ps then Some (replicate PAGE_SIZE 0) else map_of (vad_private v) p)"
  by (induction ps arbitrary: v) (simp_all add: commit_pages_def)

lemma protect_pages_get [simp]:
  "map_of (vad_pages (protect_pages prot ps v)) p = (if p \<in> set ps then Some prot else map_of (vad_pages v) p)"
  by (induction ps arbitrary: v) (simp_all add: protect_pages_def)

lemma decommit_pages_get [simp]:
  "map_of (vad_pages (decommit_pages ps v)) p = (if p \<in> set ps then None else map_of (vad_pages v) p)"
  "map_of (vad_private (decommit_pages ps v)) p = (if p \<in> set ps then None else map_of (vad_private v) p)"
  by (induction ps arbitrary: v) (simp_all add: decommit_pages_def)

lemma pages_wf [simp]:
  "om_wf (vad_pages v) \<Longrightarrow> om_wf (vad_pages (commit_pages prot ps v))"
  "om_wf (vad_private v) \<Longrightarrow> om_wf (vad_private (commit_pages prot ps v))"
  "om_wf (vad_pages v) \<Longrightarrow> om_wf (vad_pages (protect_pages prot ps v))"
  "om_wf (vad_pages v) \<Longrightarrow> om_wf (vad_pages (decommit_pages ps v))"
  "om_wf (vad_private v) \<Longrightarrow> om_wf (vad_private (decommit_pages ps v))"
  by (induction ps arbitrary: v) (simp_all add: commit_pages_def protect_pages_def decommit_pages_def)

lemma commit_pages_length:
  "distinct ps \<Longrightarrow> \<forall>p \<in> set ps. map_of (vad_pages v) p = None \<Longrightarrow>
     length (vad_pages (commit_pages prot ps v)) = length (vad_pages v) + length ps"
proof (induction ps arbitrary: v)
  case (Cons p ps)
  let ?v = "v\<lparr>vad_pages := om_insert p prot (vad_pages v), vad_private := om_insert p (replicate PAGE_SIZE 0) (vad_private v)\<rparr>"
  have "length (vad_pages (commit_pages prot ps ?v)) = length (vad_pages ?v) + length ps"
    using Cons.prems by (intro Cons.IH) auto
  moreover have "length (vad_pages ?v) = Suc (length (vad_pages v))"
    using Cons.prems om_insert_fresh_length [of p "vad_pages v" prot] by (simp add: map_of_eq_None_iff)
  ultimately show ?case by (simp add: commit_pages_def)
qed (simp add: commit_pages_def)

lemma protect_pages_length:
  "om_wf (vad_pages v) \<Longrightarrow> \<forall>p \<in> set ps. map_of (vad_pages v) p \<noteq> None \<Longrightarrow>
     length (vad_pages (protect_pages prot ps v)) = length (vad_pages v)"
proof (induction ps arbitrary: v)
  case (Cons p ps)
  let ?v = "v\<lparr>vad_pages := om_insert p prot (vad_pages v)\<rparr>"
  have "length (vad_pages (protect_pages prot ps ?v)) = length (vad_pages ?v)"
    using Cons.prems by (intro Cons.IH) auto
  moreover obtain q where "map_of (vad_pages v) p = Some q" using Cons.prems by auto
  ultimately show ?case using Cons.prems om_insert_present_length [of "vad_pages v" p prot]
    by (simp add: protect_pages_def om_keys_dom domI)
qed (simp add: protect_pages_def)

lemma decommit_pages_length:
  "om_wf (vad_pages v) \<Longrightarrow> distinct ps \<Longrightarrow>
     length (vad_pages (decommit_pages ps v)) + length (filter (\<lambda>p. map_of (vad_pages v) p \<noteq> None) ps) = length (vad_pages v)"
proof (induction ps arbitrary: v)
  case (Cons p ps)
  let ?v = "v\<lparr>vad_pages := om_remove p (vad_pages v), vad_private := om_remove p (vad_private v)\<rparr>"
  have "length (vad_pages (decommit_pages ps ?v)) + length (filter (\<lambda>p. map_of (vad_pages ?v) p \<noteq> None) ps) = length (vad_pages ?v)"
    using Cons.prems by (intro Cons.IH) auto
  moreover have "filter (\<lambda>p. map_of (vad_pages ?v) p \<noteq> None) ps = filter (\<lambda>p. map_of (vad_pages v) p \<noteq> None) ps"
    using Cons.prems by (intro filter_cong) auto
  moreover have "decommit_pages (p # ps) v = decommit_pages ps ?v" by (simp add: decommit_pages_def)
  ultimately show ?case
    using Cons.prems om_remove_length [of "vad_pages v" p]
    by (cases "map_of (vad_pages v) p") (auto simp: om_remove_absent)
qed (simp add: decommit_pages_def)

lemma evict_pages_eq:
  "evict_pages ps m = m\<lparr>resident := resident m - set ps,
     resident_order := filter (\<lambda>p. p \<notin> set ps) (resident_order m)\<rparr>"
proof (induction ps arbitrary: m)
  case (Cons p ps)
  have "evict_pages (p # ps) m = evict_pages ps (m\<lparr>resident := resident m - {p},
      resident_order := filter (\<lambda>c. c \<noteq> p) (resident_order m)\<rparr>)" by (simp add: evict_pages_def)
  also have "\<dots> = m\<lparr>resident := resident m - {p} - set ps,
      resident_order := filter (\<lambda>q. q \<notin> set ps) (filter (\<lambda>c. c \<noteq> p) (resident_order m))\<rparr>" by (simp add: Cons.IH)
  finally show ?case by (simp add: Diff_insert2 [symmetric] conj_commute)
qed (simp add: evict_pages_def)

section \<open>Replacing and removing a region\<close>

lemma vads_ok_put:
  assumes ok: "vads_ok m" and v: "map_of (vads m) b = Some v"
    and v': "vad_pages_ok b v'" "view_ok (sections m) v'" "vad_size v' = vad_size v"
  shows "vads_ok (m\<lparr>vads := om_insert b v' (vads m)\<rparr>)"
proof -
  have "vad_end v' = vad_end v" using ok v v' by (simp add: vads_ok_def vad_pages_ok_def vad_end_def)
  then show ?thesis using assms unfolding vads_ok_def vads_disjoint_def
    by (simp add: om_wf_insert)
qed

lemma resident_ok_put:
  assumes ok: "resident_ok m" and v: "map_of (vads m) b = Some v"
    and keep: "\<And>p. p \<in> resident m \<Longrightarrow> map_of (vad_pages v) p \<noteq> None \<Longrightarrow> map_of (vad_pages v') p \<noteq> None"
  shows "resident_ok (m\<lparr>vads := om_insert b v' (vads m)\<rparr>)"
proof -
  have "committed_in (m\<lparr>vads := om_insert b v' (vads m)\<rparr>) p" if "p \<in> resident m" for p
  proof -
    obtain c w where "map_of (vads m) c = Some w" "map_of (vad_pages w) p \<noteq> None"
      using ok \<open>p \<in> resident m\<close> unfolding resident_ok_def committed_in_def by blast
    then show ?thesis using keep [OF that] v by (cases "c = b") (force simp: committed_in_def)+
  qed
  then show ?thesis using ok by (simp add: resident_ok_def)
qed

lemma private_bytes_put:
  assumes "om_wf vs" "map_of vs b = Some v"
  shows "private_bytes (om_insert b v' vs) + (if vad_mapping v = None then length (vad_pages v) * PAGE_SIZE else 0) =
     private_bytes vs + (if vad_mapping v' = None then length (vad_pages v') * PAGE_SIZE else 0)"
  unfolding private_bytes_def using om_sum_insert_present [OF assms] by fast

lemma view_bytes_put:
  assumes "om_wf vs" "map_of vs b = Some v"
  shows "view_bytes (om_insert b v' vs) + (if vad_mapping v = None then 0 else vad_size v) =
     view_bytes vs + (if vad_mapping v' = None then 0 else vad_size v')"
  unfolding view_bytes_def using om_sum_insert_present [OF assms] by fast

section \<open>Preservation\<close>

lemma mm_inv_dest:
  assumes "mm_inv m"
  shows "vads_ok m" "sections_ok m" "resident_ok m" "counters_ok m" "om_wf (vads m)"
  using assms by (simp_all add: mm_inv_def vads_ok_def)

lemma vads_ok_get:
  assumes "vads_ok m" "map_of (vads m) b = Some v"
  shows "vad_pages_ok b v" "view_ok (sections m) v" "vad_end v \<le> next_base m"
  using assms by (simp_all add: vads_ok_def)

lemma view_ok_private: "vad_mapping v = None \<Longrightarrow>
    view_ok secs v \<longleftrightarrow> (\<forall>p. map_of (vad_pages v) p \<noteq> None \<longrightarrow> map_of (vad_private v) p \<noteq> None)"
  by (simp add: view_ok_def)

text \<open>A successful \<open>commit\<close> in terms of the region it changes.\<close>

lemma commit_Ok:
  assumes inv: "mm_inv m" and c: "commit m base sz prot = (Ok (), m')"
  obtains v e where "find_vad m base = Ok v" "validate_range m base sz = Ok (base, e)" "prot_valid prot"
    "vad_mapping v = None" "\<forall>p \<in> set (range_pages (base, e)). map_of (vad_pages v) p = None"
    "map_of (vads m) (vad_base v) = Some v"
    "committed_bytes m + length (range_pages (base, e)) * PAGE_SIZE \<le> max_commit m"
    "m' = m\<lparr>vads := om_insert (vad_base v) ((commit_pages prot (range_pages (base, e)) v)\<lparr>vad_protection := prot\<rparr>) (vads m),
       committed_bytes := committed_bytes m + length (range_pages (base, e)) * PAGE_SIZE\<rparr>"
proof -
  from c obtain r v where r: "validate_range m base sz = Ok r" and f: "find_vad m (fst r) = Ok v"
    by (auto simp: commit_def attempt_eq_Ok split: if_splits)
  obtain e where e: "r = (base, e)" by (rule validate_range_Ok [OF mm_inv_dest(1) [OF inv] r]) auto
  have g: "map_of (vads m) (vad_base v) = Some v" using f by (simp add: find_vad_Ok [OF mm_inv_dest(1) [OF inv]])
  from c r f g e show ?thesis
    by (intro that [of v e])
      (auto simp: commit_def attempt_eq_Ok ok_or_def page_range_Ok committed_count_def filter_empty_conv saturating_add64_def
        split: if_splits option.splits)
qed

lemma commit_Ok_inv:
  assumes inv: "mm_inv m" and c: "commit m base sz prot = (Ok (), m')"
  shows "mm_inv m'"
  using inv c
proof (rule commit_Ok)
  fix v e
  let ?ps = "range_pages (base, e)" let ?v = "(commit_pages prot (range_pages (base, e)) v)\<lparr>vad_protection := prot\<rparr>"
  assume f: "find_vad m base = Ok v" and r: "validate_range m base sz = Ok (base, e)" and prot: "prot_valid prot"
    and map: "vad_mapping v = None" and free: "\<forall>p \<in> set ?ps. map_of (vad_pages v) p = None"
    and g: "map_of (vads m) (vad_base v) = Some v" and lim: "committed_bytes m + length ?ps * PAGE_SIZE \<le> max_commit m"
    and m': "m' = m\<lparr>vads := om_insert (vad_base v) ?v (vads m), committed_bytes := committed_bytes m + length ?ps * PAGE_SIZE\<rparr>"
  note d = mm_inv_dest [OF inv] and g' = vads_ok_get [OF mm_inv_dest(1) [OF inv] g]
  have be: "PAGE_SIZE dvd base" "base < e" "e \<le> vad_end v"
    using validate_range_Ok [OF d(1) r] f by (auto elim: validate_range_Ok [OF d(1) r])
  have b: "vad_base v \<le> base" using f by (simp add: find_vad_Ok [OF d(1)])
  have "vad_pages_ok (vad_base v) ?v"
    using g'(1) prot be b by (auto simp: vad_pages_ok_def set_range_pages_aligned vad_end_def)
  moreover have "view_ok (sections m) ?v"
    using g'(2) map by (simp add: view_ok_private)
  ultimately have "vads_ok (m\<lparr>vads := om_insert (vad_base v) ?v (vads m)\<rparr>)"
    by (intro vads_ok_put [OF d(1) g]) simp_all
  moreover have "resident_ok (m\<lparr>vads := om_insert (vad_base v) ?v (vads m)\<rparr>)"
    by (rule resident_ok_put [OF d(3) g]) simp
  moreover have "length (vad_pages ?v) = length (vad_pages v) + length ?ps"
    using free by (simp add: commit_pages_length distinct_range_pages)
  moreover note private_bytes_put [OF d(5) g, of ?v] view_bytes_put [OF d(5) g, of ?v]
  ultimately show ?thesis using d(2,4) lim map
    by (simp add: m' mm_inv_def vads_ok_def sections_ok_def resident_ok_def counters_ok_def committed_in_def algebra_simps)
qed

lemma commit_cases: "fst (commit m base sz prot) = Ok () \<or> snd (commit m base sz prot) = m"
  by (auto simp: commit_def attempt_def split: res.splits option.splits)

lemma commit_inv: "mm_inv m \<Longrightarrow> mm_inv (snd (commit m base sz prot))"
  using commit_cases [of m base sz prot] by (metis commit_Ok_inv prod.collapse)

lemma decommit_Ok:
  assumes inv: "mm_inv m" and c: "decommit m base sz = (Ok (), m')"
  obtains v e where "find_vad m base = Ok v" "validate_range m base sz = Ok (base, e)" "vad_mapping v = None"
    "map_of (vads m) (vad_base v) = Some v" "committed_count v (base, e) \<noteq> 0"
    "m' = m\<lparr>vads := om_insert (vad_base v) (decommit_pages (range_pages (base, e)) v) (vads m),
       committed_bytes := committed_bytes m - committed_count v (base, e) * PAGE_SIZE,
       resident := resident m - set (range_pages (base, e)),
       resident_order := filter (\<lambda>p. p \<notin> set (range_pages (base, e))) (resident_order m)\<rparr>"
proof -
  from c obtain r v where r: "validate_range m base sz = Ok r" and f: "find_vad m (fst r) = Ok v"
    by (auto simp: decommit_def attempt_eq_Ok)
  obtain e where e: "r = (base, e)" by (rule validate_range_Ok [OF mm_inv_dest(1) [OF inv] r]) auto
  have g: "map_of (vads m) (vad_base v) = Some v" using f by (simp add: find_vad_Ok [OF mm_inv_dest(1) [OF inv]])
  from c r f g e show ?thesis
    by (intro that [of v e]) (auto simp: decommit_def attempt_eq_Ok page_range_Ok evict_pages_eq split: if_splits)
qed

lemma decommit_Ok_inv:
  assumes inv: "mm_inv m" and c: "decommit m base sz = (Ok (), m')"
  shows "mm_inv m'"
  using inv c
proof (rule decommit_Ok)
  fix v e
  let ?ps = "range_pages (base, e)" let ?v = "decommit_pages ?ps v"
  let ?m = "m\<lparr>resident := resident m - set ?ps, resident_order := filter (\<lambda>p. p \<notin> set ?ps) (resident_order m)\<rparr>"
  assume f: "find_vad m base = Ok v" and r: "validate_range m base sz = Ok (base, e)" and map: "vad_mapping v = None"
    and g: "map_of (vads m) (vad_base v) = Some v"
    and m': "m' = m\<lparr>vads := om_insert (vad_base v) ?v (vads m), committed_bytes := committed_bytes m - committed_count v (base, e) * PAGE_SIZE,
      resident := resident m - set ?ps, resident_order := filter (\<lambda>p. p \<notin> set ?ps) (resident_order m)\<rparr>"
  note d = mm_inv_dest [OF inv] and g' = vads_ok_get [OF mm_inv_dest(1) [OF inv] g]
  have "vad_pages_ok (vad_base v) ?v" using g'(1) by (auto simp: vad_pages_ok_def)
  moreover have "view_ok (sections m) ?v" using g'(2) map by (simp add: view_ok_private)
  ultimately have "vads_ok (m\<lparr>vads := om_insert (vad_base v) ?v (vads m)\<rparr>)"
    by (intro vads_ok_put [OF d(1) g]) simp_all
  moreover have "resident_ok ?m"
    using d(3) by (auto simp: resident_ok_def committed_in_def intro: order_trans [OF length_filter_le])
  then have "resident_ok (?m\<lparr>vads := om_insert (vad_base v) ?v (vads ?m)\<rparr>)"
    using g by (intro resident_ok_put [where v = v]) auto
  moreover have "length (vad_pages ?v) + committed_count v (base, e) = length (vad_pages v)"
    unfolding committed_count_def using g'(1) by (intro decommit_pages_length) (simp_all add: vad_pages_ok_def distinct_range_pages)
  then have "length (vad_pages ?v) * PAGE_SIZE + committed_count v (base, e) * PAGE_SIZE = length (vad_pages v) * PAGE_SIZE"
    by (metis add_mult_distrib)
  moreover note private_bytes_put [OF d(5) g, of ?v] view_bytes_put [OF d(5) g, of ?v]
  ultimately show ?thesis using d(2,4) map
    by (simp add: m' mm_inv_def vads_ok_def sections_ok_def resident_ok_def counters_ok_def committed_in_def) linarith
qed

lemma decommit_cases: "fst (decommit m base sz) = Ok () \<or> snd (decommit m base sz) = m"
  by (auto simp: decommit_def attempt_def split: res.splits option.splits)

lemma decommit_inv: "mm_inv m \<Longrightarrow> mm_inv (snd (decommit m base sz))"
  using decommit_cases [of m base sz] by (metis decommit_Ok_inv prod.collapse)

lemma protect_Ok:
  assumes inv: "mm_inv m" and c: "protect m base sz prot = (Ok n, m')"
  obtains v e where "find_vad m base = Ok v" "validate_range m base sz = Ok (base, e)" "prot_valid prot"
    "map_of (vads m) (vad_base v) = Some v" "\<forall>p \<in> set (range_pages (base, e)). map_of (vad_pages v) p \<noteq> None"
    "n = length (range_pages (base, e))"
    "m' = m\<lparr>vads := om_insert (vad_base v) (protect_pages prot (range_pages (base, e)) (v\<lparr>vad_protection := prot\<rparr>)) (vads m)\<rparr>"
proof -
  from c obtain r v where r: "validate_range m base sz = Ok r" and f: "find_vad m (fst r) = Ok v"
    by (auto simp: protect_def attempt_eq_Ok split: if_splits)
  obtain e where e: "r = (base, e)" by (rule validate_range_Ok [OF mm_inv_dest(1) [OF inv] r]) auto
  have g: "map_of (vads m) (vad_base v) = Some v" using f by (simp add: find_vad_Ok [OF mm_inv_dest(1) [OF inv]])
  from c r f g e show ?thesis
    by (intro that [of v e]) (auto simp: protect_def attempt_eq_Ok page_range_Ok list_ex_iff split: if_splits)
qed

lemma protect_Ok_inv:
  assumes inv: "mm_inv m" and c: "protect m base sz prot = (Ok n, m')"
  shows "mm_inv m'"
  using inv c
proof (rule protect_Ok)
  fix v e
  let ?ps = "range_pages (base, e)" let ?v = "protect_pages prot ?ps (v\<lparr>vad_protection := prot\<rparr>)"
  assume f: "find_vad m base = Ok v" and r: "validate_range m base sz = Ok (base, e)" and prot: "prot_valid prot"
    and g: "map_of (vads m) (vad_base v) = Some v" and com: "\<forall>p \<in> set ?ps. map_of (vad_pages v) p \<noteq> None"
    and m': "m' = m\<lparr>vads := om_insert (vad_base v) ?v (vads m)\<rparr>"
  note d = mm_inv_dest [OF inv] and g' = vads_ok_get [OF mm_inv_dest(1) [OF inv] g]
  have "vad_pages_ok (vad_base v) ?v" using g'(1) prot com by (fastforce simp: vad_pages_ok_def vad_end_def)
  moreover have "view_ok (sections m) ?v"
    using g'(2) com by (auto simp: view_ok_def vad_end_def split: option.splits)
  ultimately have "vads_ok (m\<lparr>vads := om_insert (vad_base v) ?v (vads m)\<rparr>)"
    by (intro vads_ok_put [OF d(1) g]) simp_all
  moreover have "resident_ok (m\<lparr>vads := om_insert (vad_base v) ?v (vads m)\<rparr>)"
    by (rule resident_ok_put [OF d(3) g]) simp
  moreover have "length (vad_pages ?v) = length (vad_pages v)"
    using g'(1) com by (subst protect_pages_length) (simp_all add: vad_pages_ok_def)
  moreover note private_bytes_put [OF d(5) g, of ?v] view_bytes_put [OF d(5) g, of ?v]
  ultimately show ?thesis using d(2,4)
    by (simp add: m' mm_inv_def vads_ok_def sections_ok_def resident_ok_def counters_ok_def committed_in_def split: if_splits)
qed

lemma protect_cases: "(\<exists>n. fst (protect m base sz prot) = Ok n) \<or> snd (protect m base sz prot) = m"
  by (auto simp: protect_def attempt_def split: res.splits option.splits)

lemma protect_inv: "mm_inv m \<Longrightarrow> mm_inv (snd (protect m base sz prot))"
  using protect_cases [of m base sz prot] by (metis protect_Ok_inv prod.collapse)

lemma vad_pages_bytes:
  assumes "vad_pages_ok b v"
  shows "length (vad_pages v) * PAGE_SIZE \<le> vad_size v"
proof -
  have v: "vad_base v = b" "PAGE_SIZE dvd b" "PAGE_SIZE dvd vad_size v" "om_wf (vad_pages v)" using assms by (simp_all add: vad_pages_ok_def)
  have "fst ` set (vad_pages v) \<subseteq> set (range_pages (b, vad_end v))"
  proof
    fix p assume "p \<in> fst ` set (vad_pages v)"
    then obtain prot where "map_of (vad_pages v) p = Some prot" by (auto simp: om_keys_dom)
    then have "PAGE_SIZE dvd p" "b \<le> p" "p < vad_end v" using assms by (auto simp: vad_pages_ok_def)
    then show "p \<in> set (range_pages (b, vad_end v))" using v(2) by (simp add: set_range_pages_aligned)
  qed
  moreover have "card (fst ` set (vad_pages v)) = length (vad_pages v)"
    using v(4) distinct_card [of "map fst (vad_pages v)"] by (simp add: om_wf_def strict_sorted_iff)
  ultimately have "length (vad_pages v) \<le> length (range_pages (b, vad_end v))"
    by (metis card_length card_mono finite_set order_trans)
  moreover have "length (range_pages (b, vad_end v)) * PAGE_SIZE = vad_size v"
    using v by (subst length_range_pages_aligned) (simp_all add: vad_end_def)
  ultimately show ?thesis by (metis mult_le_mono1)
qed

lemma vad_pages_fit:
  assumes "vad_pages_ok b v"
  shows "length (vad_pages v) * PAGE_SIZE \<le> u64_max"
proof -
  have "vad_size v \<le> USER_LIMIT" using assms by (simp add: vad_pages_ok_def vad_end_def)
  then show ?thesis using vad_pages_bytes [OF assms] by (simp add: USER_LIMIT_def u64_max_def)
qed

lemma committed_count_fits:
  assumes "vad_pages_ok b v"
  shows "committed_count v r * PAGE_SIZE \<le> u64_max"
proof -
  have "committed_count v r = card {p \<in> set (range_pages r). map_of (vad_pages v) p \<noteq> None}"
    unfolding committed_count_def by (subst distinct_card [symmetric]) (simp_all add: distinct_range_pages)
  also have "\<dots> \<le> card (set (map fst (vad_pages v)))" by (rule card_mono) (auto simp: om_keys_dom finite_dom_map_of)
  also have "\<dots> \<le> length (vad_pages v)" using card_length [of "map fst (vad_pages v)"] by simp
  finally show ?thesis using vad_pages_fit [OF assms] by (meson mult_le_mono1 order_trans)
qed

lemma release_inv:
  assumes inv: "mm_inv m"
  shows "mm_inv (snd (release m base sz))"
proof (cases "\<exists>v. map_of (vads m) base = Some v \<and> (sz = 0 \<or> sz = vad_size v)")
  case False
  with inv show ?thesis by (auto simp: release_def split: option.splits)
next
  case True
  then obtain v where g: "map_of (vads m) base = Some v" and sz: "sz = 0 \<or> sz = vad_size v" by blast
  note d = mm_inv_dest [OF inv] and g' = vads_ok_get [OF mm_inv_dest(1) [OF inv] g]
  let ?m = "snd (release m base sz)" let ?ps = "fst ` set (vad_pages v)"
  have m: "?m = m\<lparr>vads := om_remove base (vads m), committed_bytes := committed_bytes m - length (vad_pages v) * PAGE_SIZE,
      mapped_bytes := mapped_bytes m - (if vad_mapping v \<noteq> None then vad_size v else 0),
      resident := resident m - ?ps, resident_order := filter (\<lambda>p. p \<notin> ?ps) (resident_order m)\<rparr>"
    using g sz vad_pages_fit [OF g'(1)] by (auto simp: release_def Let_def evict_pages_eq)
  have "vads_ok ?m" using d(1) by (auto simp: m vads_ok_def vads_disjoint_def split: if_splits)
  moreover have "committed_in ?m p" if p: "p \<in> resident m" "p \<notin> ?ps" for p
  proof -
    obtain c w where cw: "map_of (vads m) c = Some w" "map_of (vad_pages w) p \<noteq> None"
      using d(3) p(1) unfolding resident_ok_def committed_in_def by blast
    then have "c \<noteq> base" using p(2) g by (auto simp: om_keys_dom)
    with cw show ?thesis by (force simp: m committed_in_def)
  qed
  then have "resident_ok ?m"
    using d(3) by (auto simp: m resident_ok_def intro: order_trans [OF length_filter_le])
  moreover have "private_bytes (om_remove base (vads m)) + (if vad_mapping v = None then length (vad_pages v) * PAGE_SIZE else 0) = private_bytes (vads m)"
    "view_bytes (om_remove base (vads m)) + (if vad_mapping v = None then 0 else vad_size v) = view_bytes (vads m)"
    unfolding private_bytes_def view_bytes_def using om_sum_remove [OF d(5) g] by fast+
  then have "counters_ok ?m" using d(4) by (auto simp: m counters_ok_def split: if_splits)
  ultimately show ?thesis using d(2) by (simp add: mm_inv_def sections_ok_def m)
qed

lemma unmap_section_inv: "mm_inv m \<Longrightarrow> mm_inv (snd (unmap_section m base))"
  by (auto simp: unmap_section_def release_inv split: option.splits)

abbreviation new_vad :: "nat \<Rightarrow> nat \<Rightarrow> vad" where
  "new_vad b sz \<equiv> \<lparr>vad_base = b, vad_size = sz, vad_protection = READWRITE, vad_pages = [], vad_private = [], vad_mapping = None\<rparr>"

lemma reserved_inv:
  assumes inv: "mm_inv m" and b: "0 < b" "PAGE_SIZE dvd b" and sz: "0 < sz" "PAGE_SIZE dvd sz" and lim: "b + sz \<le> USER_LIMIT"
    and free: "\<And>c w. map_of (vads m) c = Some w \<Longrightarrow> c + vad_size w \<le> b \<or> b + sz \<le> c"
  shows "mm_inv (m\<lparr>vads := om_insert b (new_vad b sz) (vads m), next_base := max (next_base m) (b + sz)\<rparr>)"
proof -
  note d = mm_inv_dest [OF inv]
  have size: "0 < vad_size w" if "map_of (vads m) c = Some w" for c w
    using vads_ok_get(1) [OF d(1) that] by (simp add: vad_pages_ok_def)
  have none: "map_of (vads m) b = None"
    using free [of b] size [of b] sz by (cases "map_of (vads m) b") auto
  let ?m = "m\<lparr>vads := om_insert b (new_vad b sz) (vads m), next_base := max (next_base m) (b + sz)\<rparr>"
  have "vads_disjoint (vads ?m)"
    unfolding vads_disjoint_def
  proof (intro allI impI)
    fix c c' w w'
    assume "map_of (vads ?m) c = Some w" "map_of (vads ?m) c' = Some w'" "c < c'"
    then show "c + vad_size w \<le> c'"
      using d(1) free [of c w] free [of c' w'] size [of c w] size [of c' w'] sz
      by (auto simp: vads_ok_def vads_disjoint_def split: if_splits)
  qed
  moreover have "vad_pages_ok b (new_vad b sz)" "view_ok (sections m) (new_vad b sz)"
    using b sz lim by (simp_all add: vad_pages_ok_def view_ok_def vad_end_def)
  ultimately have "vads_ok ?m" using d(1) b sz
    by (auto simp: vads_ok_def vad_end_def max_def dest: order_trans)
  moreover have "resident_ok ?m"
    using d(3) none unfolding resident_ok_def committed_in_def by (auto, metis option.discI)
  moreover have "counters_ok ?m"
    using d(4) none by (simp add: counters_ok_def private_bytes_def view_bytes_def om_sum_insert_fresh)
  ultimately show ?thesis using d(2) by (simp add: mm_inv_def sections_ok_def)
qed

lemma find_free_loop_inv:
  assumes "vads_ok m"
  shows "find_free_loop (vads m) (next_base m) sz =
     (if next_base m + sz > u64_max then Err STATUS_INVALID_PARAMETER
      else if next_base m + sz > USER_LIMIT then Err STATUS_NO_MEMORY
      else Ok (next_base m, next_base m + sz))"
proof -
  have "\<not> next_base m < vad_end v" if "om_last_less e (vads m) = Some (k, v)" for e k v
    using assms that by (simp add: vads_ok_def om_last_less_Some) (meson not_less)
  moreover have "\<not> end_traps v" if "om_last_less e (vads m) = Some (k, v)" for e k v
    using assms that by (intro end_fits [OF assms, of k]) (simp add: vads_ok_def om_last_less_Some)
  ultimately show ?thesis
    by (subst find_free_loop.simps) (auto simp: checked_add64_def split: option.splits)
qed

text \<open>A successful \<open>reserve\<close>: the aligned region, where it lies and that it was free.\<close>

lemma reserve_Ok:
  assumes inv: "mm_inv m" and r: "reserve m base sz = (Ok b, m')"
  obtains al where "align_up sz PAGE_SIZE = Some al" "0 < sz" "sz \<le> MAX_REGION_SIZE" "0 < b" "PAGE_SIZE dvd b"
    "b + al \<le> USER_LIMIT" "base = None \<and> b = next_base m \<or> base = Some b"
    "\<And>c w. map_of (vads m) c = Some w \<Longrightarrow> c + vad_size w \<le> b \<or> b + al \<le> c"
    "m' = m\<lparr>vads := om_insert b (new_vad b al) (vads m), next_base := max (next_base m) (b + al)\<rparr>"
proof -
  note ok = mm_inv_dest(1) [OF inv]
  have base: "vad_base w = c" if "map_of (vads m) c = Some w" for c w
    using vads_ok_get(1) [OF ok that] by (simp add: vad_pages_ok_def)
  from r obtain al where al: "align_up sz PAGE_SIZE = Some al" and sz: "0 < sz" "sz \<le> MAX_REGION_SIZE"
    by (auto simp: reserve_def attempt_eq_Ok ok_or_def split: if_splits option.splits)
  show ?thesis
  proof (cases base)
    case None
    with r al sz have "next_base m + al \<le> USER_LIMIT" "b = next_base m"
      "m' = m\<lparr>vads := om_insert b (new_vad b al) (vads m), next_base := next_base m + al\<rparr>"
      by (auto simp: reserve_def find_free_base_def find_free_loop_inv [OF ok] reserve_at_def attempt_eq_Ok ok_or_def
          split: if_splits option.splits)
    moreover have "c + vad_size w \<le> next_base m" if "map_of (vads m) c = Some w" for c w
      using vads_ok_get(3) [OF ok that] base [OF that] by (simp add: vad_end_def)
    ultimately show ?thesis using al sz None ok
      by (intro that [of al]) (auto simp: vads_ok_def)
  next
    case (Some c)
    with r al sz have c: "c = b" "b \<noteq> 0" "b mod PAGE_SIZE = 0" "overlaps m b al = Ok False" "b + al \<le> u64_max" "b + al \<le> USER_LIMIT"
      "m' = m\<lparr>vads := om_insert b (new_vad b al) (vads m), next_base := max (next_base m) (b + al)\<rparr>"
      by (auto simp: reserve_def reserve_at_def attempt_eq_Ok ok_or_def split: if_splits option.splits)
    then have "c + vad_size w \<le> b \<or> b + al \<le> c" if "map_of (vads m) c = Some w" for c w
      using that by (auto simp: overlaps_iff [OF ok c(5)] not_less)
    with c al sz Some show ?thesis by (intro that [of al]) (auto simp: mod_eq_0_iff_dvd)
  qed
qed

lemma reserve_Ok_inv:
  assumes inv: "mm_inv m" and r: "reserve m base sz = (Ok b, m')"
  shows "mm_inv m'"
  using inv r
proof (rule reserve_Ok)
  fix al
  assume "align_up sz PAGE_SIZE = Some al" "0 < sz" "0 < b" "PAGE_SIZE dvd b" "b + al \<le> USER_LIMIT"
    "\<And>c w. map_of (vads m) c = Some w \<Longrightarrow> c + vad_size w \<le> b \<or> b + al \<le> c"
    "m' = m\<lparr>vads := om_insert b (new_vad b al) (vads m), next_base := max (next_base m) (b + al)\<rparr>"
  then show ?thesis using align_up_SomeD [of sz al] by (simp add: reserved_inv [OF inv])
qed

lemma reserve_cases:
  assumes "mm_inv m"
  shows "(\<exists>b. fst (reserve m base sz) = Ok b) \<or> snd (reserve m base sz) = m"
proof -
  note ok = mm_inv_dest(1) [OF assms]
  show ?thesis
    by (auto simp: reserve_def reserve_at_def find_free_base_def find_free_loop_inv [OF ok] overlaps_eq [OF ok] attempt_def ok_or_def
        split: option.splits)
qed

lemma reserve_inv: "mm_inv m \<Longrightarrow> mm_inv (snd (reserve m base sz))"
  using reserve_cases [of m base sz] by (metis reserve_Ok_inv prod.collapse)

section \<open>Sections\<close>

lemma view_ok_mono:
  assumes "view_ok secs v"
    and "\<And>mp s. vad_mapping v = Some mp \<Longrightarrow> map_of secs (mp_section mp) = Some s \<Longrightarrow>
      \<exists>s'. map_of secs' (mp_section mp) = Some s' \<and> length (sec_backing s) \<le> length (sec_backing s')"
  shows "view_ok secs' v"
  using assms by (fastforce simp: view_ok_def split: option.splits)

lemma create_section_inv:
  assumes inv: "mm_inv m"
  shows "mm_inv (snd (create_section m kind sz initial))"
proof (cases "sz = 0 \<or> length initial > sz \<or> sz > MAX_SECTION_SIZE \<or> length (sections m) \<ge> max_sections m")
  case True
  with inv show ?thesis by (auto simp: create_section_def)
next
  case False
  note d = mm_inv_dest [OF inv]
  have none: "map_of (sections m) (next_section m) = None"
    using d(2) by (auto simp: sections_ok_def intro: fresh_ids_absent)
  then have len: "length (om_insert (next_section m) s (sections m)) = Suc (length (sections m))" for s
    by (simp add: om_insert_fresh_length map_of_eq_None_iff)
  have "view_ok (om_insert (next_section m) s (sections m)) v" if "view_ok (sections m) v" for v s
    by (rule view_ok_mono [OF that]) (use none in auto)
  with False d none len show ?thesis
    by (auto simp: create_section_def Let_def mm_inv_def vads_ok_def sections_ok_def resident_ok_def counters_ok_def committed_in_def)
qed

lemma delete_section_inv:
  assumes inv: "mm_inv m"
  shows "mm_inv (snd (delete_section m sid))"
proof (cases "fst (delete_section m sid) = Ok ()")
  case False
  with inv show ?thesis by (auto simp: delete_section_def split: if_splits option.splits)
next
  case True
  note d = mm_inv_dest [OF inv]
  obtain s where s: "map_of (sections m) sid = Some s"
    and free: "\<And>b v mp. map_of (vads m) b = Some v \<Longrightarrow> vad_mapping v = Some mp \<Longrightarrow> mp_section mp \<noteq> sid"
    and m': "snd (delete_section m sid) = m\<lparr>sections := om_remove sid (sections m)\<rparr>"
    using True d(5) by (fastforce simp: delete_section_def list_ex_iff om_get_iff split: if_splits option.splits)
  have "view_ok (om_remove sid (sections m)) v" if "map_of (vads m) b = Some v" for b v
    by (rule view_ok_mono [OF vads_ok_get(2) [OF d(1) that]]) (use free [OF that] in auto)
  moreover have "length (om_remove sid (sections m)) \<le> length (sections m)" by (simp add: om_remove_def)
  ultimately show ?thesis using d unfolding m'
    by (auto simp: mm_inv_def vads_ok_def sections_ok_def resident_ok_def counters_ok_def committed_in_def)
qed

lemma view_pages_set:
  assumes "PAGE_SIZE dvd b" "PAGE_SIZE dvd al"
  shows "p \<in> set (map (\<lambda>i. b + i * PAGE_SIZE) [0 ..< al div PAGE_SIZE]) \<longleftrightarrow> PAGE_SIZE dvd p \<and> b \<le> p \<and> p < b + al"
proof -
  obtain c n where cn: "b = PAGE_SIZE * c" "al = PAGE_SIZE * n" using assms by (auto simp: dvd_def)
  have "p = PAGE_SIZE * c + (k - c) * PAGE_SIZE" "k - c < n"
    if "p = PAGE_SIZE * k" "PAGE_SIZE * c \<le> p" "p < PAGE_SIZE * c + PAGE_SIZE * n" for k
  proof -
    have "c \<le> k" using that by simp
    moreover have "PAGE_SIZE * k < PAGE_SIZE * (c + n)" using that by (simp add: distrib_left)
    then have "k < c + n" by (simp only: mult_less_cancel1)
    ultimately show "k - c < n" "p = PAGE_SIZE * c + (k - c) * PAGE_SIZE"
      using that by (auto simp: algebra_simps diff_mult_distrib2)
  qed
  then have "\<exists>i < n. p = PAGE_SIZE * c + i * PAGE_SIZE"
    if "PAGE_SIZE dvd p" "PAGE_SIZE * c \<le> p" "p < PAGE_SIZE * c + PAGE_SIZE * n"
    using that by (metis dvd_def)
  moreover have "PAGE_SIZE dvd PAGE_SIZE * c + i * PAGE_SIZE" "i < n \<Longrightarrow> i * PAGE_SIZE < PAGE_SIZE * n" for i
    by (simp_all add: mult.commute)
  ultimately show ?thesis by (auto simp: cn image_iff)
qed

lemma map_section_Ok:
  assumes inv: "mm_inv m" and c: "map_section m sid base sz prot cow = (Ok b, m')"
  obtains s al m1 where "map_of (sections m) sid = Some s" "align_up sz PAGE_SIZE = Some al" "al \<le> sec_size s"
    "0 < sz" "prot_valid prot" "reserve m base al = (Ok b, m1)" "map_of (vads m1) b = Some (new_vad b al)"
    "m' = m1\<lparr>vads := om_insert b ((protect_pages prot (map (\<lambda>i. b + i * PAGE_SIZE) [0 ..< al div PAGE_SIZE])
             ((new_vad b al)\<lparr>vad_protection := prot\<rparr>))\<lparr>vad_mapping := Some \<lparr>mp_section = sid, mp_offset = 0, mp_cow = cow\<rparr>\<rparr>) (vads m1),
           mapped_bytes := mapped_bytes m1 + al\<rparr>"
proof -
  from c have pv: "prot_valid prot" by (auto simp: map_section_def split: if_splits)
  from c pv obtain s where s: "map_of (sections m) sid = Some s"
    by (cases "map_of (sections m) sid") (auto simp: map_section_def)
  from c pv s have sz: "0 < sz" "sz \<le> sec_size s" by (auto simp: map_section_def split: if_splits)
  from c pv s sz obtain al where al: "align_up sz PAGE_SIZE = Some al"
    by (cases "align_up sz PAGE_SIZE") (auto simp: map_section_def)
  from c pv s sz al have le: "al \<le> sec_size s" by (auto simp: map_section_def split: if_splits)
  from c pv s sz al le obtain m1 where r: "reserve m base al = (Ok b, m1)"
    by (cases "reserve m base al") (auto simp: map_section_def attempt_eq_Ok Let_def split: option.splits if_splits)
  have g: "map_of (vads m1) b = Some (new_vad b al)"
    using inv r
  proof (rule reserve_Ok)
    fix al'
    assume "align_up al PAGE_SIZE = Some al'"
      and m1: "m1 = m\<lparr>vads := om_insert b (new_vad b al') (vads m), next_base := max (next_base m) (b + al')\<rparr>"
    then have "al' = al" using align_up_aligned [OF al, of al'] by simp
    then show ?thesis by (simp add: m1)
  qed
  from c pv s sz al le r g show ?thesis
    by (intro that [of s al m1]) (auto simp: map_section_def Let_def split: if_splits)
qed

lemma map_section_Ok_inv:
  assumes inv: "mm_inv m" and c: "map_section m sid base sz prot cow = (Ok b, m')"
  shows "mm_inv m'"
  using inv c
proof (rule map_section_Ok)
  fix s al m1
  let ?mp = "\<lparr>mp_section = sid, mp_offset = 0, mp_cow = cow\<rparr>" let ?ps = "map (\<lambda>i. b + i * PAGE_SIZE) [0 ..< al div PAGE_SIZE]"
  let ?v = "(protect_pages prot ?ps ((new_vad b al)\<lparr>vad_protection := prot\<rparr>))\<lparr>vad_mapping := Some ?mp\<rparr>"
  assume s: "map_of (sections m) sid = Some s" and al: "align_up sz PAGE_SIZE = Some al" "al \<le> sec_size s"
    and prot: "prot_valid prot" and r: "reserve m base al = (Ok b, m1)" and g: "map_of (vads m1) b = Some (new_vad b al)"
    and m': "m' = m1\<lparr>vads := om_insert b ?v (vads m1), mapped_bytes := mapped_bytes m1 + al\<rparr>"
  have inv1: "mm_inv m1" by (rule reserve_Ok_inv [OF inv r])
  note d = mm_inv_dest [OF inv1] and g' = vads_ok_get [OF mm_inv_dest(1) [OF inv1] g]
  have secs: "sections m1 = sections m" by (rule reserve_Ok [OF inv r]) simp
  have dvd: "PAGE_SIZE dvd b" "PAGE_SIZE dvd al" using g'(1) by (simp_all add: vad_pages_ok_def)
  then have ps: "p \<in> set ?ps \<longleftrightarrow> PAGE_SIZE dvd p \<and> b \<le> p \<and> p < b + al" for p
    by (rule view_pages_set)
  have "vad_pages_ok b ?v" using g'(1) prot ps by (auto simp: vad_pages_ok_def vad_end_def)
  moreover have "view_ok (sections m1) ?v"
    using s al mm_inv_dest(2) [OF inv] ps by (auto simp: view_ok_def secs sections_ok_def vad_end_def)
  ultimately have "vads_ok (m1\<lparr>vads := om_insert b ?v (vads m1)\<rparr>)"
    by (intro vads_ok_put [OF d(1) g]) simp_all
  moreover have "resident_ok (m1\<lparr>vads := om_insert b ?v (vads m1)\<rparr>)"
    by (rule resident_ok_put [OF d(3) g]) simp
  moreover note private_bytes_put [OF d(5) g, of ?v] view_bytes_put [OF d(5) g, of ?v]
  ultimately show ?thesis using d(2,4)
    by (simp add: m' mm_inv_def vads_ok_def sections_ok_def resident_ok_def counters_ok_def committed_in_def)
qed

lemma map_section_cases:
  assumes "mm_inv m"
  shows "(\<exists>b. fst (map_section m sid base sz prot cow) = Ok b) \<or>
     mm_inv (snd (map_section m sid base sz prot cow))"
proof -
  have "mm_inv (snd (reserve m base al))" for al using reserve_inv [OF assms] .
  then show ?thesis using assms
    by (auto simp: map_section_def attempt_def ok_or_def Let_def split: res.splits option.splits prod.splits)
      (metis snd_conv)+
qed

lemma map_section_inv: "mm_inv m \<Longrightarrow> mm_inv (snd (map_section m sid base sz prot cow))"
  using map_section_cases [of m sid base sz prot cow] by (metis map_section_Ok_inv prod.collapse)

section \<open>The working set\<close>

lemma drop_excess_eq:
  "distinct order \<Longrightarrow> drop_excess limit (set order) order n =
     Ok (n + (length order - limit), set (drop (length order - limit) order), drop (length order - limit) order)"
proof (induction order arbitrary: n)
  case (Cons p order)
  show ?case
  proof (cases "length (p # order) > limit")
    case True
    then have "Suc (length order) - limit = Suc (length order - limit)" by simp
    with True Cons show ?thesis by (simp add: distinct_card)
  next
    case False
    with Cons.prems show ?thesis by (simp add: distinct_card)
  qed
qed simp

lemma trim_working_set_eq:
  assumes "resident_ok m"
  shows "trim_working_set m target =
     (let k = length (resident_order m) - target
      in (Ok k, m\<lparr>resident := set (drop k (resident_order m)), resident_order := drop k (resident_order m)\<rparr>))"
  using assms drop_excess_eq [of "resident_order m" target 0]
  by (simp add: trim_working_set_def resident_ok_def Let_def)

lemma resident_ok_drop:
  assumes "resident_ok m"
  shows "resident_ok (m\<lparr>resident := set (drop k (resident_order m)), resident_order := drop k (resident_order m)\<rparr>)"
  using assms by (auto simp: resident_ok_def committed_in_def dest: in_set_dropD)

lemma trim_working_set_inv: "mm_inv m \<Longrightarrow> mm_inv (snd (trim_working_set m target))"
  using resident_ok_drop [of m] by (simp add: trim_working_set_eq mm_inv_dest Let_def)
    (simp add: mm_inv_def vads_ok_def sections_ok_def counters_ok_def)

text \<open>Touching changes only the resident set and its order.\<close>

lemma touch_eq:
  assumes "resident_ok m"
  shows "touch m page =
     (Ok (), if page \<in> resident m then m
             else let order = drop (Suc (length (resident_order m)) - max_working_set m) (resident_order m @ [page])
                  in m\<lparr>resident := set order, resident_order := order\<rparr>)"
proof (cases "page \<in> resident m")
  case False
  with assms have "drop_excess (max_working_set m) (insert page (resident m)) (resident_order m @ [page]) 0 =
      Ok (Suc (length (resident_order m)) - max_working_set m,
        set (drop (Suc (length (resident_order m)) - max_working_set m) (resident_order m @ [page])),
        drop (Suc (length (resident_order m)) - max_working_set m) (resident_order m @ [page]))"
    using drop_excess_eq [of "resident_order m @ [page]" "max_working_set m" 0] by (simp add: resident_ok_def)
  with False show ?thesis by (simp add: touch_def Let_def)
qed (simp add: touch_def)

lemma touch_inv:
  assumes inv: "mm_inv m" and p: "committed_in m page"
  shows "fst (touch m page) = Ok () \<and> mm_inv (snd (touch m page))"
proof (cases "page \<in> resident m")
  case True
  with assms show ?thesis by (simp add: touch_def)
next
  case False
  note d = mm_inv_dest [OF inv]
  let ?o = "drop (Suc (length (resident_order m)) - max_working_set m) (resident_order m @ [page])"
  have "set ?o \<subseteq> insert page (resident m)"
    using d(3) set_drop_subset [of _ "resident_order m @ [page]"] by (auto simp: resident_ok_def simp del: drop_append)
  then have "\<forall>q \<in> set ?o. committed_in m q" using d(3) p unfolding resident_ok_def by blast
  then have "resident_ok (m\<lparr>resident := set ?o, resident_order := ?o\<rparr>)"
    using d(3) False by (auto simp: resident_ok_def committed_in_def simp del: drop_append)
  then show ?thesis using False d by (simp add: touch_eq Let_def mm_inv_def vads_ok_def sections_ok_def counters_ok_def)
qed

lemma touch_frame:
  "vads (snd (touch m page)) = vads m" "sections (snd (touch m page)) = sections m"
  "resident_ok m \<Longrightarrow> \<exists>rs order. touch m page = (Ok (), m\<lparr>resident := rs, resident_order := order\<rparr>)"
proof -
  show "vads (snd (touch m page)) = vads m" "sections (snd (touch m page)) = sections m"
    by (auto simp: touch_def attempt_def split: res.splits)
  show "\<exists>rs order. touch m page = (Ok (), m\<lparr>resident := rs, resident_order := order\<rparr>)" if "resident_ok m"
  proof (cases "page \<in> resident m")
    case True
    have "m = m\<lparr>resident := resident m, resident_order := resident_order m\<rparr>" by simp
    with True show ?thesis by (metis touch_def)
  next
    case False
    then show ?thesis by (auto simp: touch_eq [OF that] Let_def)
  qed
qed

end
