(* ===== verification/Memory_Access.thy ===== *)
theory Memory_Access
  imports Memory_Inv
begin

text \<open>
  Reading and writing, byte by byte. \<open>peek\<close> is the abstract memory: the byte each committed address
  holds, taken from the private page or from the section behind the view. \<open>read\<close> returns the bytes of
  the abstract memory and leaves it alone; \<open>write\<close> replaces exactly the addressed bytes in a private
  region or a copy-on-write view, and in a shared view the bytes of the section, hence of
  every view of it.
\<close>

section \<open>The abstract memory\<close>

definition page_of :: "nat \<Rightarrow> nat" where
  "page_of a = a div PAGE_SIZE * PAGE_SIZE"

definition vbyte :: "(nat, mem_section) omap \<Rightarrow> vad \<Rightarrow> nat \<Rightarrow> u8" where
  "vbyte secs v a =
     (case map_of (vad_private v) (page_of a) of
        Some bytes \<Rightarrow> bytes ! (a mod PAGE_SIZE)
      | None \<Rightarrow> (case vad_mapping v of
          None \<Rightarrow> 0
        | Some mp \<Rightarrow> (case map_of secs (mp_section mp) of
            None \<Rightarrow> 0
          | Some s \<Rightarrow> sec_backing s ! (mp_offset mp + (a - vad_base v)))))"

definition peek :: "memory_manager \<Rightarrow> nat \<Rightarrow> u8 option" where
  "peek m a = (case find_vad m a of
     Ok v \<Rightarrow> (if map_of (vad_pages v) (page_of a) = None then None else Some (vbyte (sections m) v a))
   | _ \<Rightarrow> None)"

lemma page_of_eq: "PAGE_SIZE dvd p \<Longrightarrow> p \<le> a \<Longrightarrow> a < p + PAGE_SIZE \<Longrightarrow> page_of a = p"
  by (simp add: page_of_def page_of_in)

lemma page_of_bounds: "PAGE_SIZE dvd page_of a" "page_of a \<le> a" "a < page_of a + PAGE_SIZE" "page_of a + a mod PAGE_SIZE = a"
proof -
  have "a div PAGE_SIZE * PAGE_SIZE + a mod PAGE_SIZE = a" by (rule div_mult_mod_eq)
  moreover have "a mod PAGE_SIZE < PAGE_SIZE" by simp
  ultimately show "PAGE_SIZE dvd page_of a" "page_of a \<le> a" "a < page_of a + PAGE_SIZE" "page_of a + a mod PAGE_SIZE = a"
    unfolding page_of_def by (simp, linarith, linarith, simp)
qed

lemma page_offset: "PAGE_SIZE dvd p \<Longrightarrow> i < PAGE_SIZE \<Longrightarrow> page_of (p + i) = p \<and> (p + i) mod PAGE_SIZE = i"
  by (auto simp: dvd_def page_of_def)

lemma page_of_in_range:
  assumes "cursor \<le> a" "a < e"
  shows "page_of a \<in> set (range_pages (cursor, e))"
  using assms page_of_bounds [of a] by (simp add: set_range_pages)

lemma range_page_has_address:
  assumes "cursor < e" "p \<in> set (range_pages (cursor, e))"
  obtains a where "cursor \<le> a" "a < e" "page_of a = p"
proof -
  have p: "PAGE_SIZE dvd p" "cursor < p + PAGE_SIZE" "p < e" using assms by (simp_all add: set_range_pages)
  have "page_of (max cursor p) = p" using p by (intro page_of_eq) simp_all
  then show ?thesis using that [of "max cursor p"] p assms by simp
qed

lemma vad_page_end:
  assumes "vad_pages_ok b v" "map_of (vad_pages v) p \<noteq> None"
  shows "PAGE_SIZE dvd p" "b \<le> p" "p + PAGE_SIZE \<le> vad_end v"
proof -
  from assms have p: "PAGE_SIZE dvd p" "b \<le> p" "p < vad_end v" by (auto simp: vad_pages_ok_def)
  moreover have "PAGE_SIZE dvd vad_end v" using assms(1) by (auto simp: vad_pages_ok_def vad_end_def)
  ultimately show "PAGE_SIZE dvd p" "b \<le> p" "p + PAGE_SIZE \<le> vad_end v"
    by (auto simp: dvd_def PAGE_SIZE_def)
qed

lemma page_bytes_spec:
  assumes ok: "vads_ok m" and v: "map_of (vads m) b = Some v" and p: "map_of (vad_pages v) p \<noteq> None"
  obtains bs where "page_bytes m b p = Ok bs" "length bs = PAGE_SIZE"
    "\<forall>i < PAGE_SIZE. bs ! i = vbyte (sections m) v (p + i)"
proof -
  note g = vads_ok_get [OF ok v] and e = vad_page_end [OF vads_ok_get(1) [OF ok v] p]
  have base: "vad_base v = b" using g(1) by (simp add: vad_pages_ok_def)
  show ?thesis
  proof (cases "map_of (vad_private v) p")
    case (Some bs)
    have "length bs = PAGE_SIZE" using g(1) Some by (auto simp: vad_pages_ok_def)
    with Some v show ?thesis
      by (intro that [of bs]) (simp_all add: page_bytes_def vbyte_def page_offset [OF e(1)])
  next
    case None
    then obtain mp where mp: "vad_mapping v = Some mp" using g(2) p by (auto simp: view_ok_def split: option.splits)
    with g(2) obtain s where s: "map_of (sections m) (mp_section mp) = Some s" "vad_size v \<le> length (sec_backing s)"
      "mp_offset mp = 0" by (auto simp: view_ok_def)
    have "p - b + PAGE_SIZE \<le> length (sec_backing s)" using e base s(2) by (simp add: vad_end_def)
    then show ?thesis using None v mp s e base
      by (intro that [of "take PAGE_SIZE (drop (p - b) (sec_backing s))"])
        (simp_all add: page_bytes_def vbyte_def page_offset [OF e(1)])
  qed
qed

section \<open>Access checks\<close>

lemma check_pages_Ok:
  "check_pages v wr ps = Ok () \<longleftrightarrow>
     (\<forall>p \<in> set ps. \<exists>prot. map_of (vad_pages v) p = Some prot \<and> (if wr then writable prot else readable prot))"
  by (induction v wr ps rule: check_pages.induct) (auto split: option.splits)

lemma check_pages_not_Panic [simp]: "check_pages v wr ps \<noteq> Panic"
  by (induction v wr ps rule: check_pages.induct) (auto split: option.splits)

lemma check_access_not_Panic: "vads_ok m \<Longrightarrow> check_access m a e wr \<noteq> Panic"
  using find_vad_not_Panic [of m a] by (auto simp: check_access_def rbind_neq_Panic region_range_fits)

text \<open>The contract of the access check: one region, and every touched page has the right.\<close>

definition accessible :: "memory_manager \<Rightarrow> nat \<Rightarrow> nat \<Rightarrow> bool \<Rightarrow> bool" where
  "accessible m a e wr \<longleftrightarrow> (\<exists>v. find_vad m a = Ok v \<and> e \<le> vad_end v \<and>
     (\<forall>x. a \<le> x \<and> x < e \<longrightarrow>
       (\<exists>prot. map_of (vad_pages v) (page_of x) = Some prot \<and> (if wr then writable prot else readable prot))))"

lemma check_access_iff:
  assumes "a < e"
  shows "check_access m a e wr = Ok () \<Longrightarrow> accessible m a e wr"
    and "vads_ok m \<Longrightarrow> check_access m a e wr = Ok () \<longleftrightarrow> accessible m a e wr"
proof -
  have "(\<forall>p \<in> set (range_pages (a, e)). Q p) \<longleftrightarrow> (\<forall>x. a \<le> x \<and> x < e \<longrightarrow> Q (page_of x))" for Q
    using page_of_in_range [of a _ e] range_page_has_address [OF assms] by metis
  note r = this
  show 1: "accessible m a e wr" if "check_access m a e wr = Ok ()"
    using that by (auto simp: check_access_def accessible_def rbind_eq_Ok page_range_Ok check_pages_Ok r split: if_splits)
  show "check_access m a e wr = Ok () \<longleftrightarrow> accessible m a e wr" if ok: "vads_ok m"
  proof
    assume "accessible m a e wr"
    then show "check_access m a e wr = Ok ()"
      by (auto simp: check_access_def accessible_def region_range_fits [OF ok] check_pages_Ok r)
  qed (rule 1)
qed

section \<open>Reading\<close>

lemma touch_keeps:
  assumes inv: "mm_inv m" and p: "committed_in m page"
  obtains rs order where "touch m page = (Ok (), m\<lparr>resident := rs, resident_order := order\<rparr>)"
    "mm_inv (m\<lparr>resident := rs, resident_order := order\<rparr>)"
  using touch_frame(3) [OF mm_inv_dest(3) [OF inv], of page] touch_inv [OF inv p] by auto

lemma upt_split_map:
  "cursor + n \<le> e \<Longrightarrow> map f [cursor ..< e] = map f [cursor ..< cursor + n] @ map f [cursor + n ..< e]"
  by (metis le_add1 le_add_diff_inverse map_append upt_add_eq_append)

lemma read_loop_spec:
  assumes "mm_inv m" "map_of (vads m) vb = Some v" "\<And>a. cursor \<le> a \<Longrightarrow> a < e \<Longrightarrow> map_of (vad_pages v) (page_of a) \<noteq> None"
  shows "\<exists>rs order. read_loop m vb cursor e out =
     (Ok (out @ map (vbyte (sections m) v) [cursor ..< e]), m\<lparr>resident := rs, resident_order := order\<rparr>) \<and>
     mm_inv (m\<lparr>resident := rs, resident_order := order\<rparr>)"
  using assms
proof (induction "e - cursor" arbitrary: m cursor out rule: less_induct)
  case less
  show ?case
  proof (cases "cursor < e")
    case False
    then have "read_loop m vb cursor e out = (Ok out, m)" by (subst read_loop.simps) simp
    with False less.prems(1) show ?thesis
      by (intro exI [of _ "resident m"] exI [of _ "resident_order m"]) simp
  next
    case True
    let ?p = "page_of cursor" let ?o = "cursor mod PAGE_SIZE" let ?n = "min (PAGE_SIZE - ?o) (e - cursor)"
    have dec: "e - (cursor + ?n) < e - cursor" using True by (rule chunk_decreases) simp
    have fit: "\<not> PAGE_SIZE < ?o + ?n" using mod_less_divisor [OF PAGE_SIZE_pos(1), of cursor] by linarith
    have p: "map_of (vad_pages v) ?p \<noteq> None" using less.prems(3) True by simp
    obtain bs where bs: "page_bytes m vb ?p = Ok bs" "length bs = PAGE_SIZE" "\<forall>i < PAGE_SIZE. bs ! i = vbyte (sections m) v (?p + i)"
      by (rule page_bytes_spec [OF mm_inv_dest(1) [OF less.prems(1)] less.prems(2) p])
    have po: "?p + ?o = cursor" by (rule page_of_bounds)
    have "bs ! (?o + i) = vbyte (sections m) v (cursor + i)" if "?o + i < PAGE_SIZE" for i
      using bs(3) [rule_format, OF that] po by (metis add.assoc)
    then have chunk: "take ?n (drop ?o bs) = map (vbyte (sections m) v) [cursor ..< cursor + ?n]"
      using bs(2) by (intro nth_equalityI) (simp_all add: less_diff_conv add.commute)
    have "committed_in m ?p" using less.prems(2) p by (auto simp: committed_in_def)
    then obtain rs order where t: "touch m ?p = (Ok (), m\<lparr>resident := rs, resident_order := order\<rparr>)"
      and inv1: "mm_inv (m\<lparr>resident := rs, resident_order := order\<rparr>)" by (rule touch_keeps [OF less.prems(1)])
    let ?m1 = "m\<lparr>resident := rs, resident_order := order\<rparr>"
    have "\<exists>rs order. read_loop ?m1 vb (cursor + ?n) e (out @ map (vbyte (sections m) v) [cursor ..< cursor + ?n]) =
       (Ok ((out @ map (vbyte (sections m) v) [cursor ..< cursor + ?n]) @ map (vbyte (sections ?m1) v) [cursor + ?n ..< e]),
        ?m1\<lparr>resident := rs, resident_order := order\<rparr>) \<and> mm_inv (?m1\<lparr>resident := rs, resident_order := order\<rparr>)"
      using less.prems(2,3) dec by (intro less.hyps inv1) auto
    moreover have "read_loop m vb cursor e out = read_loop ?m1 vb (cursor + ?n) e (out @ map (vbyte (sections m) v) [cursor ..< cursor + ?n])"
      using True bs(1,2) t chunk fit by (subst read_loop.simps) (simp add: Let_def page_of_def [symmetric])
    moreover have "cursor + ?n \<le> e" using True by simp
    ultimately show ?thesis by (simp add: upt_split_map [of cursor ?n e])
  qed
qed

section \<open>Writing one page\<close>

definition shared_view :: "vad \<Rightarrow> bool" where
  "shared_view v \<longleftrightarrow> (\<exists>mp. vad_mapping v = Some mp \<and> \<not> mp_cow mp)"

lemma copy_at_length [simp]: "off + length d \<le> length bs \<Longrightarrow> length (copy_at off d bs) = length bs"
  by (simp add: copy_at_def)

lemma copy_at_nth:
  "off + length d \<le> length bs \<Longrightarrow> i < length bs \<Longrightarrow>
     copy_at off d bs ! i = (if off \<le> i \<and> i < off + length d then d ! (i - off) else bs ! i)"
  by (auto simp: copy_at_def nth_append min_def)

lemma copy_at_Nil [simp]: "copy_at k [] bs = bs"
  by (simp add: copy_at_def)

lemma copy_at_append:
  "k + length d1 + length d2 \<le> length bs \<Longrightarrow> copy_at (k + length d1) d2 (copy_at k d1 bs) = copy_at k (d1 @ d2) bs"
  by (rule nth_equalityI) (auto simp: copy_at_nth nth_append)

lemma put_private_inv:
  assumes inv: "mm_inv m" and v: "map_of (vads m) b = Some v" and p: "map_of (vad_pages v) p \<noteq> None"
    and bs: "length bs = PAGE_SIZE" and own: "\<not> shared_view v"
  shows "mm_inv (m\<lparr>vads := om_insert b (v\<lparr>vad_private := om_insert p bs (vad_private v)\<rparr>) (vads m)\<rparr>)"
proof -
  note d = mm_inv_dest [OF inv] and g = vads_ok_get [OF mm_inv_dest(1) [OF inv] v]
  let ?v = "v\<lparr>vad_private := om_insert p bs (vad_private v)\<rparr>"
  have "vad_pages_ok b ?v" using g(1) p bs by (auto simp: vad_pages_ok_def vad_end_def)
  moreover have "view_ok (sections m) ?v"
    using g(2) own by (auto simp: view_ok_def shared_view_def vad_end_def split: option.splits)
  ultimately have "vads_ok (m\<lparr>vads := om_insert b ?v (vads m)\<rparr>)" by (intro vads_ok_put [OF d(1) v]) simp_all
  moreover have "resident_ok (m\<lparr>vads := om_insert b ?v (vads m)\<rparr>)" by (rule resident_ok_put [OF d(3) v]) simp
  moreover note private_bytes_put [OF d(5) v, of ?v] view_bytes_put [OF d(5) v, of ?v]
  ultimately show ?thesis using d(2,4)
    by (simp add: mm_inv_def sections_ok_def counters_ok_def split: if_splits)
qed

text \<open>Private pages and copy-on-write views: the region gets its own page with the new bytes.\<close>

lemma write_page_own:
  assumes inv: "mm_inv m" and v: "map_of (vads m) vb = Some v" and p: "map_of (vad_pages v) p \<noteq> None"
    and own: "\<not> shared_view v" and len: "off + length d \<le> PAGE_SIZE"
  obtains bs where
    "write_page m vb p off d = (Ok (), m\<lparr>vads := om_insert vb (v\<lparr>vad_private := om_insert p bs (vad_private v)\<rparr>) (vads m)\<rparr>)"
    "length bs = PAGE_SIZE"
    "\<forall>i < PAGE_SIZE. bs ! i = (if off \<le> i \<and> i < off + length d then d ! (i - off) else vbyte (sections m) v (p + i))"
proof -
  obtain source where s: "page_bytes m vb p = Ok source" "length source = PAGE_SIZE"
    "\<forall>i < PAGE_SIZE. source ! i = vbyte (sections m) v (p + i)"
    by (rule page_bytes_spec [OF mm_inv_dest(1) [OF inv] v p])
  have "write_page m vb p off d =
      (Ok (), m\<lparr>vads := om_insert vb (v\<lparr>vad_private := om_insert p (copy_at off d source) (vad_private v)\<rparr>) (vads m)\<rparr>)"
  proof (cases "vad_mapping v")
    case None
    then obtain bs where "map_of (vad_private v) p = Some bs"
      using vads_ok_get(2) [OF mm_inv_dest(1) [OF inv] v] p by (auto simp: view_ok_private)
    then show ?thesis using None v s len by (simp add: write_page_def page_bytes_def)
  next
    case (Some mp)
    then have "mp_cow mp" using own by (simp add: shared_view_def)
    then show ?thesis using Some v s len
      by (cases "map_of (vad_private v) p") (auto simp: write_page_def Let_def page_bytes_def)
  qed
  then show ?thesis using s len by (intro that [of "copy_at off d source"]) (simp_all add: copy_at_nth)
qed

lemma vbyte_put:
  assumes "PAGE_SIZE dvd p"
    and "\<forall>i < PAGE_SIZE. bs ! i = (if off \<le> i \<and> i < off + n then d ! (i - off) else vbyte secs v (p + i))"
    and "off + n \<le> PAGE_SIZE"
  shows "vbyte secs (v\<lparr>vad_private := om_insert p bs (vad_private v)\<rparr>) a =
     (if p + off \<le> a \<and> a < p + off + n then d ! (a - (p + off)) else vbyte secs v a)"
proof (cases "page_of a = p")
  case True
  then have a: "a = p + a mod PAGE_SIZE" using page_of_bounds(4) [of a] by simp
  have "vbyte secs (v\<lparr>vad_private := om_insert p bs (vad_private v)\<rparr>) a = bs ! (a mod PAGE_SIZE)"
    using True by (simp add: vbyte_def)
  also have "\<dots> = (if off \<le> a mod PAGE_SIZE \<and> a mod PAGE_SIZE < off + n then d ! (a mod PAGE_SIZE - off) else vbyte secs v a)"
    using assms(2) [rule_format, of "a mod PAGE_SIZE"] a by simp
  also have "\<dots> = (if p + off \<le> a \<and> a < p + off + n then d ! (a - (p + off)) else vbyte secs v a)"
  proof -
    obtain i where i: "a mod PAGE_SIZE = i" "a = p + i" using a by blast
    show ?thesis unfolding i(1) by (simp add: i(2))
  qed
  finally show ?thesis .
next
  case False
  have "\<not> (p + off \<le> a \<and> a < p + off + n)"
  proof
    assume "p + off \<le> a \<and> a < p + off + n"
    then have "page_of a = p" using assms(3) by (intro page_of_eq [OF assms(1)]) auto
    with False show False by simp
  qed
  moreover have "vbyte secs (v\<lparr>vad_private := om_insert p bs (vad_private v)\<rparr>) a = vbyte secs v a"
    using False by (simp add: vbyte_def cong: option.case_cong)
  ultimately show ?thesis by auto
qed

section \<open>The loop of writes\<close>

lemma write_chunk:
  assumes "cursor < e" "e - cursor = length data - written" "written \<le> length data"
  obtains n d where "0 < n" "length d = n" "cursor + n \<le> e" "written + n \<le> length data" "cursor mod PAGE_SIZE + length d \<le> PAGE_SIZE"
    "\<forall>i < n. d ! i = data ! (written + i)" "d @ drop (written + n) data = drop written data"
    "\<forall>m vb m1 m2. write_page m vb (page_of cursor) (cursor mod PAGE_SIZE) d = (Ok (), m1) \<longrightarrow> touch m1 (page_of cursor) = (Ok (), m2) \<longrightarrow>
       write_loop m vb cursor e data written = write_loop m2 vb (cursor + n) e data (written + n)"
proof -
  define n where "n = min (PAGE_SIZE - cursor mod PAGE_SIZE) (length data - written)"
  define d where "d = take n (drop written data)"
  have o: "cursor mod PAGE_SIZE < PAGE_SIZE" by simp
  have n: "0 < n" "n \<le> length data - written" "cursor mod PAGE_SIZE + n \<le> PAGE_SIZE" using o assms unfolding n_def by linarith+
  have len: "length d = n" using n(2) by (simp add: d_def)
  have loop: "write_loop m vb cursor e data written = write_loop m2 vb (cursor + n) e data (written + n)"
    if "write_page m vb (page_of cursor) (cursor mod PAGE_SIZE) d = (Ok (), m1)" "touch m1 (page_of cursor) = (Ok (), m2)" for m vb m1 m2
    using that assms(1) n(1) unfolding d_def
    by (subst write_loop.simps) (simp only: Let_def page_of_def [symmetric] n_def [symmetric] if_True split_conv attempt_simps not_gr0 if_False, simp)
  have app: "d @ drop (written + n) data = drop written data"
    unfolding d_def by (metis add.commute append_take_drop_id drop_drop)
  show ?thesis
    using n len loop app assms by (intro that [of n d]) (simp_all add: d_def)
qed

lemma write_loop_own:
  assumes "mm_inv m" "map_of (vads m) vb = Some v" "\<not> shared_view v"
    "\<And>a. cursor \<le> a \<Longrightarrow> a < e \<Longrightarrow> map_of (vad_pages v) (page_of a) \<noteq> None"
    "e - cursor = length data - written" "written \<le> length data"
  shows "\<exists>pr rs order. let m' = m\<lparr>vads := om_insert vb (v\<lparr>vad_private := pr\<rparr>) (vads m), resident := rs, resident_order := order\<rparr>
     in write_loop m vb cursor e data written = (Ok (), m') \<and> mm_inv m' \<and>
        (\<forall>a. vbyte (sections m) (v\<lparr>vad_private := pr\<rparr>) a =
           (if cursor \<le> a \<and> a < e then data ! (written + (a - cursor)) else vbyte (sections m) v a))"
  using assms
proof (induction "e - cursor" arbitrary: m v cursor written rule: less_induct)
  case less
  note inv = less.prems(1) and v = less.prems(2)
  show ?case
  proof (cases "cursor < e")
    case False
    then have "write_loop m vb cursor e data written = (Ok (), m)" by (subst write_loop.simps) simp
    moreover have "om_insert vb v (vads m) = vads m" using mm_inv_dest(5) [OF inv] v by (rule om_insert_same)
    ultimately show ?thesis using False inv
      by (intro exI [of _ "vad_private v"] exI [of _ "resident m"] exI [of _ "resident_order m"]) auto
  next
    case True
    let ?p = "page_of cursor" let ?o = "cursor mod PAGE_SIZE"
    obtain n d where n: "0 < n" "length d = n" "cursor + n \<le> e" "written + n \<le> length data" "?o + length d \<le> PAGE_SIZE"
      "\<forall>i < n. d ! i = data ! (written + i)" "d @ drop (written + n) data = drop written data"
      "\<forall>m vb m1 m2. write_page m vb ?p ?o d = (Ok (), m1) \<longrightarrow> touch m1 ?p = (Ok (), m2) \<longrightarrow>
         write_loop m vb cursor e data written = write_loop m2 vb (cursor + n) e data (written + n)"
      by (rule write_chunk [OF True less.prems(5,6)])
    have p: "map_of (vad_pages v) ?p \<noteq> None" using less.prems(4) True by simp
    have po: "?p + ?o = cursor" and dvd: "PAGE_SIZE dvd ?p" by (rule page_of_bounds)+
    obtain bs where w: "write_page m vb ?p ?o d = (Ok (), m\<lparr>vads := om_insert vb (v\<lparr>vad_private := om_insert ?p bs (vad_private v)\<rparr>) (vads m)\<rparr>)"
      and bs: "length bs = PAGE_SIZE" "\<forall>i < PAGE_SIZE. bs ! i = (if ?o \<le> i \<and> i < ?o + length d then d ! (i - ?o) else vbyte (sections m) v (?p + i))"
      by (rule write_page_own [OF inv v p less.prems(3) n(5)])
    let ?v1 = "v\<lparr>vad_private := om_insert ?p bs (vad_private v)\<rparr>" let ?m1 = "m\<lparr>vads := om_insert vb ?v1 (vads m)\<rparr>"
    have inv1: "mm_inv ?m1" by (rule put_private_inv [OF inv v p bs(1) less.prems(3)])
    have vb1: "vbyte (sections m) ?v1 a = (if cursor \<le> a \<and> a < cursor + n then data ! (written + (a - cursor)) else vbyte (sections m) v a)" for a
      using vbyte_put [OF dvd bs(2) n(5), of a] n(6) unfolding po n(2) by auto
    have "committed_in ?m1 ?p" using p by (force simp: committed_in_def)
    then obtain rs order where t: "touch ?m1 ?p = (Ok (), ?m1\<lparr>resident := rs, resident_order := order\<rparr>)"
      and inv2: "mm_inv (?m1\<lparr>resident := rs, resident_order := order\<rparr>)" by (rule touch_keeps [OF inv1])
    let ?m2 = "?m1\<lparr>resident := rs, resident_order := order\<rparr>"
    have "\<exists>pr rs order. let m' = ?m2\<lparr>vads := om_insert vb (?v1\<lparr>vad_private := pr\<rparr>) (vads ?m2), resident := rs, resident_order := order\<rparr>
     in write_loop ?m2 vb (cursor + n) e data (written + n) = (Ok (), m') \<and> mm_inv m' \<and>
        (\<forall>a. vbyte (sections ?m2) (?v1\<lparr>vad_private := pr\<rparr>) a =
           (if cursor + n \<le> a \<and> a < e then data ! (written + n + (a - (cursor + n))) else vbyte (sections ?m2) ?v1 a))"
      using less.prems True n by (intro less.hyps inv2) (auto simp: shared_view_def)
    then obtain pr rs' order' where r: "write_loop ?m2 vb (cursor + n) e data (written + n) =
        (Ok (), m\<lparr>vads := om_insert vb (v\<lparr>vad_private := pr\<rparr>) (vads m), resident := rs', resident_order := order'\<rparr>)"
      "mm_inv (m\<lparr>vads := om_insert vb (v\<lparr>vad_private := pr\<rparr>) (vads m), resident := rs', resident_order := order'\<rparr>)"
      "\<And>a. vbyte (sections m) (v\<lparr>vad_private := pr\<rparr>) a =
         (if cursor + n \<le> a \<and> a < e then data ! (written + n + (a - (cursor + n))) else vbyte (sections m) ?v1 a)"
      by (auto simp: Let_def)
    have "vbyte (sections m) (v\<lparr>vad_private := pr\<rparr>) a =
        (if cursor \<le> a \<and> a < e then data ! (written + (a - cursor)) else vbyte (sections m) v a)" for a
      unfolding r(3) vb1 using True n(3) by (auto simp: not_le)
    then show ?thesis using r(1,2) n(8) w t
      by (intro exI [of _ pr] exI [of _ rs'] exI [of _ order']) (simp add: Let_def)
  qed
qed

text \<open>Shared views: the bytes of the section change, the regions do not.\<close>

lemma put_backing_inv:
  assumes inv: "mm_inv m" and s: "map_of (sections m) i = Some s" and len: "length bs = length (sec_backing s)"
  shows "mm_inv (m\<lparr>sections := om_insert i (s\<lparr>sec_backing := bs\<rparr>) (sections m)\<rparr>)"
proof -
  note d = mm_inv_dest [OF inv]
  have "view_ok (om_insert i (s\<lparr>sec_backing := bs\<rparr>) (sections m)) v" if "view_ok (sections m) v" for v
    by (rule view_ok_mono [OF that]) (use s len in auto)
  moreover have "length (om_insert i (s\<lparr>sec_backing := bs\<rparr>) (sections m)) = length (sections m)"
    using d(2) s by (intro om_insert_present_length) (auto simp: sections_ok_def om_keys_dom dest: fresh_ids_wf)
  moreover have "fresh_ids (om_insert i (s\<lparr>sec_backing := bs\<rparr>) (sections m)) (next_section m)"
    using d(2) s by (auto simp: sections_ok_def dest: fresh_ids_bound)
  ultimately show ?thesis using d s len
    by (auto simp: mm_inv_def vads_ok_def sections_ok_def resident_ok_def counters_ok_def committed_in_def)
qed

lemma write_page_shared:
  assumes inv: "mm_inv m" and v: "map_of (vads m) vb = Some v" and p: "map_of (vad_pages v) p \<noteq> None"
    and mp: "vad_mapping v = Some mp" "\<not> mp_cow mp" and s: "map_of (sections m) (mp_section mp) = Some s"
    and len: "off + length d \<le> PAGE_SIZE"
  shows "write_page m vb p off d =
     (Ok (), m\<lparr>sections := om_insert (mp_section mp) (s\<lparr>sec_backing := copy_at (p + off - vb) d (sec_backing s)\<rparr>) (sections m)\<rparr>)
     \<and> p + off - vb + length d \<le> length (sec_backing s)"
proof -
  note g = vads_ok_get [OF mm_inv_dest(1) [OF inv] v] and e = vad_page_end [OF vads_ok_get(1) [OF mm_inv_dest(1) [OF inv] v] p]
  have base: "vad_base v = vb" using g(1) by (simp add: vad_pages_ok_def)
  have "mp_offset mp = 0" "vad_size v \<le> length (sec_backing s)" using g(2) mp s by (auto simp: view_ok_def)
  moreover have "p + off - vb + length d \<le> vad_size v" using e base len by (simp add: vad_end_def)
  ultimately show ?thesis using v mp s e base by (simp add: write_page_def Let_def)
qed

lemma write_loop_shared:
  assumes "mm_inv m" "map_of (vads m) vb = Some v" "vad_mapping v = Some mp" "\<not> mp_cow mp"
    "map_of (sections m) (mp_section mp) = Some s"
    "\<And>a. cursor \<le> a \<Longrightarrow> a < e \<Longrightarrow> map_of (vad_pages v) (page_of a) \<noteq> None"
    "e - cursor = length data - written" "written \<le> length data" "vb \<le> cursor"
  shows "\<exists>rs order. let m' = m\<lparr>sections := om_insert (mp_section mp)
         (s\<lparr>sec_backing := copy_at (cursor - vb) (drop written data) (sec_backing s)\<rparr>) (sections m), resident := rs, resident_order := order\<rparr>
     in write_loop m vb cursor e data written = (Ok (), m') \<and> mm_inv m' \<and>
        (cursor < e \<longrightarrow> e - vb \<le> length (sec_backing s))"
  using assms
proof (induction "e - cursor" arbitrary: m s cursor written rule: less_induct)
  case less
  note inv = less.prems(1) and v = less.prems(2) and s = less.prems(5)
  have wf: "om_wf (sections m)" using mm_inv_dest(2) [OF inv] by (auto simp: sections_ok_def dest: fresh_ids_wf)
  show ?case
  proof (cases "cursor < e")
    case False
    then have "write_loop m vb cursor e data written = (Ok (), m)" by (subst write_loop.simps) simp
    moreover have "drop written data = []" using False less.prems(7) by simp
    ultimately show ?thesis using False inv om_insert_same [OF wf s]
      by (intro exI [of _ "resident m"] exI [of _ "resident_order m"]) simp
  next
    case True
    let ?p = "page_of cursor" let ?o = "cursor mod PAGE_SIZE"
    obtain n d where n: "0 < n" "length d = n" "cursor + n \<le> e" "written + n \<le> length data" "?o + length d \<le> PAGE_SIZE"
      "\<forall>i < n. d ! i = data ! (written + i)" "d @ drop (written + n) data = drop written data"
      "\<forall>m vb m1 m2. write_page m vb ?p ?o d = (Ok (), m1) \<longrightarrow> touch m1 ?p = (Ok (), m2) \<longrightarrow>
         write_loop m vb cursor e data written = write_loop m2 vb (cursor + n) e data (written + n)"
      by (rule write_chunk [OF True less.prems(7,8)])
    have p: "map_of (vad_pages v) ?p \<noteq> None" using less.prems(6) True by simp
    have po: "?p + ?o = cursor" by (rule page_of_bounds)
    let ?s1 = "s\<lparr>sec_backing := copy_at (cursor - vb) d (sec_backing s)\<rparr>"
    let ?m1 = "m\<lparr>sections := om_insert (mp_section mp) ?s1 (sections m)\<rparr>"
    have w: "write_page m vb ?p ?o d = (Ok (), ?m1)" and fit: "cursor - vb + n \<le> length (sec_backing s)"
      using write_page_shared [OF inv v p less.prems(3,4) s n(5)] unfolding po n(2) by simp_all
    have inv1: "mm_inv ?m1" using put_backing_inv [OF inv s] fit n(2) by simp
    have "committed_in ?m1 ?p" using p v by (auto simp: committed_in_def)
    then obtain rs order where t: "touch ?m1 ?p = (Ok (), ?m1\<lparr>resident := rs, resident_order := order\<rparr>)"
      and inv2: "mm_inv (?m1\<lparr>resident := rs, resident_order := order\<rparr>)" by (rule touch_keeps [OF inv1])
    let ?m2 = "?m1\<lparr>resident := rs, resident_order := order\<rparr>"
    have "\<exists>rs order. let m' = ?m2\<lparr>sections := om_insert (mp_section mp)
         (?s1\<lparr>sec_backing := copy_at (cursor + n - vb) (drop (written + n) data) (sec_backing ?s1)\<rparr>) (sections ?m2), resident := rs, resident_order := order\<rparr>
     in write_loop ?m2 vb (cursor + n) e data (written + n) = (Ok (), m') \<and> mm_inv m' \<and>
        (cursor + n < e \<longrightarrow> e - vb \<le> length (sec_backing ?s1))"
      using less.prems True n by (intro less.hyps inv2) auto
    then obtain rs' order' where r: "write_loop ?m2 vb (cursor + n) e data (written + n) = (Ok (), m\<lparr>sections := om_insert (mp_section mp)
         (s\<lparr>sec_backing := copy_at (cursor + n - vb) (drop (written + n) data) (copy_at (cursor - vb) d (sec_backing s))\<rparr>) (sections m), resident := rs', resident_order := order'\<rparr>)"
      "mm_inv (m\<lparr>sections := om_insert (mp_section mp)
         (s\<lparr>sec_backing := copy_at (cursor + n - vb) (drop (written + n) data) (copy_at (cursor - vb) d (sec_backing s))\<rparr>) (sections m), resident := rs', resident_order := order'\<rparr>)"
      "cursor + n < e \<longrightarrow> e - vb \<le> length (copy_at (cursor - vb) d (sec_backing s))"
      by (auto simp: Let_def)
    have end_le: "e - vb \<le> length (sec_backing s)" using r(3) fit n(2,3) True by (cases "cursor + n < e") auto
    have "cursor + n - vb = cursor - vb + length d" using n(2) less.prems(9) by simp
    moreover have "copy_at (cursor - vb + length d) (drop (written + n) data) (copy_at (cursor - vb) d (sec_backing s)) =
        copy_at (cursor - vb) (drop written data) (sec_backing s)"
      unfolding n(7) [symmetric] using end_le n(2,3,4) less.prems(7,9) by (intro copy_at_append) simp
    ultimately show ?thesis using r(1,2) n(8) w t end_le
      by (intro exI [of _ rs'] exI [of _ order']) (simp add: Let_def)
  qed
qed

end
