(* ===== verification/Memory_Spec.thy ===== *)
theory Memory_Spec
  imports Memory_Access
begin

text \<open>
  The properties of the memory manager over its reachable states: absence of panics, the contract of
  reads and writes against the abstract memory, commitment accounting, the working set and the
  memory descriptor lists.
\<close>

section \<open>Reads and writes against the abstract memory\<close>

lemma find_vad_resident [simp]: "find_vad (m\<lparr>resident := rs, resident_order := order\<rparr>) a = find_vad m a"
  by (simp add: find_vad_def)

lemma peek_resident [simp]: "peek (m\<lparr>resident := rs, resident_order := order\<rparr>) = peek m"
  by (auto simp: fun_eq_iff peek_def split: res.splits)

lemma find_vad_region:
  assumes "vads_ok m" "find_vad m a = Ok v" "a \<le> x" "x < vad_end v"
  shows "find_vad m x = Ok v"
  using assms(2-4) by (simp add: find_vad_Ok [OF assms(1)])

lemma accessible_bound:
  assumes ok: "vads_ok m" and acc: "accessible m a e wr"
  shows "e \<le> USER_LIMIT"
proof -
  obtain v where v: "find_vad m a = Ok v" "e \<le> vad_end v" using acc by (auto simp: accessible_def)
  then have "map_of (vads m) (vad_base v) = Some v" by (simp add: find_vad_Ok [OF ok])
  from vads_ok_get(1) [OF ok this] v(2) show ?thesis by (simp add: vad_pages_ok_def)
qed

lemma USER_LIMIT_u64: "USER_LIMIT \<le> u64_max"
  by (simp add: USER_LIMIT_def u64_max_def)

lemma read_spec:
  assumes inv: "mm_inv m" and n: "0 < n"
  shows "(accessible m a (a + n) False \<longrightarrow>
       (\<exists>rs order. read_mem m a n = (Ok (map (\<lambda>x. the (peek m x)) [a ..< a + n]), m\<lparr>resident := rs, resident_order := order\<rparr>) \<and>
          mm_inv (m\<lparr>resident := rs, resident_order := order\<rparr>))) \<and>
     (\<not> accessible m a (a + n) False \<longrightarrow> (\<exists>s. read_mem m a n = (Err s, m)))"
proof (intro conjI impI)
  note ok = mm_inv_dest(1) [OF inv]
  {
    assume acc: "accessible m a (a + n) False"
    then obtain v where v: "find_vad m a = Ok v" "a + n \<le> vad_end v"
      "\<And>x. a \<le> x \<Longrightarrow> x < a + n \<Longrightarrow> map_of (vad_pages v) (page_of x) \<noteq> None"
      unfolding accessible_def by fastforce
    have g: "map_of (vads m) (vad_base v) = Some v" using v(1) by (simp add: find_vad_Ok [OF ok])
    have "the (peek m x) = vbyte (sections m) v x" if "x \<in> set [a ..< a + n]" for x
      using find_vad_region [OF ok v(1), of x] v(2) v(3) [of x] that by (auto simp: peek_def)
    then have bytes: "map (\<lambda>x. the (peek m x)) [a ..< a + n] = map (vbyte (sections m) v) [a ..< a + n]"
      by (rule map_cong [OF refl])
    have "check_access m a (a + n) False = Ok ()" using n acc by (simp add: check_access_iff(2) [OF _ ok])
    then have "read_mem m a n = read_loop m (vad_base v) a (a + n) []"
      using n v(1) accessible_bound [OF ok acc] USER_LIMIT_u64 by (simp add: read_mem_def checked_add64_def)
    then show "\<exists>rs order. read_mem m a n = (Ok (map (\<lambda>x. the (peek m x)) [a ..< a + n]), m\<lparr>resident := rs, resident_order := order\<rparr>) \<and>
          mm_inv (m\<lparr>resident := rs, resident_order := order\<rparr>)"
      unfolding bytes using read_loop_spec [OF inv g v(3), of a "a + n" "[]"] by simp
  next
    assume "\<not> accessible m a (a + n) False"
    then show "\<exists>s. read_mem m a n = (Err s, m)"
      using n check_access_not_Panic [OF ok, of a "a + n" False] check_access_iff(1) [of a "a + n" m False]
      by (cases "check_access m a (a + n) False") (auto simp: read_mem_def checked_add64_def)
  }
qed

text \<open>The address \<open>x\<close> shows a byte of the section \<open>i\<close>, at the offset returned.\<close>

definition section_offset :: "memory_manager \<Rightarrow> nat \<Rightarrow> nat \<Rightarrow> nat option" where
  "section_offset m i x = (case find_vad m x of
     Ok w \<Rightarrow> (case vad_mapping w of
        Some mp \<Rightarrow> if mp_section mp = i \<and> map_of (vad_private w) (page_of x) = None then Some (x - vad_base w) else None
      | None \<Rightarrow> None)
   | _ \<Rightarrow> None)"

lemma find_vad_put:
  assumes "vads_ok m" "vads_ok m'" "vads m' = om_insert vb v' (vads m)" "map_of (vads m) vb = Some v"
    and "vad_base v' = vad_base v" "vad_size v' = vad_size v"
  shows "find_vad m' x = (case find_vad m x of Ok w \<Rightarrow> Ok (if vad_base w = vb then v' else w) | r \<Rightarrow> r)"
proof -
  have vb: "vad_base v = vb" using vads_ok_get(1) [OF assms(1,4)] by (simp add: vad_pages_ok_def)
  have e: "vad_end v' = vad_end v" using assms by (simp add: vad_end_def)
  note f = find_vad_Ok [OF assms(1)] and f' = find_vad_Ok [OF assms(2), unfolded assms(3)]
  have err: "find_vad k x = Err STATUS_INVALID_ADDRESS" if "\<nexists>w. find_vad k x = Ok w" "vads_ok k" for k
    using that find_vad_not_Panic [of k x] by (auto simp: find_vad_def split: option.splits if_splits)
  show ?thesis
  proof (cases "\<exists>w. find_vad m x = Ok w")
    case True
    then obtain w where w: "find_vad m x = Ok w" by blast
    then have w': "map_of (vads m) (vad_base w) = Some w" "vad_base w \<le> x" "x < vad_end w" by (simp_all add: f)
    have "find_vad m' x = Ok (if vad_base w = vb then v' else w)"
    proof (cases "vad_base w = vb")
      case True
      with w' assms(4) have "w = v" by simp
      with True w' show ?thesis by (simp add: f' assms(5) e)
    next
      case False
      with w' show ?thesis by (simp add: f')
    qed
    with w show ?thesis by simp
  next
    case False
    have "\<nexists>w. find_vad m' x = Ok w"
    proof
      assume "\<exists>w. find_vad m' x = Ok w"
      then obtain w where w: "map_of (om_insert vb v' (vads m)) (vad_base w) = Some w" "vad_base w \<le> x" "x < vad_end w"
        by (auto simp: f')
      have "find_vad m x = Ok (if vad_base w = vb then v else w)"
      proof (cases "vad_base w = vb")
        case True
        with w(1) have "w = v'" by simp
        with True w assms(4) vb show ?thesis by (simp add: f assms(5) e)
      next
        case False
        with w show ?thesis by (simp add: f)
      qed
      with False show False by blast
    qed
    from err [OF this assms(2)] err [OF False assms(1)] show ?thesis by simp
  qed
qed

lemma write_enters:
  assumes inv: "mm_inv m" and d: "data \<noteq> []" and acc: "accessible m a (a + length data) True" and v: "find_vad m a = Ok v"
  shows "write_mem m a data = write_loop m (vad_base v) a (a + length data) data 0"
proof -
  have "check_access m a (a + length data) True = Ok ()" using d acc by (simp add: check_access_iff(2) [OF _ mm_inv_dest(1) [OF inv]])
  then show ?thesis using d v accessible_bound [OF mm_inv_dest(1) [OF inv] acc] USER_LIMIT_u64
    by (simp add: write_mem_def checked_add64_def)
qed

lemma accessible_cong:
  assumes f: "\<And>x. find_vad m' x = (case find_vad m x of Ok w \<Rightarrow> Ok (h w) | r \<Rightarrow> r)"
    and h: "\<And>x w. find_vad m x = Ok w \<Longrightarrow> vad_end (h w) = vad_end w \<and> vad_pages (h w) = vad_pages w"
  shows "accessible m' = accessible m"
proof (intro ext)
  fix a e wr
  show "accessible m' a e wr = accessible m a e wr"
    using h [of a] by (cases "find_vad m a") (auto simp: accessible_def f)
qed

text \<open>A write to a private region or to a copy-on-write view.\<close>

lemma write_own_spec:
  assumes inv: "mm_inv m" and d: "data \<noteq> []" and acc: "accessible m a (a + length data) True"
    and v: "find_vad m a = Ok v" and own: "\<not> shared_view v"
  shows "\<exists>m'. write_mem m a data = (Ok (), m') \<and> mm_inv m' \<and> sections m' = sections m \<and> accessible m' = accessible m \<and>
     (\<forall>x. peek m' x = (if a \<le> x \<and> x < a + length data then Some (data ! (x - a)) else peek m x))"
proof -
  note ok = mm_inv_dest(1) [OF inv]
  let ?e = "a + length data"
  have g: "map_of (vads m) (vad_base v) = Some v" "vad_base v \<le> a" using v by (simp_all add: find_vad_Ok [OF ok])
  have com: "map_of (vad_pages v) (page_of x) \<noteq> None" "x < vad_end v" if "a \<le> x" "x < ?e" for x
    using acc v that unfolding accessible_def by fastforce+
  have w: "write_mem m a data = write_loop m (vad_base v) a ?e data 0" by (rule write_enters [OF inv d acc v])
  obtain pr rs order where r0: "let m' = m\<lparr>vads := om_insert (vad_base v) (v\<lparr>vad_private := pr\<rparr>) (vads m), resident := rs, resident_order := order\<rparr>
     in write_loop m (vad_base v) a ?e data 0 = (Ok (), m') \<and> mm_inv m' \<and>
        (\<forall>x. vbyte (sections m) (v\<lparr>vad_private := pr\<rparr>) x =
           (if a \<le> x \<and> x < ?e then data ! (0 + (x - a)) else vbyte (sections m) v x))"
    using write_loop_own [OF inv g(1) own com(1), of a ?e data 0] by auto
  define m' where m': "m' = m\<lparr>vads := om_insert (vad_base v) (v\<lparr>vad_private := pr\<rparr>) (vads m), resident := rs, resident_order := order\<rparr>"
  have r: "write_loop m (vad_base v) a ?e data 0 = (Ok (), m')" "mm_inv m'"
    "vbyte (sections m) (v\<lparr>vad_private := pr\<rparr>) x = (if a \<le> x \<and> x < ?e then data ! (x - a) else vbyte (sections m) v x)" for x
    using r0 unfolding Let_def m' [symmetric] by simp_all
  have f: "find_vad m' x = (case find_vad m x of Ok w \<Rightarrow> Ok (if vad_base w = vad_base v then v\<lparr>vad_private := pr\<rparr> else w) | r \<Rightarrow> r)" for x
    using ok mm_inv_dest(1) [OF r(2)] g(1) by (intro find_vad_put [where v = v]) (simp_all add: m')
  have secs: "sections m' = sections m" by (simp add: m')
  have "peek m' x = (if a \<le> x \<and> x < ?e then Some (data ! (x - a)) else peek m x)" for x
  proof (cases "find_vad m x")
    case (Ok u)
    show ?thesis
    proof (cases "vad_base u = vad_base v")
      case True
      moreover have "map_of (vads m) (vad_base u) = Some u" using Ok by (simp add: find_vad_Ok [OF ok])
      ultimately have "u = v" using g(1) by (metis option.inject)
      with Ok com [of x] show ?thesis by (auto simp: peek_def f r(3) secs)
    next
      case False
      have "\<not> (a \<le> x \<and> x < ?e)"
        using find_vad_region [OF ok v, of x] com(2) [of x] Ok False by auto
      with Ok False show ?thesis by (auto simp: peek_def f secs)
    qed
  next
    case (Err s)
    then have "\<not> (a \<le> x \<and> x < ?e)" using find_vad_region [OF ok v, of x] com(2) [of x] by auto
    with Err show ?thesis by (simp add: peek_def f)
  next
    case Panic
    then show ?thesis using find_vad_not_Panic [OF ok, of x] by simp
  qed
  moreover have "accessible m' = accessible m"
  proof (rule accessible_cong [where h = "\<lambda>w. if vad_base w = vad_base v then v\<lparr>vad_private := pr\<rparr> else w"])
    fix x u
    assume "find_vad m x = Ok u"
    then have "map_of (vads m) (vad_base u) = Some u" by (simp add: find_vad_Ok [OF ok])
    then have same: "u = v" if "vad_base u = vad_base v" using that g(1) by (metis option.inject)
    show "vad_end (if vad_base u = vad_base v then v\<lparr>vad_private := pr\<rparr> else u) = vad_end u \<and>
        vad_pages (if vad_base u = vad_base v then v\<lparr>vad_private := pr\<rparr> else u) = vad_pages u"
      by (cases "vad_base u = vad_base v") (auto simp: vad_end_def dest!: same)
  qed (rule f)
  ultimately show ?thesis using w r(1,2) secs by (intro exI [of _ m']) simp
qed

text \<open>A write to a shared view.\<close>

lemma vbyte_section_put:
  assumes ok: "vads_ok m" and w: "find_vad m x = Ok w" and s: "map_of (sections m) i = Some s"
    and fit: "k + length data \<le> length (sec_backing s)"
  shows "vbyte (om_insert i (s\<lparr>sec_backing := copy_at k data (sec_backing s)\<rparr>) (sections m)) w x =
     (case section_offset m i x of
        Some off \<Rightarrow> if k \<le> off \<and> off < k + length data then data ! (off - k) else vbyte (sections m) w x
      | None \<Rightarrow> vbyte (sections m) w x)"
proof (cases "\<exists>mp. vad_mapping w = Some mp \<and> mp_section mp = i \<and> map_of (vad_private w) (page_of x) = None")
  case False
  then have "section_offset m i x = None" using w by (auto simp: section_offset_def split: option.splits)
  moreover have "vbyte (om_insert i (s\<lparr>sec_backing := copy_at k data (sec_backing s)\<rparr>) (sections m)) w x = vbyte (sections m) w x"
    using False by (auto simp: vbyte_def split: option.splits)
  ultimately show ?thesis by simp
next
  case True
  then obtain mp where mp: "vad_mapping w = Some mp" "mp_section mp = i" "map_of (vad_private w) (page_of x) = None" by blast
  have g: "map_of (vads m) (vad_base w) = Some w" "vad_base w \<le> x" "x < vad_end w" using w by (simp_all add: find_vad_Ok [OF ok])
  have "mp_offset mp = 0" "vad_size w \<le> length (sec_backing s)"
    using vads_ok_get(2) [OF ok g(1)] mp s by (auto simp: view_ok_def)
  moreover have "x - vad_base w < vad_size w" using g by (simp add: vad_end_def)
  ultimately show ?thesis using mp s w fit by (simp add: vbyte_def section_offset_def copy_at_nth)
qed

lemma section_offset_committed:
  assumes ok: "vads_ok m" and "section_offset m i x \<noteq> None" and w: "find_vad m x = Ok w"
  shows "map_of (vad_pages w) (page_of x) \<noteq> None"
proof -
  obtain mp where mp: "vad_mapping w = Some mp"
    using assms(2) w by (auto simp: section_offset_def split: option.splits)
  have g: "map_of (vads m) (vad_base w) = Some w" "vad_base w \<le> x" "x < vad_end w" using w by (simp_all add: find_vad_Ok [OF ok])
  have "PAGE_SIZE dvd vad_base w" using vads_ok_get(1) [OF ok g(1)] by (simp add: vad_pages_ok_def)
  then have "vad_base w \<le> page_of x" using g(2) unfolding page_of_def dvd_def
    by (metis PAGE_SIZE_pos(1) div_le_mono mult.commute mult_le_mono1 nonzero_mult_div_cancel_left less_numeral_extra(3))
  moreover have "page_of x < vad_end w" using g(3) page_of_bounds(2) [of x] by simp
  ultimately show ?thesis using vads_ok_get(2) [OF ok g(1)] mp page_of_bounds(1) [of x] by (simp add: view_ok_def)
qed

lemma write_shared_spec:
  assumes inv: "mm_inv m" and d: "data \<noteq> []" and acc: "accessible m a (a + length data) True"
    and v: "find_vad m a = Ok v" and mp: "vad_mapping v = Some mp" "\<not> mp_cow mp"
  shows "\<exists>m'. write_mem m a data = (Ok (), m') \<and> mm_inv m' \<and> vads m' = vads m \<and> accessible m' = accessible m \<and>
     (\<forall>x. peek m' x = (case section_offset m (mp_section mp) x of
        Some off \<Rightarrow> if a - vad_base v \<le> off \<and> off < a - vad_base v + length data
                    then Some (data ! (off - (a - vad_base v))) else peek m x
      | None \<Rightarrow> peek m x))"
proof -
  note ok = mm_inv_dest(1) [OF inv]
  let ?e = "a + length data" let ?k = "a - vad_base v" let ?i = "mp_section mp"
  have g: "map_of (vads m) (vad_base v) = Some v" "vad_base v \<le> a" using v by (simp_all add: find_vad_Ok [OF ok])
  obtain s where s: "map_of (sections m) ?i = Some s" using vads_ok_get(2) [OF ok g(1)] mp by (auto simp: view_ok_def)
  have com: "map_of (vad_pages v) (page_of x) \<noteq> None" if "a \<le> x" "x < ?e" for x
    using acc v that unfolding accessible_def by fastforce
  obtain rs order where r0: "let m' = m\<lparr>sections := om_insert ?i (s\<lparr>sec_backing := copy_at ?k (drop 0 data) (sec_backing s)\<rparr>) (sections m),
        resident := rs, resident_order := order\<rparr>
     in write_loop m (vad_base v) a ?e data 0 = (Ok (), m') \<and> mm_inv m' \<and> (a < ?e \<longrightarrow> ?e - vad_base v \<le> length (sec_backing s))"
    using write_loop_shared [OF inv g(1) mp s com, of a ?e data 0] g(2) by auto
  define m' where m': "m' = m\<lparr>sections := om_insert ?i (s\<lparr>sec_backing := copy_at ?k data (sec_backing s)\<rparr>) (sections m),
        resident := rs, resident_order := order\<rparr>"
  have r: "write_loop m (vad_base v) a ?e data 0 = (Ok (), m')" "mm_inv m'" "a < ?e \<longrightarrow> ?e - vad_base v \<le> length (sec_backing s)"
    using r0 unfolding Let_def drop_0 m' [symmetric] by simp_all
  have fit: "?k + length data \<le> length (sec_backing s)" using r(3) d g(2) by (simp add: length_greater_0_conv [symmetric] del: length_greater_0_conv)
  have f: "find_vad m' x = find_vad m x" for x by (simp add: m' find_vad_def)
  have secs: "sections m' = om_insert ?i (s\<lparr>sec_backing := copy_at ?k data (sec_backing s)\<rparr>) (sections m)" by (simp add: m')
  have "peek m' x = (case section_offset m ?i x of
        Some off \<Rightarrow> if ?k \<le> off \<and> off < ?k + length data then Some (data ! (off - ?k)) else peek m x | None \<Rightarrow> peek m x)" for x
  proof (cases "find_vad m x")
    case (Ok w)
    have gw: "map_of (vads m) (vad_base w) = Some w" "vad_base w \<le> x" "x < vad_end w" using Ok by (simp_all add: find_vad_Ok [OF ok])
    have "vbyte (sections m') w x = (case section_offset m ?i x of
        Some off \<Rightarrow> if ?k \<le> off \<and> off < ?k + length data then data ! (off - ?k) else vbyte (sections m) w x
      | None \<Rightarrow> vbyte (sections m) w x)" unfolding secs by (rule vbyte_section_put [OF ok Ok s fit])
    moreover have "map_of (vad_pages w) (page_of x) \<noteq> None" if "section_offset m ?i x \<noteq> None"
      using that Ok by (rule section_offset_committed [OF ok])
    ultimately show ?thesis using Ok by (cases "section_offset m ?i x") (auto simp: peek_def f)
  qed (simp_all add: peek_def f section_offset_def)
  moreover have "accessible m' = accessible m" by (simp add: fun_eq_iff accessible_def f)
  ultimately show ?thesis using write_enters [OF inv d acc v] r(1,2) by (intro exI [of _ m']) (simp add: m')
qed

lemma write_denied:
  assumes "mm_inv m" "data \<noteq> []" "\<not> accessible m a (a + length data) True"
  shows "\<exists>s. write_mem m a data = (Err s, m)"
  using assms check_access_not_Panic [OF mm_inv_dest(1) [OF assms(1)], of a "a + length data" True] check_access_iff(1) [of a "a + length data" m True]
  by (cases "check_access m a (a + length data) True") (auto simp: write_mem_def checked_add64_def)

lemma write_total:
  assumes inv: "mm_inv m"
  shows "fst (write_mem m a data) \<noteq> Panic \<and> mm_inv (snd (write_mem m a data))"
proof (cases "data = [] \<or> \<not> accessible m a (a + length data) True")
  case True
  with inv show ?thesis using write_denied [OF inv, of data a] by (cases "data = []") (auto simp: write_mem_def)
next
  case False
  then obtain v where v: "find_vad m a = Ok v" by (auto simp: accessible_def)
  show ?thesis
  proof (cases "shared_view v")
    case True
    then obtain mp where "vad_mapping v = Some mp" "\<not> mp_cow mp" by (auto simp: shared_view_def)
    with False inv v show ?thesis using write_shared_spec [of m data a v mp] by auto
  next
    case own: False
    with False inv v show ?thesis using write_own_spec [of m data a v] by auto
  qed
qed

lemma read_total:
  assumes inv: "mm_inv m"
  shows "fst (read_mem m a n) \<noteq> Panic \<and> mm_inv (snd (read_mem m a n))"
proof (cases "n = 0")
  case False
  then show ?thesis using read_spec [OF inv, of n a] inv
    by (cases "accessible m a (a + n) False") auto
qed (simp add: read_mem_def inv)

section \<open>Commitment against the abstract memory\<close>

lemma peek_put:
  assumes ok: "vads_ok m" "vads_ok m'" and p: "vads m' = om_insert vb v' (vads m)" "map_of (vads m) vb = Some v"
    and v': "vad_base v' = vad_base v" "vad_size v' = vad_size v" and secs: "sections m' = sections m"
  shows "peek m' x = (if find_vad m x = Ok v
     then (if map_of (vad_pages v') (page_of x) = None then None else Some (vbyte (sections m) v' x)) else peek m x)"
proof (cases "find_vad m x")
  case (Ok w)
  have g: "map_of (vads m) (vad_base w) = Some w" using Ok by (simp add: find_vad_Ok [OF ok(1)])
  have vb: "vad_base v = vb" using vads_ok_get(1) [OF ok(1) p(2)] by (simp add: vad_pages_ok_def)
  have "vad_base w = vb \<longleftrightarrow> w = v" using g p(2) vb by (metis option.inject)
  then show ?thesis using Ok find_vad_put [OF ok p v', of x] by (auto simp: peek_def secs)
qed (use find_vad_put [OF ok p v', of x] in \<open>simp_all add: peek_def\<close>)

lemma page_of_aligned_range:
  assumes "PAGE_SIZE dvd b" "PAGE_SIZE dvd e" "b < e"
  shows "page_of x \<in> set (range_pages (b, e)) \<longleftrightarrow> b \<le> x \<and> x < e"
proof
  assume "page_of x \<in> set (range_pages (b, e))"
  then have p: "b \<le> page_of x" "page_of x < e" using assms by (simp_all add: set_range_pages_aligned)
  have "page_of x + PAGE_SIZE \<le> e" using p(2) assms(2) page_of_bounds(1) [of x] by (auto simp: dvd_def PAGE_SIZE_def)
  then show "b \<le> x \<and> x < e" using p(1) page_of_bounds(2,3) [of x] by simp
qed (use page_of_in_range in blast)

text \<open>What a successful \<open>commit\<close> does to the abstract memory, and that the matching \<open>decommit\<close> undoes it.\<close>

lemma commit_peek:
  assumes inv: "mm_inv m" and c: "commit m b sz prot = (Ok (), m')" and al: "align_up sz PAGE_SIZE = Some al"
  shows "peek m' x = (if b \<le> x \<and> x < b + al then Some 0 else peek m x) \<and>
     (b \<le> x \<and> x < b + al \<longrightarrow> peek m x = None) \<and>
     committed_bytes m' = committed_bytes m + al \<and> committed_bytes m + al \<le> max_commit m"
  using inv c
proof (rule commit_Ok)
  fix v e
  let ?ps = "range_pages (b, e)" let ?v = "(commit_pages prot ?ps v)\<lparr>vad_protection := prot\<rparr>"
  assume f: "find_vad m b = Ok v" and r: "validate_range m b sz = Ok (b, e)"
    and free: "\<forall>p \<in> set ?ps. map_of (vad_pages v) p = None"
    and g: "map_of (vads m) (vad_base v) = Some v" and lim: "committed_bytes m + length ?ps * PAGE_SIZE \<le> max_commit m"
    and m': "m' = m\<lparr>vads := om_insert (vad_base v) ?v (vads m), committed_bytes := committed_bytes m + length ?ps * PAGE_SIZE\<rparr>"
  note ok = mm_inv_dest(1) [OF inv] and ok' = mm_inv_dest(1) [OF commit_Ok_inv [OF inv c]]
  have be: "PAGE_SIZE dvd b" "PAGE_SIZE dvd e" "b < e" "e \<le> vad_end v" "align_up sz PAGE_SIZE = Some (e - b)"
    by (rule validate_range_facts [OF ok r f])+
  then have e: "e = b + al" using al by simp
  have len: "length ?ps * PAGE_SIZE = al" using length_range_pages_aligned [OF be(1,2)] be(3) e by simp
  have in_v: "find_vad m x = Ok v" if "b \<le> x" "x < e" using find_vad_region [OF ok f that(1)] that(2) be(4) by simp
  have "peek m' x = (if find_vad m x = Ok v
     then (if map_of (vad_pages ?v) (page_of x) = None then None else Some (vbyte (sections m) ?v x)) else peek m x)"
    by (rule peek_put [OF ok ok' _ g]) (simp_all add: m')
  also have "\<dots> = (if b \<le> x \<and> x < e then Some 0 else peek m x)"
    using in_v page_of_aligned_range [OF be(1-3), of x]
    by (auto simp: peek_def vbyte_def split: option.splits)
  finally have "peek m' x = (if b \<le> x \<and> x < e then Some 0 else peek m x)" .
  moreover have "peek m x = None" if "b \<le> x" "x < e"
    using that in_v free page_of_aligned_range [OF be(1-3), of x] by (simp add: peek_def)
  moreover have "committed_bytes m' = committed_bytes m + al" "committed_bytes m + al \<le> max_commit m"
    using lim by (simp_all add: m' len)
  ultimately show ?thesis unfolding e by blast
qed

lemma decommit_undoes_commit:
  assumes inv: "mm_inv m" and c: "commit m b sz prot = (Ok (), m')"
  shows "fst (decommit m' b sz) = Ok () \<and> peek (snd (decommit m' b sz)) = peek m \<and>
     committed_bytes (snd (decommit m' b sz)) = committed_bytes m"
  using inv c
proof (rule commit_Ok)
  fix v e
  let ?ps = "range_pages (b, e)" let ?v = "(commit_pages prot ?ps v)\<lparr>vad_protection := prot\<rparr>" let ?w = "decommit_pages ?ps ?v"
  assume f: "find_vad m b = Ok v" and r: "validate_range m b sz = Ok (b, e)" and map: "vad_mapping v = None"
    and free: "\<forall>p \<in> set ?ps. map_of (vad_pages v) p = None"
    and g: "map_of (vads m) (vad_base v) = Some v"
    and m': "m' = m\<lparr>vads := om_insert (vad_base v) ?v (vads m), committed_bytes := committed_bytes m + length ?ps * PAGE_SIZE\<rparr>"
  have inv': "mm_inv m'" by (rule commit_Ok_inv [OF inv c])
  note ok = mm_inv_dest(1) [OF inv] and ok' = mm_inv_dest(1) [OF inv']
  have be: "b < e" by (rule validate_range_facts [OF ok r f])
  have f': "find_vad m' b = Ok ?v" using find_vad_put [OF ok ok' _ g, of ?v b] f by (simp add: m')
  have "vad_end ?v = vad_end v" by (simp add: vad_end_def)
  then have r': "validate_range m' b sz = Ok (b, e)" using r f f' by (auto simp: validate_range_def rbind_eq_Ok split: if_splits)
  have count: "committed_count ?v (b, e) = length ?ps" by (simp add: committed_count_def)
  have ne: "length ?ps \<noteq> 0" using be set_range_pages [OF be] page_of_in_range [of b b e] by force
  have fits: "length ?ps * PAGE_SIZE \<le> u64_max"
    using length_range_pages_aligned [of b e] validate_range_facts(1-4) [OF ok r f] vads_ok_get(1) [OF ok g]
    by (auto simp: vad_pages_ok_def USER_LIMIT_def u64_max_def)
  let ?m = "snd (decommit m' b sz)"
  have d: "decommit m' b sz = (Ok (), (evict_pages ?ps (m'\<lparr>vads := om_insert (vad_base v) ?w (vads m')\<rparr>))
      \<lparr>committed_bytes := committed_bytes m' - length ?ps * PAGE_SIZE\<rparr>)"
    using r' f' map count ne valid_range_fits [OF ok' r'] fits by (simp add: decommit_def m')
  have "map_of (vad_private v) p \<noteq> None \<longrightarrow> map_of (vad_pages v) p \<noteq> None" for p
    using vads_ok_get(1) [OF ok g] unfolding vad_pages_ok_def by blast
  then have priv: "map_of (vad_private v) p = None" if "p \<in> set ?ps" for p using free that by blast
  have m: "vads ?m = om_insert (vad_base v) ?w (vads m)" "sections ?m = sections m" "committed_bytes ?m = committed_bytes m"
    unfolding d by (simp_all add: m' evict_pages_eq)
  have ok'': "vads_ok ?m" by (rule mm_inv_dest(1) [OF decommit_inv [OF inv']])
  have pm: "peek ?m x = (if find_vad m x = Ok v then (if map_of (vad_pages ?w) (page_of x) = None then None else Some (vbyte (sections m) ?w x)) else peek m x)" for x
    by (rule peek_put [OF ok ok'' m(1) g _ _ m(2)]) simp_all
  have "peek ?m x = peek m x" for x
  proof (cases "page_of x \<in> set ?ps")
    case True
    then show ?thesis unfolding pm using free by (simp add: peek_def)
  next
    case False
    then have "map_of (vad_pages ?w) (page_of x) = map_of (vad_pages v) (page_of x)" "vbyte (sections m) ?w x = vbyte (sections m) v x"
      by (simp_all add: vbyte_def cong: option.case_cong)
    then show ?thesis unfolding pm by (simp add: peek_def)
  qed
  then have "peek ?m = peek m" by blast
  with d m(3) show ?thesis by (metis fst_conv)
qed

section \<open>Unmapping a view\<close>

lemma protect_pages_fresh_length:
  "distinct ps \<Longrightarrow> \<forall>p \<in> set ps. map_of (vad_pages v) p = None \<Longrightarrow>
     length (vad_pages (protect_pages prot ps v)) = length (vad_pages v) + length ps"
proof (induction ps arbitrary: v)
  case (Cons p ps)
  let ?v = "v\<lparr>vad_pages := om_insert p prot (vad_pages v)\<rparr>"
  have "length (vad_pages (protect_pages prot ps ?v)) = length (vad_pages ?v) + length ps"
    using Cons.prems by (intro Cons.IH) auto
  moreover have "length (vad_pages ?v) = Suc (length (vad_pages v))"
    using Cons.prems om_insert_fresh_length [of p "vad_pages v" prot] by (simp add: map_of_eq_None_iff)
  ultimately show ?case by (simp add: protect_pages_def)
qed (simp add: protect_pages_def)

lemma om_remove_insert_fresh: "om_wf m \<Longrightarrow> map_of m k = None \<Longrightarrow> om_remove k (om_insert k v m) = m"
  by (rule om_eqI) (auto simp: fun_upd_idem)

lemma unmap_after_map:
  assumes inv: "mm_inv m" and c: "map_section m sid base sz prot cow = (Ok b, m1)"
  shows "\<exists>m2 n. unmap_section m1 b = (Ok n, m2) \<and> align_up sz PAGE_SIZE = Some n \<and> vads m2 = vads m \<and>
     mapped_bytes m2 = mapped_bytes m \<and> committed_bytes m2 = committed_bytes m - n"
  using inv c
proof (rule map_section_Ok)
  fix s al m0
  let ?ps = "map (\<lambda>i. b + i * PAGE_SIZE) [0 ..< al div PAGE_SIZE]"
  let ?v = "(protect_pages prot ?ps ((new_vad b al)\<lparr>vad_protection := prot\<rparr>))\<lparr>vad_mapping := Some \<lparr>mp_section = sid, mp_offset = 0, mp_cow = cow\<rparr>\<rparr>"
  assume al: "align_up sz PAGE_SIZE = Some al" and r: "reserve m base al = (Ok b, m0)"
    and m1: "m1 = m0\<lparr>vads := om_insert b ?v (vads m0), mapped_bytes := mapped_bytes m0 + al\<rparr>"
  have len: "length (vad_pages ?v) * PAGE_SIZE = al"
    using align_up_SomeD [OF al] by (simp add: protect_pages_fresh_length distinct_map inj_on_def)
  show ?thesis using inv r
  proof (rule reserve_Ok)
    fix al'
    assume "align_up al PAGE_SIZE = Some al'" and pos: "0 < al"
      and lim: "b + al' \<le> USER_LIMIT" and free: "\<And>c w. map_of (vads m) c = Some w \<Longrightarrow> c + vad_size w \<le> b \<or> b + al' \<le> c"
      and m0: "m0 = m\<lparr>vads := om_insert b (new_vad b al') (vads m), next_base := max (next_base m) (b + al')\<rparr>"
    then have al': "al' = al" using align_up_aligned [OF al, of al'] by simp
    have "map_of (vads m) b = None"
      using free [of b] pos vads_ok_get(1) [OF mm_inv_dest(1) [OF inv], of b]
      by (cases "map_of (vads m) b") (auto simp: vad_pages_ok_def al')
    then have "om_remove b (om_insert b ?v (vads m)) = vads m"
      by (rule om_remove_insert_fresh [OF mm_inv_dest(5) [OF inv]])
    moreover have "vad_size ?v = al" by simp
    moreover have "al \<le> u64_max" using lim by (simp add: al' USER_LIMIT_def u64_max_def)
    ultimately show ?thesis using len al
      by (simp add: unmap_section_def release_def m1 m0 al' Let_def evict_pages_eq)
  qed
qed

section \<open>Absence of panics\<close>

lemma region_bytes_bound:
  assumes "om_wf vs" "\<And>b v. (b, v) \<in> set vs \<Longrightarrow> lo \<le> b \<and> b + vad_size v \<le> L" "vads_disjoint vs" "lo \<le> L"
  shows "lo + om_sum (\<lambda>_ v. vad_size v) vs \<le> L"
  using assms
proof (induction vs arbitrary: lo)
  case (Cons e vs)
  obtain b v where e: "e = (b, v)" by (cases e)
  have wf: "om_wf vs" "\<And>c w. (c, w) \<in> set vs \<Longrightarrow> b < c" using Cons.prems(1) by (auto simp: e om_wf_Cons)
  have sep: "b + vad_size v \<le> c" if "(c, w) \<in> set vs" for c w
  proof -
    have "map_of vs c = Some w" using wf(1) that by (simp add: om_get_iff)
    moreover have "b < c" by (rule wf(2) [OF that])
    ultimately show ?thesis using Cons.prems(3) by (auto simp: vads_disjoint_def e dest!: spec [of _ b] spec [of _ c])
  qed
  have "vads_disjoint vs" unfolding vads_disjoint_def
  proof (intro allI impI)
    fix c c' w w'
    assume c: "map_of vs c = Some w" "map_of vs c' = Some w'" "c < c'"
    then have "c \<noteq> b" "c' \<noteq> b" using wf(2) map_of_SomeD by fastforce+
    with c show "c + vad_size w \<le> c'" using Cons.prems(3) unfolding vads_disjoint_def e by (metis map_of_Cons_code(2))
  qed
  then have "(b + vad_size v) + om_sum (\<lambda>_ v. vad_size v) vs \<le> L"
    using Cons.prems(2) sep wf(1) by (intro Cons.IH) (auto simp: e)
  moreover have "lo \<le> b" using Cons.prems(2) [of b v] by (simp add: e)
  ultimately show ?case by (simp add: e)
qed simp

lemma pages_fit:
  assumes "vad_pages_ok b v"
  shows "length (vad_pages v) * PAGE_SIZE \<le> vad_size v"
proof -
  have "PAGE_SIZE dvd b" "PAGE_SIZE dvd vad_end v" "b < vad_end v" "vad_end v - b = vad_size v"
    using assms by (auto simp: vad_pages_ok_def vad_end_def)
  note r = set_range_pages_aligned [OF this(1,3)] length_range_pages_aligned [OF this(1,2)] this
  have "fst ` set (vad_pages v) \<subseteq> set (range_pages (b, vad_end v))"
    using assms by (auto simp: r(1) vad_pages_ok_def om_keys_dom)
  then have "card (fst ` set (vad_pages v)) \<le> length (range_pages (b, vad_end v))"
    by (meson List.finite_set card_length card_mono order_trans)
  moreover have "card (fst ` set (vad_pages v)) = length (vad_pages v)"
    using assms distinct_card [of "map fst (vad_pages v)"] by (simp add: vad_pages_ok_def om_wf_distinct)
  ultimately have "length (vad_pages v) * PAGE_SIZE \<le> length (range_pages (b, vad_end v)) * PAGE_SIZE" by simp
  then show ?thesis using r(2,5,6) by simp
qed

lemma counters_bound:
  assumes "mm_inv m"
  shows "private_bytes (vads m) \<le> USER_LIMIT" "view_bytes (vads m) \<le> USER_LIMIT"
proof -
  note d = mm_inv_dest [OF assms]
  have e: "vad_pages_ok b v" if "(b, v) \<in> set (vads m)" for b v
    using vads_ok_get(1) [OF d(1)] that d(5) by (simp add: om_get_iff)
  then have lim: "0 \<le> b \<and> b + vad_size v \<le> USER_LIMIT" if "(b, v) \<in> set (vads m)" for b v
    using that by (fastforce simp: vad_pages_ok_def vad_end_def)
  have "om_sum (\<lambda>_ v. vad_size v) (vads m) \<le> USER_LIMIT"
    using region_bytes_bound [OF d(5) lim] d(1) by (simp add: vads_ok_def)
  moreover have "private_bytes (vads m) \<le> om_sum (\<lambda>_ v. vad_size v) (vads m)"
    unfolding private_bytes_def by (rule om_sum_mono) (use pages_fit [OF e] in auto)
  moreover have "view_bytes (vads m) \<le> om_sum (\<lambda>_ v. vad_size v) (vads m)"
    unfolding view_bytes_def by (rule om_sum_mono) auto
  ultimately show "private_bytes (vads m) \<le> USER_LIMIT" "view_bytes (vads m) \<le> USER_LIMIT" by auto
qed

lemma two_limits: "a \<le> USER_LIMIT \<Longrightarrow> b \<le> USER_LIMIT \<Longrightarrow> a + b \<le> u64_max"
  by (simp add: USER_LIMIT_def u64_max_def)

lemma commit_not_Panic:
  assumes inv: "mm_inv m"
  shows "fst (commit m base sz prot) \<noteq> Panic"
proof (cases "validate_range m base sz")
  case (Ok r)
  note ok = mm_inv_dest(1) [OF inv]
  obtain v e where r: "r = (base, e)" "find_vad m base = Ok v" "PAGE_SIZE dvd base" "PAGE_SIZE dvd e" "base < e" "e \<le> vad_end v"
    by (rule validate_range_Ok [OF ok Ok])
  have g: "map_of (vads m) (vad_base v) = Some v" using r(2) by (simp add: find_vad_Ok [OF ok])
  have "vad_end v \<le> USER_LIMIT" using vads_ok_get(1) [OF ok g] by (simp add: vad_pages_ok_def)
  then have "length (range_pages (base, e)) * PAGE_SIZE \<le> USER_LIMIT"
    using length_range_pages_aligned [OF r(3,4)] r(5,6) by simp
  moreover have "committed_bytes m \<le> USER_LIMIT"
    using counters_bound(1) [OF inv] mm_inv_dest(4) [OF inv] by (simp add: counters_ok_def)
  ultimately have "committed_bytes m + length (range_pages (base, e)) * PAGE_SIZE \<le> u64_max" by (simp add: two_limits)
  then show ?thesis using Ok r(1,2) g valid_range_fits [OF ok Ok]
    by (auto simp: commit_def attempt_neq_Panic ok_or_def split: option.splits)
qed (use validate_range_not_Panic [OF mm_inv_dest(1) [OF inv]] in \<open>auto simp: commit_def\<close>)

lemma decommit_not_Panic:
  assumes inv: "mm_inv m"
  shows "fst (decommit m base sz) \<noteq> Panic"
proof (cases "validate_range m base sz")
  case (Ok r)
  note ok = mm_inv_dest(1) [OF inv]
  obtain v e where r: "r = (base, e)" "find_vad m base = Ok v" by (rule validate_range_Ok [OF ok Ok])
  have g: "map_of (vads m) (vad_base v) = Some v" using r(2) by (simp add: find_vad_Ok [OF ok])
  then have "committed_count v (base, e) * PAGE_SIZE \<le> u64_max" by (intro committed_count_fits [OF vads_ok_get(1) [OF ok]])
  then show ?thesis using Ok r g valid_range_fits [OF ok Ok] by (auto simp: decommit_def attempt_neq_Panic split: option.splits)
qed (use validate_range_not_Panic [OF mm_inv_dest(1) [OF inv]] in \<open>auto simp: decommit_def\<close>)

lemma protect_not_Panic:
  assumes inv: "mm_inv m"
  shows "fst (protect m base sz prot) \<noteq> Panic"
proof (cases "validate_range m base sz")
  case (Ok r)
  note ok = mm_inv_dest(1) [OF inv]
  obtain v e where r: "r = (base, e)" "find_vad m base = Ok v" by (rule validate_range_Ok [OF ok Ok])
  then have "map_of (vads m) (vad_base v) = Some v" by (simp add: find_vad_Ok [OF ok])
  then show ?thesis using Ok r valid_range_fits [OF ok Ok] by (auto simp: protect_def attempt_neq_Panic split: option.splits)
qed (use validate_range_not_Panic [OF mm_inv_dest(1) [OF inv]] in \<open>auto simp: protect_def\<close>)

lemma reserve_not_Panic:
  assumes inv: "mm_inv m"
  shows "fst (reserve m base sz) \<noteq> Panic"
  using find_free_loop_inv [OF mm_inv_dest(1) [OF inv]] overlaps_eq [OF mm_inv_dest(1) [OF inv]]
  by (auto simp: reserve_def reserve_at_def find_free_base_def attempt_neq_Panic ok_or_def split: option.splits if_splits)

lemma map_section_not_Panic:
  assumes inv: "mm_inv m"
  shows "fst (map_section m sid base sz prot cow) \<noteq> Panic"
proof (cases "prot_valid prot \<and> sz \<noteq> 0 \<and> (\<exists>s al b. map_of (sections m) sid = Some s \<and> align_up sz PAGE_SIZE = Some al \<and>
    al \<le> sec_size s \<and> fst (reserve m base al) = Ok b)")
  case False
  then show ?thesis using reserve_not_Panic [OF inv, of base]
    by (auto simp: map_section_def attempt_neq_Panic ok_or_def split: option.splits prod.splits) (metis fst_conv)+
next
  case True
  then obtain s al b m1 where s: "prot_valid prot" "sz \<noteq> 0" "map_of (sections m) sid = Some s"
    and al: "align_up sz PAGE_SIZE = Some al" "al \<le> sec_size s" and r: "reserve m base al = (Ok b, m1)"
    by (metis prod.collapse)
  have inv1: "mm_inv m1" by (rule reserve_Ok_inv [OF inv r])
  have "map_of (vads m1) b \<noteq> None" by (rule reserve_Ok [OF inv r]) simp
  moreover have bal: "b + al \<le> USER_LIMIT"
    by (rule reserve_Ok [OF inv r]) (use align_up_aligned [OF al(1)] in auto)
  have "b + i * PAGE_SIZE \<le> u64_max" if "i < al div PAGE_SIZE" for i
  proof -
    have "i * PAGE_SIZE \<le> al" using that by (metis div_times_less_eq_dividend less_imp_le_nat mult_le_mono1 order_trans)
    then show ?thesis using bal by (simp add: USER_LIMIT_def u64_max_def)
  qed
  then have "\<not> list_ex (\<lambda>page. page > u64_max) (map (\<lambda>i. b + i * PAGE_SIZE) [0 ..< al div PAGE_SIZE])" by (fastforce simp: list_ex_iff not_less)
  moreover have "mapped_bytes m1 + al \<le> u64_max"
    using counters_bound(2) [OF inv1] mm_inv_dest(4) [OF inv1] bal by (simp add: counters_ok_def two_limits)
  ultimately show ?thesis using s al r by (auto simp: map_section_def Let_def)
qed

lemma trim_not_Panic: "mm_inv m \<Longrightarrow> fst (trim_working_set m target) \<noteq> Panic"
  by (simp add: trim_working_set_eq mm_inv_dest Let_def)

section \<open>The manager as a state machine\<close>

inductive mm_step :: "memory_manager \<Rightarrow> memory_manager \<Rightarrow> bool" where
  reserve: "mm_step m (snd (reserve m base sz))"
| commit: "mm_step m (snd (commit m b sz prot))"
| decommit: "mm_step m (snd (decommit m b sz))"
| protect: "mm_step m (snd (protect m b sz prot))"
| release: "mm_step m (snd (release m b sz))"
| read_mem: "mm_step m (snd (read_mem m a n))"
| write_mem: "mm_step m (snd (write_mem m a data))"
| create_section: "mm_step m (snd (create_section m kind sz initial))"
| delete_section: "mm_step m (snd (delete_section m i))"
| map_section: "mm_step m (snd (map_section m i base sz prot cow))"
| unmap_section: "mm_step m (snd (unmap_section m b))"
| trim: "mm_step m (snd (trim_working_set m k))"

lemma mm_step_inv: "mm_step m m' \<Longrightarrow> mm_inv m \<Longrightarrow> mm_inv m'"
  by (induction rule: mm_step.induct)
    (simp_all add: reserve_inv commit_inv decommit_inv protect_inv release_inv read_total write_total
      create_section_inv delete_section_inv map_section_inv unmap_section_inv trim_working_set_inv)

interpretation vm: invariant_system "\<lambda>m. m = memory_manager_new mc ms mw" mm_step mm_inv for mc ms mw
  by unfold_locales (auto simp: mm_inv_new intro: mm_step_inv)

lemmas vm_reachable = vm.reachable_inv [OF refl]

section \<open>Errors leave the manager alone\<close>

definition atomic :: "'a res \<times> memory_manager \<Rightarrow> memory_manager \<Rightarrow> bool" where
  "atomic r m \<longleftrightarrow> fst r \<noteq> Panic \<and> (\<forall>s. fst r = Err s \<longrightarrow> snd r = m)"

lemma atomic_read: "mm_inv m \<Longrightarrow> atomic (read_mem m a n) m"
  using read_spec [of m n a] by (cases "n = 0"; cases "accessible m a (a + n) False") (auto simp: atomic_def read_mem_def)

lemma atomic_write:
  assumes inv: "mm_inv m"
  shows "atomic (write_mem m a data) m"
proof (cases "data = [] \<or> \<not> accessible m a (a + length data) True")
  case True
  then show ?thesis using write_denied [OF inv, of data a] by (cases "data = []") (auto simp: write_mem_def atomic_def)
next
  case False
  then obtain v where v: "find_vad m a = Ok v" by (auto simp: accessible_def)
  show ?thesis
  proof (cases "shared_view v")
    case True
    then obtain mp where "vad_mapping v = Some mp" "\<not> mp_cow mp" by (auto simp: shared_view_def)
    with False inv v show ?thesis using write_shared_spec [of m data a v mp] by (auto simp: atomic_def)
  next
    case own: False
    with False inv v show ?thesis using write_own_spec [of m data a v] by (auto simp: atomic_def)
  qed
qed

lemma atomic_reserve: "mm_inv m \<Longrightarrow> atomic (reserve m base sz) m"
  using reserve_not_Panic [of m base sz] reserve_cases [of m base sz] by (auto simp: atomic_def)

lemma atomic_map_section:
  assumes inv: "mm_inv m"
  shows "atomic (map_section m sid base sz prot cow) m"
proof -
  have "snd (map_section m sid base sz prot cow) = m" if err: "fst (map_section m sid base sz prot cow) = Err s" for s
  proof (cases "prot_valid prot \<and> sz \<noteq> 0 \<and> (\<exists>s al b. map_of (sections m) sid = Some s \<and> align_up sz PAGE_SIZE = Some al \<and>
      al \<le> sec_size s \<and> fst (reserve m base al) = Ok b)")
    case False
    then show ?thesis using reserve_cases [OF inv, of base] reserve_not_Panic [OF inv, of base]
      by (auto simp: map_section_def attempt_def ok_or_def split: option.splits res.splits prod.splits) (metis fst_conv snd_conv res.distinct(1))+
  next
    case True
    then obtain s' al b m1 where s: "prot_valid prot" "sz \<noteq> 0" "map_of (sections m) sid = Some s'"
      and al: "align_up sz PAGE_SIZE = Some al" "al \<le> sec_size s'" and r: "reserve m base al = (Ok b, m1)"
      by (metis prod.collapse)
    then have False using err align_up_SomeD [OF al(1)]
      by (auto simp: map_section_def Let_def split: option.splits if_splits)
    then show ?thesis ..
  qed
  then show ?thesis using map_section_not_Panic [OF inv] by (simp add: atomic_def)
qed

lemma atomic_commit: "mm_inv m \<Longrightarrow> atomic (commit m b sz prot) m"
  using commit_not_Panic [of m b sz prot] commit_cases [of m b sz prot] by (auto simp: atomic_def)

lemma atomic_decommit: "mm_inv m \<Longrightarrow> atomic (decommit m b sz) m"
  using decommit_not_Panic [of m b sz] decommit_cases [of m b sz] by (auto simp: atomic_def)

lemma atomic_protect: "mm_inv m \<Longrightarrow> atomic (protect m b sz prot) m"
  using protect_not_Panic [of m b sz prot] protect_cases [of m b sz prot] by (auto simp: atomic_def)

lemma atomic_release: "mm_inv m \<Longrightarrow> atomic (release m b sz) m"
  using vad_pages_fit [OF vads_ok_get(1) [OF mm_inv_dest(1)], of m b] by (auto simp: atomic_def release_def Let_def split: option.splits)

lemma atomic_unmap: "mm_inv m \<Longrightarrow> atomic (unmap_section m b) m"
  using atomic_release [of m b 0] by (auto simp: atomic_def unmap_section_def split: option.splits)

lemma atomic_sections: "atomic (create_section m kind sz initial) m \<and> atomic (delete_section m i) m"
  by (auto simp: atomic_def create_section_def delete_section_def Let_def split: option.splits)

lemma atomic_trim: "mm_inv m \<Longrightarrow> atomic (trim_working_set m k) m"
  by (simp add: atomic_def trim_working_set_eq mm_inv_dest Let_def)

end
