(* ===== verification/Memory_Props.thy ===== *)
theory Memory_Props
  imports Memory_Spec
begin

text \<open>The properties of the memory manager over its reachable states, each with a concrete instance.\<close>

section \<open>A concrete manager\<close>

text \<open>A region of two pages at 0x10000 with the first page committed, and a section of one page mapped twice, shared.\<close>

definition demo_vm0 :: memory_manager where "demo_vm0 = memory_manager_new 8192 2 2"
definition demo_vm1 :: memory_manager where "demo_vm1 = snd (reserve demo_vm0 (Some 0x10000) 8192)"
definition demo_vm2 :: memory_manager where "demo_vm2 = snd (commit demo_vm1 0x10000 4096 READWRITE)"
definition demo_vm3 :: memory_manager where "demo_vm3 = snd (create_section demo_vm2 Data 4096 [])"
definition demo_vm4 :: memory_manager where "demo_vm4 = snd (map_section demo_vm3 1 (Some 0x20000) 4096 READWRITE False)"
definition demo_vm5 :: memory_manager where "demo_vm5 = snd (map_section demo_vm4 1 (Some 0x30000) 4096 READWRITE False)"

definition demo_private :: vad where
  "demo_private = \<lparr>vad_base = 0x10000, vad_size = 8192, vad_protection = READWRITE, vad_pages = [(0x10000, READWRITE)],
     vad_private = [(0x10000, replicate 4096 0)], vad_mapping = None\<rparr>"

definition demo_view :: "nat \<Rightarrow> vad" where
  "demo_view b = \<lparr>vad_base = b, vad_size = 4096, vad_protection = READWRITE, vad_pages = [(b, READWRITE)],
     vad_private = [], vad_mapping = Some \<lparr>mp_section = 1, mp_offset = 0, mp_cow = False\<rparr>\<rparr>"

lemmas align_up_4096 = align_up_page [unfolded PAGE_SIZE_def]

lemmas vm_eval = reserve_def reserve_at_def commit_def align_up_4096 checked_add64_def checked_mul64_def saturating_add64_def
  overlaps_def validate_range_def find_vad_def end_traps_def om_last_le_def page_range_def range_pages_def committed_count_def commit_pages_def
  protect_pages_def create_section_def map_section_def prot_valid_def prot_defs vad_end_def
  PAGE_SIZE_def MAX_REGION_SIZE_def MAX_SECTION_SIZE_def USER_LIMIT_def u64_max_def ok_or_def Let_def

lemma demo_vm1_eq: "demo_vm1 = (memory_manager_new 8192 2 2)\<lparr>vads := [(0x10000, new_vad 0x10000 8192)], next_base := 0x12000\<rparr>"
  by (simp add: demo_vm1_def demo_vm0_def memory_manager_new_def DEFAULT_BASE_def vm_eval)

lemma demo_vm2_eq:
  "demo_vm2 = (memory_manager_new 8192 2 2)\<lparr>vads := [(0x10000, demo_private)], next_base := 0x12000, committed_bytes := 4096\<rparr>"
  by (simp add: demo_vm2_def demo_vm1_eq memory_manager_new_def demo_private_def vm_eval)

lemma demo_vm3_eq:
  "demo_vm3 = (memory_manager_new 8192 2 2)\<lparr>vads := [(0x10000, demo_private)], next_base := 0x12000, committed_bytes := 4096,
     next_section := 2, sections := [(1, \<lparr>sec_id = 1, sec_kind = Data, sec_size = 4096, sec_backing = replicate 4096 0\<rparr>)]\<rparr>"
  by (simp add: demo_vm3_def demo_vm2_eq memory_manager_new_def vm_eval)

lemma demo_vm4_eq:
  "demo_vm4 = demo_vm3\<lparr>vads := [(0x10000, demo_private), (0x20000, demo_view 0x20000)], next_base := 0x21000, mapped_bytes := 4096\<rparr>"
  by (simp add: demo_vm4_def demo_vm3_eq memory_manager_new_def demo_private_def demo_view_def vm_eval)

lemma demo_vm5_eq:
  "demo_vm5 = demo_vm3\<lparr>vads := [(0x10000, demo_private), (0x20000, demo_view 0x20000), (0x30000, demo_view 0x30000)],
     next_base := 0x31000, mapped_bytes := 8192\<rparr>"
  by (simp add: demo_vm5_def demo_vm4_eq demo_vm3_eq memory_manager_new_def demo_private_def demo_view_def vm_eval)

lemma demo_vm5_reachable: "mm_step\<^sup>*\<^sup>* (memory_manager_new 8192 2 2) demo_vm5"
proof -
  have "mm_step demo_vm0 demo_vm1" "mm_step demo_vm1 demo_vm2" "mm_step demo_vm2 demo_vm3" "mm_step demo_vm3 demo_vm4" "mm_step demo_vm4 demo_vm5"
    unfolding demo_vm1_def demo_vm2_def demo_vm3_def demo_vm4_def demo_vm5_def by (rule mm_step.intros)+
  then have "mm_step\<^sup>*\<^sup>* demo_vm0 demo_vm5" by (meson rtranclp.rtrancl_into_rtrancl rtranclp.rtrancl_refl)
  then show ?thesis by (simp add: demo_vm0_def)
qed

section \<open>Properties\<close>

text \<open>
  C8. In every manager reachable from a new one, regions are page aligned, lie below the user limit and
  are pairwise disjoint; every committed page lies within its region; a page is committed in at most
  one region; and the working set holds only committed pages, no more than its cap.
\<close>
theorem vm_regions_separated:
  assumes "mm_step\<^sup>*\<^sup>* (memory_manager_new mc ms mw) m"
    and "map_of (vads m) b = Some v" and "map_of (vads m) c = Some w"
  shows "PAGE_SIZE dvd b \<and> PAGE_SIZE dvd vad_size v \<and> 0 < vad_size v \<and> b + vad_size v \<le> USER_LIMIT \<and>
     (b \<noteq> c \<longrightarrow> b + vad_size v \<le> c \<or> c + vad_size w \<le> b) \<and>
     (\<forall>p. map_of (vad_pages v) p \<noteq> None \<longrightarrow> PAGE_SIZE dvd p \<and> b \<le> p \<and> p + PAGE_SIZE \<le> b + vad_size v) \<and>
     (\<forall>p. map_of (vad_pages v) p \<noteq> None \<and> map_of (vad_pages w) p \<noteq> None \<longrightarrow> b = c) \<and>
     card (resident m) \<le> max_working_set m \<and> (\<forall>p \<in> resident m. peek m p \<noteq> None)"
proof -
  have inv: "mm_inv m" by (rule vm_reachable [OF assms(1)])
  note d = mm_inv_dest [OF inv]
  note v = vads_ok_get(1) [OF d(1) assms(2)] and w = vads_ok_get(1) [OF d(1) assms(3)]
  have "vads_disjoint (vads m)" using d(1) by (simp add: vads_ok_def)
  then have sep: "b \<noteq> c \<longrightarrow> b + vad_size v \<le> c \<or> c + vad_size w \<le> b"
    using assms(2,3) unfolding vads_disjoint_def by (meson linorder_neqE_nat)
  have pages: "PAGE_SIZE dvd p \<and> b \<le> p \<and> p + PAGE_SIZE \<le> b + vad_size v" if "map_of (vad_pages v) p \<noteq> None" for p
    using vad_page_end [OF v that] v by (simp add: vad_pages_ok_def vad_end_def)
  have one: "b = c" if "map_of (vad_pages v) p \<noteq> None" "map_of (vad_pages w) p \<noteq> None" for p
  proof (rule ccontr)
    assume "b \<noteq> c"
    then have "b + vad_size v \<le> c \<or> c + vad_size w \<le> b" using sep by blast
    moreover have "vad_end w = c + vad_size w" using w by (simp add: vad_pages_ok_def vad_end_def)
    ultimately show False using pages [OF that(1)] vad_page_end [OF w that(2)] PAGE_SIZE_pos(1) by linarith
  qed
  have "peek m p \<noteq> None" if res: "p \<in> resident m" for p
  proof -
    obtain b' v' where g: "map_of (vads m) b' = Some v'" "map_of (vad_pages v') p \<noteq> None"
      using d(3) res unfolding resident_ok_def committed_in_def by blast
    note p = vad_page_end [OF vads_ok_get(1) [OF d(1) g(1)] g(2)]
    have "vad_base v' = b'" using vads_ok_get(1) [OF d(1) g(1)] by (simp add: vad_pages_ok_def)
    moreover have "p < vad_end v'" using p(3) PAGE_SIZE_pos(1) by linarith
    ultimately have "find_vad m p = Ok v'" unfolding find_vad_Ok [OF d(1)] using g(1) p(2) by blast
    moreover have "page_of p = p" using p(1) by (intro page_of_eq) simp_all
    ultimately show ?thesis using g(2) by (simp add: peek_def)
  qed
  moreover have "card (resident m) \<le> max_working_set m"
    using d(3) unfolding resident_ok_def by (metis distinct_card)
  moreover have "PAGE_SIZE dvd b \<and> PAGE_SIZE dvd vad_size v \<and> 0 < vad_size v \<and> b + vad_size v \<le> USER_LIMIT"
    using v by (simp add: vad_pages_ok_def vad_end_def)
  ultimately show ?thesis using sep pages one by blast
qed

theorem vm_regions_separated_witness:
  "map_of (vads demo_vm5) 0x10000 = Some demo_private \<and> map_of (vads demo_vm5) 0x20000 = Some (demo_view 0x20000) \<and>
   (0x10000::nat) + vad_size demo_private \<le> 0x20000"
proof -
  have g: "map_of (vads demo_vm5) 0x10000 = Some demo_private" "map_of (vads demo_vm5) 0x20000 = Some (demo_view 0x20000)"
    by (simp_all add: demo_vm5_eq)
  with vm_regions_separated [OF demo_vm5_reachable g] show ?thesis by (simp add: demo_private_def demo_view_def)
qed

text \<open>
  C9. No operation of the manager panics on a reachable state, and every operation that fails leaves the manager exactly as it
  was. The panics of the model are the failed \<open>expect\<close>s, the slices and differences of addresses out of range, and the overflows of the plain sums and products of addresses and sizes:
  the end of a region, the last page of a range, the page addresses of a view, the bytes of the committed pages of a region, and the counters of committed and of
  mapped bytes. The identifiers of sections, the offsets into a section and the cursors of the copy loops are unbounded numbers of the model.
\<close>
theorem vm_errors_atomic:
  assumes "mm_step\<^sup>*\<^sup>* (memory_manager_new mc ms mw) m"
  shows "atomic (reserve m base sz) m \<and> atomic (commit m b sz prot) m \<and> atomic (decommit m b sz) m \<and>
     atomic (protect m b sz prot) m \<and> atomic (release m b sz) m \<and> atomic (read_mem m a n) m \<and> atomic (write_mem m a data) m \<and>
     atomic (create_section m kind sz initial) m \<and> atomic (delete_section m i) m \<and>
     atomic (map_section m i base sz prot cow) m \<and> atomic (unmap_section m b) m \<and> atomic (trim_working_set m k) m"
  using vm_reachable [OF assms]
  by (simp add: atomic_reserve atomic_commit atomic_decommit atomic_protect atomic_release atomic_read atomic_write
      atomic_sections atomic_map_section atomic_unmap atomic_trim)

theorem vm_errors_atomic_witness:
  "fst (commit demo_vm5 0x10000 4096 READWRITE) = Err STATUS_ALREADY_COMMITTED \<and>
   snd (commit demo_vm5 0x10000 4096 READWRITE) = demo_vm5"
proof -
  have "fst (commit demo_vm5 0x10000 4096 READWRITE) = Err STATUS_ALREADY_COMMITTED"
    by (simp add: demo_vm5_eq demo_vm3_eq demo_private_def demo_view_def vm_eval)
  moreover have "atomic (commit demo_vm5 0x10000 4096 READWRITE) demo_vm5"
    using vm_errors_atomic [OF demo_vm5_reachable] by blast
  ultimately show ?thesis by (simp add: atomic_def)
qed

text \<open>
  C10. Reading refines the abstract memory: on a reachable manager a read of \<open>n > 0\<close> bytes succeeds exactly
  when all of them lie in one region on committed, readable pages; it then returns the bytes of the
  abstract memory in order and does not change that memory.
\<close>
theorem vm_read_refines:
  assumes "mm_step\<^sup>*\<^sup>* (memory_manager_new mc ms mw) m" and "0 < n"
  shows "(\<exists>bs. fst (read_mem m a n) = Ok bs) = accessible m a (a + n) False \<and>
     (\<forall>bs. fst (read_mem m a n) = Ok bs \<longrightarrow> map Some bs = map (peek m) [a ..< a + n]) \<and>
     peek (snd (read_mem m a n)) = peek m"
proof -
  have inv: "mm_inv m" by (rule vm_reachable [OF assms(1)])
  have "peek m x \<noteq> None" if acc: "accessible m a (a + n) False" and x: "a \<le> x" "x < a + n" for x
  proof -
    from acc obtain v where v: "find_vad m a = Ok v" "a + n \<le> vad_end v" "map_of (vad_pages v) (page_of x) \<noteq> None"
      using x unfolding accessible_def by fastforce
    have "find_vad m x = Ok v" using find_vad_region [OF mm_inv_dest(1) [OF inv] v(1) x(1)] v(2) x(2) by simp
    with v(3) show ?thesis by (simp add: peek_def)
  qed
  then have some: "map Some (map (\<lambda>x. the (peek m x)) [a ..< a + n]) = map (peek m) [a ..< a + n]"
    if "accessible m a (a + n) False" using that by auto
  show ?thesis
  proof (cases "accessible m a (a + n) False")
    case True
    with read_spec [OF inv assms(2), of a] obtain rs order where
      "read_mem m a n = (Ok (map (\<lambda>x. the (peek m x)) [a ..< a + n]), m\<lparr>resident := rs, resident_order := order\<rparr>)" by blast
    with True some show ?thesis by simp
  next
    case False
    with read_spec [OF inv assms(2), of a] obtain s where "read_mem m a n = (Err s, m)" by blast
    with False show ?thesis by simp
  qed
qed

lemma demo_private_accessible: "accessible demo_vm5 0x10000 (0x10000 + 2) wr"
proof -
  have "map_of (vad_pages demo_private) (page_of x) = Some READWRITE" if "0x10000 \<le> x" "x < 0x10002" for x
    using page_of_eq [of "0x10000" x] that by (simp add: demo_private_def PAGE_SIZE_def)
  moreover have "find_vad demo_vm5 0x10000 = Ok demo_private"
    by (simp add: demo_vm5_eq find_vad_def end_traps_def u64_max_def om_last_le_def Let_def vad_end_def demo_private_def)
  ultimately show ?thesis unfolding accessible_def
    by (intro exI [of _ demo_private]) (auto simp: vad_end_def demo_private_def readable_def writable_def)
qed

theorem vm_read_refines_witness: "\<exists>bs. fst (read_mem demo_vm5 0x10000 2) = Ok bs \<and> map Some bs = map (peek demo_vm5) [0x10000 ..< 0x10000 + 2]"
  using vm_read_refines [OF demo_vm5_reachable, of 2 "0x10000"] demo_private_accessible [of False] by auto

text \<open>
  C11. Isolation of writes: on a reachable manager a successful write into a private region or a
  copy-on-write view changes the addressed bytes of the abstract memory to the data and no other byte
  of any region, and no section.
\<close>
theorem vm_write_isolated:
  assumes "mm_step\<^sup>*\<^sup>* (memory_manager_new mc ms mw) m"
    and "write_mem m a data = (Ok (), m')" and "find_vad m a = Ok v" and "\<not> shared_view v"
  shows "peek m' x = (if a \<le> x \<and> x < a + length data then Some (data ! (x - a)) else peek m x) \<and> sections m' = sections m"
proof (cases "data = []")
  case True
  with assms(2) show ?thesis by (auto simp: write_mem_def)
next
  case False
  have "accessible m a (a + length data) True" using write_denied [OF vm_reachable [OF assms(1)] False, of a] assms(2) by auto
  from write_own_spec [OF vm_reachable [OF assms(1)] False this assms(3,4)] assms(2) show ?thesis by auto
qed

lemma demo_write_Ok:
  "\<exists>m'. write_mem demo_vm5 0x10000 [1, 2] = (Ok (), m')"
proof -
  have v: "find_vad demo_vm5 0x10000 = Ok demo_private"
    by (simp add: demo_vm5_eq find_vad_def end_traps_def u64_max_def om_last_le_def Let_def vad_end_def demo_private_def)
  have "\<not> shared_view demo_private" by (simp add: shared_view_def demo_private_def)
  from write_own_spec [OF vm_reachable [OF demo_vm5_reachable] _ _ v this, of "[1, 2]"] demo_private_accessible [of True]
  show ?thesis by auto
qed

theorem vm_write_isolated_witness:
  "peek (snd (write_mem demo_vm5 0x10000 [1, 2])) 0x10001 = Some 2 \<and>
   sections (snd (write_mem demo_vm5 0x10000 [1, 2])) = sections demo_vm5"
proof -
  have v: "find_vad demo_vm5 0x10000 = Ok demo_private" "\<not> shared_view demo_private"
    by (simp_all add: demo_vm5_eq find_vad_def end_traps_def u64_max_def om_last_le_def Let_def vad_end_def demo_private_def shared_view_def)
  obtain m' where m': "write_mem demo_vm5 0x10000 [1, 2] = (Ok (), m')" using demo_write_Ok by blast
  from vm_write_isolated [OF demo_vm5_reachable m' v, of "0x10001"] m' show ?thesis by simp
qed

text \<open>
  C12. Coherence of shared views: on a reachable manager a successful write into a shared view of a
  section changes, in every view of that section, exactly the bytes at the written section offsets that
  the view has not copied, and nothing else; the regions themselves do not change.
\<close>
theorem vm_write_shared_coherent:
  assumes "mm_step\<^sup>*\<^sup>* (memory_manager_new mc ms mw) m"
    and "write_mem m a data = (Ok (), m')" and "find_vad m a = Ok v" and "vad_mapping v = Some mp" "\<not> mp_cow mp"
  shows "peek m' x = (case section_offset m (mp_section mp) x of
        Some off \<Rightarrow> if a - vad_base v \<le> off \<and> off < a - vad_base v + length data
                    then Some (data ! (off - (a - vad_base v))) else peek m x
      | None \<Rightarrow> peek m x) \<and> vads m' = vads m"
proof (cases "data = []")
  case True
  with assms(2) show ?thesis by (auto simp: write_mem_def split: option.splits)
next
  case False
  have "accessible m a (a + length data) True" using write_denied [OF vm_reachable [OF assms(1)] False, of a] assms(2) by auto
  from write_shared_spec [OF vm_reachable [OF assms(1)] False this assms(3,4,5)] assms(2) show ?thesis by auto
qed

theorem vm_write_shared_coherent_witness:
  "\<exists>m'. write_mem demo_vm5 0x20000 [7] = (Ok (), m') \<and> peek m' 0x30000 = Some 7 \<and> vads m' = vads demo_vm5"
proof -
  have v: "find_vad demo_vm5 0x20000 = Ok (demo_view 0x20000)" "find_vad demo_vm5 0x30000 = Ok (demo_view 0x30000)"
    by (simp_all add: demo_vm5_eq find_vad_def end_traps_def u64_max_def om_last_le_def Let_def vad_end_def demo_private_def demo_view_def)
  have mp: "vad_mapping (demo_view b) = Some \<lparr>mp_section = 1, mp_offset = 0, mp_cow = False\<rparr>" "vad_base (demo_view b) = b"
    "vad_private (demo_view b) = []" for b
    by (simp_all add: demo_view_def)
  have "map_of (vad_pages (demo_view 0x20000)) (page_of x) = Some READWRITE" if "0x20000 \<le> x" "x < 0x20001" for x
    using page_of_eq [of "0x20000" x] that by (simp add: demo_view_def PAGE_SIZE_def)
  then have acc: "accessible demo_vm5 0x20000 (0x20000 + length [7 :: u8]) True" unfolding accessible_def
    by (intro exI [of _ "demo_view 0x20000"]) (auto simp: v vad_end_def demo_view_def writable_def)
  obtain m' where m': "write_mem demo_vm5 0x20000 [7] = (Ok (), m')"
    using write_shared_spec [OF vm_reachable [OF demo_vm5_reachable] _ acc v(1) mp(1)] by auto
  from vm_write_shared_coherent [OF demo_vm5_reachable m' v(1) mp(1), of "0x30000"] m' show ?thesis
    by (simp add: section_offset_def v(2) mp)
qed

text \<open>
  Read after write: on a reachable manager, whatever the kind of the region, reading back the range of a
  successful write returns the data written.
\<close>
theorem vm_read_after_write:
  assumes "mm_step\<^sup>*\<^sup>* (memory_manager_new mc ms mw) m" and w: "write_mem m a data = (Ok (), m')"
  shows "fst (read_mem m' a (length data)) = Ok data"
proof (cases "data = []")
  case True
  then show ?thesis by (simp add: read_mem_def)
next
  case False
  have inv: "mm_inv m" by (rule vm_reachable [OF assms(1)])
  have acc: "accessible m a (a + length data) True" using write_denied [OF inv False, of a] w by auto
  then obtain v where v: "find_vad m a = Ok v" "a + length data \<le> vad_end v" by (auto simp: accessible_def)
  have readable: "accessible m a (a + length data) False"
    using acc unfolding accessible_def by (fastforce simp: readable_def writable_def)
  have "mm_inv m' \<and> accessible m' = accessible m \<and> (\<forall>x. a \<le> x \<and> x < a + length data \<longrightarrow> peek m' x = Some (data ! (x - a)))"
  proof (cases "shared_view v")
    case True
    then obtain mp where mp: "vad_mapping v = Some mp" "\<not> mp_cow mp" by (auto simp: shared_view_def)
    have base: "vad_base v \<le> a" "map_of (vads m) (vad_base v) = Some v" using v(1) by (simp_all add: find_vad_Ok [OF mm_inv_dest(1) [OF inv]])
    have "vad_private v = []" using vads_ok_get(2) [OF mm_inv_dest(1) [OF inv] base(2)] mp by (simp add: view_ok_def)
    then have "section_offset m (mp_section mp) x = Some (x - vad_base v)" if "a \<le> x" "x < a + length data" for x
      using find_vad_region [OF mm_inv_dest(1) [OF inv] v(1), of x] that v(2) mp by (simp add: section_offset_def)
    with write_shared_spec [OF inv False acc v(1) mp] w base(1) show ?thesis by auto
  next
    case own: False
    from write_own_spec [OF inv False acc v(1) own] w show ?thesis by auto
  qed
  then have m': "mm_inv m'" "accessible m' a (a + length data) False" "\<forall>x. a \<le> x \<and> x < a + length data \<longrightarrow> peek m' x = Some (data ! (x - a))"
    using readable by simp_all
  have "map (\<lambda>x. the (peek m' x)) [a ..< a + length data] = data"
    using m'(3) by (intro nth_equalityI) simp_all
  with read_spec [OF m'(1), of "length data" a] m'(2) False show ?thesis by auto
qed

theorem vm_read_after_write_witness: "fst (read_mem (snd (write_mem demo_vm5 0x10000 [1, 2])) 0x10000 2) = Ok [1, 2]"
proof -
  obtain m' where m': "write_mem demo_vm5 0x10000 [1, 2] = (Ok (), m')" using demo_write_Ok by blast
  with vm_read_after_write [OF demo_vm5_reachable m'] show ?thesis by (simp add: numeral_2_eq_2)
qed

text \<open>
  Commitment round trip: on a reachable manager a successful \<open>commit\<close> charges the range rounded up to
  pages, within the commit limit, and makes exactly its bytes appear, as zeros; the matching \<open>decommit\<close>
  then succeeds, takes exactly these bytes away again and returns the whole charge.
\<close>
theorem vm_commit_decommit:
  assumes "mm_step\<^sup>*\<^sup>* (memory_manager_new mc ms mw) m" and c: "commit m b sz prot = (Ok (), m')"
    and al: "align_up sz PAGE_SIZE = Some al"
  shows "(\<forall>x. peek m' x = (if b \<le> x \<and> x < b + al then Some 0 else peek m x)) \<and>
     (\<forall>x. b \<le> x \<and> x < b + al \<longrightarrow> peek m x = None) \<and>
     committed_bytes m' = committed_bytes m + al \<and> committed_bytes m + al \<le> max_commit m \<and>
     fst (decommit m' b sz) = Ok () \<and> peek (snd (decommit m' b sz)) = peek m \<and>
     committed_bytes (snd (decommit m' b sz)) = committed_bytes m"
  using commit_peek [OF vm_reachable [OF assms(1)] c al] decommit_undoes_commit [OF vm_reachable [OF assms(1)] c] by blast

theorem vm_commit_decommit_witness:
  "fst (commit demo_vm5 0x11000 100 READONLY) = Ok () \<and> peek (snd (commit demo_vm5 0x11000 100 READONLY)) 0x11FFF = Some 0 \<and>
   committed_bytes (snd (commit demo_vm5 0x11000 100 READONLY)) = 8192"
proof -
  have c: "fst (commit demo_vm5 0x11000 100 READONLY) = Ok ()"
    by (simp add: demo_vm5_eq demo_vm3_eq memory_manager_new_def demo_private_def demo_view_def vm_eval)
  then have c': "commit demo_vm5 0x11000 100 READONLY = (Ok (), snd (commit demo_vm5 0x11000 100 READONLY))" by (metis prod.collapse)
  have al: "align_up 100 PAGE_SIZE = Some 4096" by (simp add: align_up_4096 u64_max_def PAGE_SIZE_def)
  have "committed_bytes demo_vm5 = 4096" by (simp add: demo_vm5_eq demo_vm3_eq)
  with vm_commit_decommit [OF demo_vm5_reachable c' al] c show ?thesis by simp
qed

text \<open>
  C13. Unmapping undercounts commitment: on a reachable manager, mapping a section and unmapping the view
  again restores every region and the mapped bytes, but takes the whole view size off the committed bytes
  although \<open>map_section\<close> never charged it, so that pages of private regions stay committed without being
  counted against the limit.
\<close>
theorem vm_unmap_undercounts:
  assumes "mm_step\<^sup>*\<^sup>* (memory_manager_new mc ms mw) m" and "map_section m sid base sz prot cow = (Ok b, m1)"
  shows "\<exists>m2 n. unmap_section m1 b = (Ok n, m2) \<and> sz \<le> n \<and> vads m2 = vads m \<and>
     mapped_bytes m2 = mapped_bytes m \<and> committed_bytes m2 = committed_bytes m - n"
  using unmap_after_map [OF vm_reachable [OF assms(1)] assms(2)] align_up_SomeD by meson

theorem vm_unmap_undercounts_witness:
  "private_bytes (vads demo_vm4) = 4096 \<and> committed_bytes demo_vm4 = 4096 \<and>
   (\<exists>m1 m2. map_section demo_vm4 1 (Some 0x30000) 4096 READWRITE False = (Ok 0x30000, m1) \<and>
      snd (unmap_section m1 0x30000) = m2 \<and> private_bytes (vads m2) = 4096 \<and> committed_bytes m2 = 0)"
proof -
  have r: "mm_step\<^sup>*\<^sup>* (memory_manager_new 8192 2 2) demo_vm4"
  proof -
    have "mm_step demo_vm0 demo_vm1" "mm_step demo_vm1 demo_vm2" "mm_step demo_vm2 demo_vm3" "mm_step demo_vm3 demo_vm4"
      unfolding demo_vm1_def demo_vm2_def demo_vm3_def demo_vm4_def by (rule mm_step.intros)+
    then have "mm_step\<^sup>*\<^sup>* demo_vm0 demo_vm4" by (meson rtranclp.rtrancl_into_rtrancl rtranclp.rtrancl_refl)
    then show ?thesis by (simp add: demo_vm0_def)
  qed
  have p: "private_bytes (vads demo_vm4) = 4096" "committed_bytes demo_vm4 = 4096"
    by (simp_all add: demo_vm4_eq demo_vm3_eq private_bytes_def demo_private_def demo_view_def PAGE_SIZE_def)
  have "fst (map_section demo_vm4 1 (Some 0x30000) 4096 READWRITE False) = Ok 0x30000"
    by (simp add: demo_vm4_eq demo_vm3_eq memory_manager_new_def demo_private_def demo_view_def vm_eval)
  then obtain m1 where m1: "map_section demo_vm4 1 (Some 0x30000) 4096 READWRITE False = (Ok 0x30000, m1)" by (metis prod.collapse)
  from vm_unmap_undercounts [OF r m1] p m1 show ?thesis by auto
qed

text \<open>
  Trimming is first in, first out: on a reachable manager \<open>trim_working_set\<close> evicts exactly as many pages
  as exceed the target, those that became resident first, keeps the others in their order, and changes neither
  the regions nor the abstract memory.
\<close>
theorem vm_trim_fifo:
  assumes "mm_step\<^sup>*\<^sup>* (memory_manager_new mc ms mw) m"
  shows "fst (trim_working_set m target) = Ok (card (resident m) - target) \<and>
     resident_order (snd (trim_working_set m target)) = drop (card (resident m) - target) (resident_order m) \<and>
     resident (snd (trim_working_set m target)) = set (drop (card (resident m) - target) (resident_order m)) \<and>
     card (resident (snd (trim_working_set m target))) = min target (card (resident m)) \<and>
     peek (snd (trim_working_set m target)) = peek m"
proof -
  note ok = mm_inv_dest(3) [OF vm_reachable [OF assms]]
  have d: "distinct (resident_order m)" "set (resident_order m) = resident m" using ok by (simp_all add: resident_ok_def)
  then have c: "card (resident m) = length (resident_order m)" using distinct_card by metis
  have "card (set (drop k (resident_order m))) = length (resident_order m) - k" for k
    using d(1) by (simp add: distinct_card)
  then show ?thesis by (simp add: trim_working_set_eq [OF ok] Let_def c min_def)
qed

lemma demo_read_resident:
  "resident_order (snd (read_mem demo_vm5 0x10000 1)) = [0x10000] \<and> resident (snd (read_mem demo_vm5 0x10000 1)) = {0x10000}"
  by (simp add: demo_vm5_eq demo_vm3_eq memory_manager_new_def demo_private_def demo_view_def read_mem_def check_access_def
      readable_def vm_eval read_loop.simps [of _ "65536" "65536"] read_loop.simps [of _ "65536" "65537"] page_bytes_def touch_def)

theorem vm_trim_fifo_witness:
  "fst (trim_working_set (snd (read_mem demo_vm5 0x10000 1)) 0) = Ok 1 \<and>
   resident (snd (trim_working_set (snd (read_mem demo_vm5 0x10000 1)) 0)) = {}"
  using vm_trim_fifo [OF rtranclp.rtrancl_into_rtrancl [OF demo_vm5_reachable mm_step.read_mem [of demo_vm5 "0x10000" 1]], of 0]
    demo_read_resident by simp

end
