(* ===== verification/Mdl_Table.thy ===== *)
theory Mdl_Table
  imports Memory_Props
begin

text \<open>
  The table of memory descriptor lists: its page accounting, and the life of a descriptor between
  allocation, locking, unlocking and freeing. Every operation that checks access takes the memory manager
  of that moment as an argument, as in the code.
\<close>

section \<open>Accounting\<close>

definition mdl_locked_sum :: "(nat, mdl) omap \<Rightarrow> nat" where
  "mdl_locked_sum = om_sum (\<lambda>_ r. if mdl_locked r then mdl_page_count r else 0)"

definition mdl_ok :: "nat \<Rightarrow> mdl \<Rightarrow> bool" where
  "mdl_ok i r \<longleftrightarrow> mdl_id r = i \<and> 0 < mdl_byte_count r \<and> mdl_byte_count r \<le> u32_max \<and>
     mdl_page_count r = length (range_pages (mdl_virtual_address r, mdl_virtual_address r + mdl_byte_count r))"

definition mdl_inv :: "mdl_table \<Rightarrow> bool" where
  "mdl_inv t \<longleftrightarrow> fresh_ids (mdls t) (mdl_next_id t) \<and> (\<forall>i r. map_of (mdls t) i = Some r \<longrightarrow> mdl_ok i r) \<and>
     locked_pages t = mdl_locked_sum (mdls t) \<and> locked_pages t \<le> peak_locked_pages t"

lemma mdl_page_count_eq:
  "(va mod PAGE_SIZE + n + PAGE_SIZE - 1) div PAGE_SIZE = length (range_pages (va, va + n))"
proof -
  have "va + n + PAGE_SIZE - 1 = (va mod PAGE_SIZE + n + PAGE_SIZE - 1) + va div PAGE_SIZE * PAGE_SIZE"
    using div_mult_mod_eq [of va PAGE_SIZE] PAGE_SIZE_pos(1) by linarith
  then have "(va + n + PAGE_SIZE - 1) div PAGE_SIZE = va div PAGE_SIZE + (va mod PAGE_SIZE + n + PAGE_SIZE - 1) div PAGE_SIZE"
    by (metis PAGE_SIZE_pos(2) div_mult_self1)
  then show ?thesis by (simp add: range_pages_def)
qed

lemma mdl_inv_dest:
  assumes "mdl_inv t"
  shows "om_wf (mdls t)" "\<And>i r. map_of (mdls t) i = Some r \<Longrightarrow> mdl_ok i r"
  using assms by (auto simp: mdl_inv_def dest: fresh_ids_wf)

lemma mdl_inv_new: "mdl_inv mdl_table_new"
  by (simp add: mdl_inv_def mdl_table_new_def mdl_locked_sum_def)

lemma mdl_allocate_inv:
  assumes inv: "mdl_inv t"
  shows "mdl_inv (snd (mdl_allocate t m va n wr))"
proof (cases "\<exists>i. fst (mdl_allocate t m va n wr) = Ok i")
  case False
  then have "snd (mdl_allocate t m va n wr) = t"
    by (auto simp: mdl_allocate_def attempt_def ok_or_def Let_def split: if_splits res.splits option.splits)
  with inv show ?thesis by simp
next
  case True
  let ?i = "mdl_next_id t"
  let ?r = "\<lparr>mdl_id = ?i, mdl_virtual_address = va, mdl_byte_count = n, mdl_write_access = wr, mdl_locked = False,
     mdl_page_count = (va mod PAGE_SIZE + n + PAGE_SIZE - 1) div PAGE_SIZE\<rparr>"
  from True have n: "0 < n" "n \<le> u32_max" and t': "snd (mdl_allocate t m va n wr) = t\<lparr>mdl_next_id := ?i + 1, mdls := om_insert ?i ?r (mdls t)\<rparr>"
    by (auto simp: mdl_allocate_def attempt_def ok_or_def Let_def split: if_splits res.splits option.splits)
  have "map_of (mdls t) ?i = None" using inv by (auto simp: mdl_inv_def intro: fresh_ids_absent)
  then have "mdl_locked_sum (om_insert ?i ?r (mdls t)) = mdl_locked_sum (mdls t)"
    by (simp add: mdl_locked_sum_def om_sum_insert_fresh)
  moreover have "mdl_ok ?i ?r" using n by (simp add: mdl_ok_def mdl_page_count_eq [unfolded One_nat_def])
  ultimately show ?thesis using inv unfolding t' by (auto simp: mdl_inv_def)
qed

text \<open>Locking and unlocking in terms of the descriptor.\<close>

lemma probe_and_lock_Ok:
  assumes "probe_and_lock t m i wr = (Ok (), t')"
  obtains r where "map_of (mdls t) i = Some r" "\<not> mdl_locked r" "wr \<longrightarrow> mdl_write_access r"
    "check_access m (mdl_virtual_address r) (mdl_virtual_address r + mdl_byte_count r) wr = Ok ()"
    "t' = t\<lparr>mdls := om_insert i (r\<lparr>mdl_locked := True\<rparr>) (mdls t), locked_pages := locked_pages t + mdl_page_count r,
        peak_locked_pages := max (peak_locked_pages t) (locked_pages t + mdl_page_count r)\<rparr>"
  using assms that
  by (auto simp: probe_and_lock_def attempt_eq_Ok ok_or_def split: option.splits if_splits)

lemma mdl_relock:
  assumes "mdl_inv t" "map_of (mdls t) i = Some r"
  shows "mdl_locked_sum (om_insert i (r\<lparr>mdl_locked := b\<rparr>) (mdls t)) + (if mdl_locked r then mdl_page_count r else 0) =
     mdl_locked_sum (mdls t) + (if b then mdl_page_count r else 0)"
  unfolding mdl_locked_sum_def
  using om_sum_insert_present [OF mdl_inv_dest(1) [OF assms(1)] assms(2),
      of "\<lambda>_ r. if mdl_locked r then mdl_page_count r else 0" "r\<lparr>mdl_locked := b\<rparr>"] by simp

lemma mdl_ok_relock: "mdl_ok i (r\<lparr>mdl_locked := b\<rparr>) = mdl_ok i r"
  by (simp add: mdl_ok_def)

lemma mdl_put_fresh: "mdl_inv t \<Longrightarrow> map_of (mdls t) i = Some r \<Longrightarrow> fresh_ids (om_insert i r' (mdls t)) (mdl_next_id t)"
  by (auto simp: mdl_inv_def dest: fresh_ids_bound)

lemma probe_and_lock_inv:
  assumes inv: "mdl_inv t"
  shows "mdl_inv (snd (probe_and_lock t m i wr))"
proof (cases "fst (probe_and_lock t m i wr) = Ok ()")
  case False
  then have "snd (probe_and_lock t m i wr) = t"
    by (auto simp: probe_and_lock_def attempt_def ok_or_def split: if_splits res.splits option.splits)
  with inv show ?thesis by simp
next
  case True
  then obtain t' where t': "probe_and_lock t m i wr = (Ok (), t')" by (metis prod.collapse)
  from t' show ?thesis
  proof (rule probe_and_lock_Ok)
    fix r
    assume r: "map_of (mdls t) i = Some r" "\<not> mdl_locked r"
      and eq: "t' = t\<lparr>mdls := om_insert i (r\<lparr>mdl_locked := True\<rparr>) (mdls t), locked_pages := locked_pages t + mdl_page_count r,
        peak_locked_pages := max (peak_locked_pages t) (locked_pages t + mdl_page_count r)\<rparr>"
    show ?thesis using inv mdl_relock [OF inv r(1), of True] mdl_put_fresh [OF inv r(1)] r t'
      by (auto simp: eq mdl_inv_def mdl_ok_relock)
  qed
qed

lemma mdl_unlock_inv:
  assumes inv: "mdl_inv t"
  shows "mdl_inv (snd (mdl_unlock t i))"
proof (cases "\<exists>r. map_of (mdls t) i = Some r \<and> mdl_locked r")
  case True
  then obtain r where r: "map_of (mdls t) i = Some r" "mdl_locked r" by blast
  show ?thesis using inv mdl_relock [OF inv r(1), of False] mdl_put_fresh [OF inv r(1)] r
    by (auto simp: mdl_unlock_def mdl_inv_def mdl_ok_relock)
qed (use inv in \<open>auto simp: mdl_unlock_def attempt_def ok_or_def split: option.splits\<close>)

lemma mdl_free_inv:
  assumes inv: "mdl_inv t"
  shows "mdl_inv (snd (mdl_free t i))"
proof (cases "\<exists>r. map_of (mdls t) i = Some r \<and> \<not> mdl_locked r")
  case True
  then obtain r where r: "map_of (mdls t) i = Some r" "\<not> mdl_locked r" by blast
  have "mdl_locked_sum (om_remove i (mdls t)) = mdl_locked_sum (mdls t)"
    unfolding mdl_locked_sum_def using om_sum_remove [OF mdl_inv_dest(1) [OF inv] r(1), of "\<lambda>_ r. if mdl_locked r then mdl_page_count r else 0"] r(2) by simp
  then show ?thesis using inv r by (auto simp: mdl_free_def mdl_inv_def split: if_splits)
qed (use inv in \<open>auto simp: mdl_free_def attempt_def ok_or_def split: option.splits\<close>)

inductive mdl_step :: "mdl_table \<Rightarrow> mdl_table \<Rightarrow> bool" where
  alloc: "mdl_step t (snd (mdl_allocate t m va n wr))"
| lock: "mdl_step t (snd (probe_and_lock t m i wr))"
| unlock: "mdl_step t (snd (mdl_unlock t i))"
| free: "mdl_step t (snd (mdl_free t i))"

interpretation mdlt: invariant_system "\<lambda>t. t = mdl_table_new" mdl_step mdl_inv
  by unfold_locales
    (auto simp: mdl_inv_new intro: mdl_allocate_inv probe_and_lock_inv mdl_unlock_inv mdl_free_inv elim!: mdl_step.cases)

section \<open>Properties\<close>

definition demo_mdl :: mdl_table where
  "demo_mdl = snd (mdl_allocate mdl_table_new demo_vm5 0x10FF0 0x10 True)"

lemma demo_mdl_eq:
  "demo_mdl = \<lparr>mdls = [(1, \<lparr>mdl_id = 1, mdl_virtual_address = 0x10FF0, mdl_byte_count = 0x10, mdl_write_access = True,
     mdl_locked = False, mdl_page_count = 1\<rparr>)], mdl_next_id = 2, locked_pages = 0, peak_locked_pages = 0\<rparr>"
  by (simp add: demo_mdl_def mdl_allocate_def mdl_table_new_def check_access_def demo_vm5_eq demo_private_def demo_view_def
      writable_def u32_max_def vm_eval)

lemma demo_mdl_reachable: "mdl_step\<^sup>*\<^sup>* mdl_table_new demo_mdl"
  unfolding demo_mdl_def by (intro r_into_rtranclp mdl_step.alloc)

text \<open>
  The locked pages of a reachable table are exactly the sum of the page counts of the locked
  descriptors, never above the recorded peak, and the page count of every descriptor is the number of pages
  its byte range touches.
\<close>
theorem mdl_accounting:
  assumes "mdl_step\<^sup>*\<^sup>* mdl_table_new t"
  shows "locked_pages t = om_sum (\<lambda>_ r. if mdl_locked r then mdl_page_count r else 0) (mdls t) \<and>
     locked_pages t \<le> peak_locked_pages t \<and>
     (\<forall>i r. mdl_query t i = Ok r \<longrightarrow>
        mdl_page_count r = card {p. \<exists>x. mdl_virtual_address r \<le> x \<and> x < mdl_virtual_address r + mdl_byte_count r \<and> page_of x = p})"
proof -
  have inv: "mdl_inv t" by (rule mdlt.reachable_inv [OF refl assms])
  have "mdl_page_count r = card {p. \<exists>x. mdl_virtual_address r \<le> x \<and> x < mdl_virtual_address r + mdl_byte_count r \<and> page_of x = p}"
    if "mdl_query t i = Ok r" for i r
  proof -
    let ?a = "mdl_virtual_address r" let ?e = "mdl_virtual_address r + mdl_byte_count r"
    have r: "mdl_ok i r" using inv that by (auto simp: mdl_inv_def mdl_query_def ok_or_def split: option.splits)
    then have "?a < ?e" by (simp add: mdl_ok_def)
    then have "{p. \<exists>x. ?a \<le> x \<and> x < ?e \<and> page_of x = p} = set (range_pages (?a, ?e))"
      using page_of_in_range [of ?a _ ?e] by (blast elim: range_page_has_address)
    then show ?thesis using r by (simp add: mdl_ok_def distinct_card distinct_range_pages)
  qed
  then show ?thesis using inv by (auto simp: mdl_inv_def mdl_locked_sum_def)
qed

theorem mdl_accounting_witness:
  "locked_pages demo_mdl = 0 \<and> mdl_query demo_mdl 1 \<noteq> Err STATUS_INVALID_HANDLE \<and>
   card {p. \<exists>x. 0x10FF0 \<le> x \<and> x < 0x10FF0 + 0x10 \<and> page_of x = p} = 1"
proof -
  have "mdl_query demo_mdl 1 = Ok \<lparr>mdl_id = 1, mdl_virtual_address = 0x10FF0, mdl_byte_count = 0x10, mdl_write_access = True,
     mdl_locked = False, mdl_page_count = 1\<rparr>" by (simp add: mdl_query_def demo_mdl_eq)
  moreover note mdl_accounting [OF demo_mdl_reachable]
  ultimately have "card {p. \<exists>x. 0x10FF0 \<le> x \<and> x < 0x10FF0 + 0x10 \<and> page_of x = p} = 1" by fastforce
  then show ?thesis by (simp add: demo_mdl_eq mdl_query_def)
qed

text \<open>
  A lock is exclusive and undone by unlocking: locking a descriptor of a reachable table succeeds only on
  memory that is accessible for the requested kind of access; while it is locked it can be neither locked
  again nor freed, and both attempts leave the table alone; unlocking restores the descriptors and the locked
  pages, after which a second unlock fails.
\<close>
theorem mdl_lock_cycle:
  assumes "mdl_step\<^sup>*\<^sup>* mdl_table_new t" and lock: "probe_and_lock t m i wr = (Ok (), t1)"
  shows "(\<exists>r. mdl_query t i = Ok r \<and> accessible m (mdl_virtual_address r) (mdl_virtual_address r + mdl_byte_count r) wr) \<and>
     probe_and_lock t1 m' i wr' = (Err STATUS_INVALID_DEVICE_STATE, t1) \<and>
     mdl_free t1 i = (Err STATUS_INVALID_DEVICE_STATE, t1) \<and>
     fst (mdl_unlock t1 i) = Ok () \<and> mdls (snd (mdl_unlock t1 i)) = mdls t \<and>
     locked_pages (snd (mdl_unlock t1 i)) = locked_pages t \<and>
     fst (mdl_unlock (snd (mdl_unlock t1 i)) i) = Err STATUS_INVALID_DEVICE_STATE"
  using lock
proof (rule probe_and_lock_Ok)
  fix r
  assume r: "map_of (mdls t) i = Some r" "\<not> mdl_locked r"
    and acc: "check_access m (mdl_virtual_address r) (mdl_virtual_address r + mdl_byte_count r) wr = Ok ()"
    and t1: "t1 = t\<lparr>mdls := om_insert i (r\<lparr>mdl_locked := True\<rparr>) (mdls t), locked_pages := locked_pages t + mdl_page_count r,
        peak_locked_pages := max (peak_locked_pages t) (locked_pages t + mdl_page_count r)\<rparr>"
  have inv: "mdl_inv t" by (rule mdlt.reachable_inv [OF refl assms(1)])
  have "0 < mdl_byte_count r" using mdl_inv_dest(2) [OF inv r(1)] by (simp add: mdl_ok_def)
  then have "accessible m (mdl_virtual_address r) (mdl_virtual_address r + mdl_byte_count r) wr"
    using acc by (simp add: check_access_iff(1))
  moreover have "r\<lparr>mdl_locked := False\<rparr> = r" using r(2) by simp
  then have "om_insert i (r\<lparr>mdl_locked := False\<rparr>) (mdls t) = mdls t"
    using om_insert_same [OF mdl_inv_dest(1) [OF inv] r(1)] by simp
  ultimately show ?thesis using r
    by (simp add: t1 mdl_query_def probe_and_lock_def mdl_free_def mdl_unlock_def)
qed

theorem mdl_lock_cycle_witness:
  "\<exists>t1. probe_and_lock demo_mdl demo_vm5 1 True = (Ok (), t1) \<and> locked_pages t1 = 1 \<and>
     mdl_free t1 1 = (Err STATUS_INVALID_DEVICE_STATE, t1) \<and> fst (mdl_unlock t1 1) = Ok ()"
proof -
  obtain t1 where t1: "probe_and_lock demo_mdl demo_vm5 1 True = (Ok (), t1)" "locked_pages t1 = 1"
    by (simp add: probe_and_lock_def demo_mdl_eq check_access_def demo_vm5_eq demo_private_def demo_view_def writable_def vm_eval)
  from mdl_lock_cycle [OF demo_mdl_reachable t1(1)] t1 show ?thesis by blast
qed

end
