(* ===== verification/Interrupts.thy ===== *)
theory Interrupts
  imports Status
begin

text \<open>
  The virtual interrupt controller of \<open>src/src/casak/interrupt.rs\<close>: connections validated against the
  vector, IRQL and sharing rules, dispatches in flight, and disconnection that waits for them.
  Guest objects, identifiers and vectors are \<open>nat\<close>; IRQLs are bytes, modes 32-bit and affinities
  64-bit words. The dispatch counter of an interrupt is a \<open>u32\<close> whose overflow panics.
\<close>

section \<open>Definitions\<close>

definition MIN_DEVICE_IRQL :: u8 where "MIN_DEVICE_IRQL = 3"
definition MAX_IRQL :: u8 where "MAX_IRQL = 15"
definition ONLINE_AFFINITY :: "64 word" where "ONLINE_AFFINITY = 0xFFFF"
definition INTERRUPT_LATCHED :: u32 where "INTERRUPT_LATCHED = 0"
definition INTERRUPT_LEVEL_SENSITIVE :: u32 where "INTERRUPT_LEVEL_SENSITIVE = 1"
definition CONNECT_LINE_BASED :: u32 where "CONNECT_LINE_BASED = 0"
definition CONNECT_MESSAGE_BASED :: u32 where "CONNECT_MESSAGE_BASED = 1"
definition CONNECT_FULLY_SPECIFIED :: u32 where "CONNECT_FULLY_SPECIFIED = 2"

lemmas irq_consts = MIN_DEVICE_IRQL_def MAX_IRQL_def ONLINE_AFFINITY_def INTERRUPT_LATCHED_def INTERRUPT_LEVEL_SENSITIVE_def
  CONNECT_LINE_BASED_def CONNECT_MESSAGE_BASED_def CONNECT_FULLY_SPECIFIED_def

record connect_request =
  cr_guest_object :: nat
  cr_service_routine :: nat
  cr_service_context :: nat
  cr_spin_lock :: nat
  cr_vector :: nat
  cr_irql :: u8
  cr_synchronize_irql :: u8
  cr_mode :: u32
  cr_share_vector :: bool
  cr_affinity :: "64 word"

record virtual_interrupt =
  vi_id :: nat
  vi_guest_object :: nat
  vi_service_routine :: nat
  vi_service_context :: nat
  vi_spin_lock :: nat
  vi_vector :: nat
  vi_irql :: u8
  vi_synchronize_irql :: u8
  vi_mode :: u32
  vi_share_vector :: bool
  vi_affinity :: "64 word"
  vi_connected :: bool
  vi_in_flight :: nat
  vi_disconnect_pending :: bool

record dispatch_ticket =
  dt_id :: nat
  dt_guest_object :: nat
  dt_service_routine :: nat
  dt_service_context :: nat
  dt_irql :: u8

datatype disconnect_outcome = Deferred | Removed

record interrupt_manager =
  interrupts :: "(nat, virtual_interrupt) omap"
  by_id :: "(nat, nat) omap"
  vectors :: "(nat, nat list) omap"
  im_next_id :: nat
  isr_invocations :: nat
  dispatches :: nat
  disconnected :: nat

definition interrupt_manager_new :: interrupt_manager where
  "interrupt_manager_new = \<lparr>interrupts = [], by_id = [], vectors = [], im_next_id = 1,
     isr_invocations = 0, dispatches = 0, disconnected = 0\<rparr>"

definition vector_objects :: "interrupt_manager \<Rightarrow> nat \<Rightarrow> nat list" where
  "vector_objects m v = (case map_of (vectors m) v of None \<Rightarrow> [] | Some l \<Rightarrow> l)"

text \<open>The loop of \<open>connect\<close> over the objects already on the vector.\<close>

definition vector_conflict :: "interrupt_manager \<Rightarrow> connect_request \<Rightarrow> bool" where
  "vector_conflict m r = list_ex (\<lambda>g. case map_of (interrupts m) g of
      None \<Rightarrow> False
    | Some x \<Rightarrow> \<not> vi_share_vector x \<or> \<not> cr_share_vector r \<or> vi_mode x \<noteq> cr_mode r \<or> vi_irql x \<noteq> cr_irql r)
      (vector_objects m (cr_vector r))"

definition connect :: "interrupt_manager \<Rightarrow> connect_request \<Rightarrow> nat res \<times> interrupt_manager" where
  "connect m r =
     (if cr_guest_object r = 0 \<or> cr_service_routine r = 0 then (Err STATUS_INVALID_PARAMETER, m)
      else if cr_vector r = 0 \<or> cr_vector r > 255 then (Err STATUS_INVALID_PARAMETER, m)
      else if \<not> (MIN_DEVICE_IRQL \<le> cr_irql r \<and> cr_irql r \<le> MAX_IRQL) \<or> cr_synchronize_irql r < cr_irql r
              \<or> cr_synchronize_irql r > MAX_IRQL then (Err STATUS_INVALID_PARAMETER, m)
      else if cr_mode r \<noteq> INTERRUPT_LATCHED \<and> cr_mode r \<noteq> INTERRUPT_LEVEL_SENSITIVE then (Err STATUS_INVALID_PARAMETER, m)
      else if cr_affinity r = 0 \<or> cr_affinity r AND NOT ONLINE_AFFINITY \<noteq> 0 then (Err STATUS_INVALID_PARAMETER, m)
      else if cr_share_vector r \<and> (cr_spin_lock r = 0 \<or> cr_mode r \<noteq> INTERRUPT_LEVEL_SENSITIVE)
           then (Err STATUS_INVALID_PARAMETER, m)
      else if map_of (interrupts m) (cr_guest_object r) \<noteq> None then (Err STATUS_OBJECT_NAME_COLLISION, m)
      else if vector_conflict m r then (Err STATUS_OBJECT_NAME_COLLISION, m)
      else let i = im_next_id m; g = cr_guest_object r
           in (Ok i, m\<lparr>im_next_id := i + 1,
                interrupts := om_insert g \<lparr>vi_id = i, vi_guest_object = g, vi_service_routine = cr_service_routine r,
                  vi_service_context = cr_service_context r, vi_spin_lock = cr_spin_lock r, vi_vector = cr_vector r,
                  vi_irql = cr_irql r, vi_synchronize_irql = cr_synchronize_irql r, vi_mode = cr_mode r,
                  vi_share_vector = cr_share_vector r, vi_affinity = cr_affinity r, vi_connected = True,
                  vi_in_flight = 0, vi_disconnect_pending = False\<rparr> (interrupts m),
                by_id := om_insert i g (by_id m),
                vectors := om_insert (cr_vector r) (vector_objects m (cr_vector r) @ [g]) (vectors m)\<rparr>))"

definition begin_dispatch :: "interrupt_manager \<Rightarrow> nat \<Rightarrow> dispatch_ticket res \<times> interrupt_manager" where
  "begin_dispatch m g =
     (case map_of (interrupts m) g of
        None \<Rightarrow> (Err STATUS_INVALID_HANDLE, m)
      | Some x \<Rightarrow>
          if \<not> vi_connected x \<or> vi_disconnect_pending x then (Err STATUS_DELETE_PENDING, m)
          else if vi_in_flight x + 1 > u32_max then (Panic, m)
          else (Ok \<lparr>dt_id = vi_id x, dt_guest_object = vi_guest_object x, dt_service_routine = vi_service_routine x,
                    dt_service_context = vi_service_context x, dt_irql = vi_irql x\<rparr>,
                m\<lparr>interrupts := om_insert g (x\<lparr>vi_in_flight := vi_in_flight x + 1\<rparr>) (interrupts m),
                  isr_invocations := isr_invocations m + 1\<rparr>))"

definition remove_interrupt :: "interrupt_manager \<Rightarrow> nat \<Rightarrow> unit res \<times> interrupt_manager" where
  "remove_interrupt m g =
     (case map_of (interrupts m) g of
        None \<Rightarrow> (Panic, m)
      | Some x \<Rightarrow>
          (Ok (), m\<lparr>interrupts := om_remove g (interrupts m), by_id := om_remove (vi_id x) (by_id m),
             vectors := (case map_of (vectors m) (vi_vector x) of
                None \<Rightarrow> vectors m
              | Some l \<Rightarrow> let l' = filter (\<lambda>c. c \<noteq> g) l
                         in if l' = [] then om_remove (vi_vector x) (vectors m) else om_insert (vi_vector x) l' (vectors m)),
             disconnected := disconnected m + 1\<rparr>))"

definition end_dispatch :: "interrupt_manager \<Rightarrow> dispatch_ticket \<Rightarrow> bool res \<times> interrupt_manager" where
  "end_dispatch m t =
     attempt (ok_or (map_of (by_id m) (dt_id t)) STATUS_INVALID_HANDLE) m (\<lambda>g.
     attempt (ok_or (map_of (interrupts m) g) STATUS_INVALID_HANDLE) m (\<lambda>x.
       if vi_in_flight x = 0 then (Err STATUS_INVALID_DEVICE_STATE, m)
       else let m1 = m\<lparr>interrupts := om_insert g (x\<lparr>vi_in_flight := vi_in_flight x - 1\<rparr>) (interrupts m),
                       dispatches := dispatches m + 1\<rparr>;
                gone = (vi_in_flight x - 1 = 0 \<and> vi_disconnect_pending x)
            in if gone then (case remove_interrupt m1 g of (r, m2) \<Rightarrow> attempt r m2 (\<lambda>_. (Ok gone, m2)))
               else (Ok gone, m1)))"

definition disconnect :: "interrupt_manager \<Rightarrow> nat \<Rightarrow> disconnect_outcome res \<times> interrupt_manager" where
  "disconnect m g =
     (case map_of (interrupts m) g of
        None \<Rightarrow> (Err STATUS_INVALID_HANDLE, m)
      | Some x \<Rightarrow>
          if vi_in_flight x > 0
          then (Ok Deferred, m\<lparr>interrupts := om_insert g (x\<lparr>vi_disconnect_pending := True\<rparr>) (interrupts m)\<rparr>)
          else (case remove_interrupt m g of (r, m1) \<Rightarrow> attempt r m1 (\<lambda>_. (Ok Removed, m1))))"

definition query_interrupt :: "interrupt_manager \<Rightarrow> nat \<Rightarrow> virtual_interrupt res" where
  "query_interrupt m g = ok_or (map_of (interrupts m) g) STATUS_INVALID_HANDLE"

definition is_connected :: "interrupt_manager \<Rightarrow> nat \<Rightarrow> bool" where
  "is_connected m g = (case map_of (interrupts m) g of None \<Rightarrow> False | Some x \<Rightarrow> vi_connected x)"

definition validate_version :: "u32 \<Rightarrow> u32 res" where
  "validate_version v =
     (if v = CONNECT_LINE_BASED \<or> v = CONNECT_FULLY_SPECIFIED then Ok v
      else if v = CONNECT_MESSAGE_BASED then Err STATUS_NOT_SUPPORTED
      else Err STATUS_INVALID_PARAMETER)"

section \<open>The invariant\<close>

definition interrupt_ok :: "nat \<Rightarrow> virtual_interrupt \<Rightarrow> bool" where
  "interrupt_ok g x \<longleftrightarrow> vi_guest_object x = g \<and> g \<noteq> 0 \<and> vi_connected x \<and> 0 < vi_vector x \<and> vi_vector x \<le> 255 \<and>
     MIN_DEVICE_IRQL \<le> vi_irql x \<and> vi_irql x \<le> vi_synchronize_irql x \<and> vi_synchronize_irql x \<le> MAX_IRQL \<and>
     (vi_disconnect_pending x \<longrightarrow> 0 < vi_in_flight x) \<and> vi_in_flight x \<le> u32_max"

definition compatible :: "virtual_interrupt \<Rightarrow> virtual_interrupt \<Rightarrow> bool" where
  "compatible x y \<longleftrightarrow> vi_share_vector x \<and> vi_share_vector y \<and> vi_mode x = vi_mode y \<and> vi_irql x = vi_irql y"

definition vectors_ok :: "interrupt_manager \<Rightarrow> bool" where
  "vectors_ok m \<longleftrightarrow> om_wf (vectors m) \<and> (\<forall>v. map_of (vectors m) v \<noteq> Some []) \<and>
     (\<forall>v. distinct (vector_objects m v) \<and>
        (\<forall>g. g \<in> set (vector_objects m v) \<longleftrightarrow> (\<exists>x. map_of (interrupts m) g = Some x \<and> vi_vector x = v)))"

definition ids_ok :: "interrupt_manager \<Rightarrow> bool" where
  "ids_ok m \<longleftrightarrow> fresh_ids (by_id m) (im_next_id m) \<and>
     (\<forall>i g. map_of (by_id m) i = Some g \<longleftrightarrow> (\<exists>x. map_of (interrupts m) g = Some x \<and> vi_id x = i))"

definition irq_inv :: "interrupt_manager \<Rightarrow> bool" where
  "irq_inv m \<longleftrightarrow> om_wf (interrupts m) \<and> (\<forall>g x. map_of (interrupts m) g = Some x \<longrightarrow> interrupt_ok g x) \<and>
     vectors_ok m \<and> ids_ok m \<and>
     (\<forall>g h x y. map_of (interrupts m) g = Some x \<and> map_of (interrupts m) h = Some y \<and> g \<noteq> h \<and> vi_vector x = vi_vector y
        \<longrightarrow> compatible x y) \<and>
     isr_invocations m = dispatches m + om_sum (\<lambda>_ x. vi_in_flight x) (interrupts m) \<and>
     im_next_id m = Suc (length (interrupts m) + disconnected m)"

lemma irq_inv_new: "irq_inv interrupt_manager_new"
  by (simp add: irq_inv_def interrupt_manager_new_def vectors_ok_def ids_ok_def vector_objects_def)

lemma irq_inv_dest:
  assumes "irq_inv m"
  shows "om_wf (interrupts m)" "\<And>g x. map_of (interrupts m) g = Some x \<Longrightarrow> interrupt_ok g x" "vectors_ok m" "ids_ok m"
  using assms by (simp_all add: irq_inv_def)

lemma irq_inv_counts:
  assumes "irq_inv m"
  shows "isr_invocations m = dispatches m + om_sum (\<lambda>_ x. vi_in_flight x) (interrupts m)"
    "im_next_id m = Suc (length (interrupts m) + disconnected m)"
  using assms by (simp_all add: irq_inv_def)

lemma irq_inv_compatible:
  assumes inv: "irq_inv m" and "map_of (interrupts m) g = Some x" "map_of (interrupts m) h = Some y" "g \<noteq> h" "vi_vector x = vi_vector y"
  shows "compatible x y"
proof -
  have "\<forall>g h x y. map_of (interrupts m) g = Some x \<and> map_of (interrupts m) h = Some y \<and> g \<noteq> h \<and> vi_vector x = vi_vector y
      \<longrightarrow> compatible x y" using inv unfolding irq_inv_def by (elim conjE)
  from this [rule_format, OF conjI [OF assms(2) conjI [OF assms(3) conjI [OF assms(4,5)]]]] show ?thesis .
qed

text \<open>Changing the dispatch state of one interrupt.\<close>

lemma irq_put:
  assumes inv: "irq_inv m" and x: "map_of (interrupts m) g = Some x"
    and x': "x' = x\<lparr>vi_in_flight := n, vi_disconnect_pending := p\<rparr>" and ok: "interrupt_ok g x'"
    and count: "a + vi_in_flight x + dispatches m = isr_invocations m + n + d"
  shows "irq_inv (m\<lparr>interrupts := om_insert g x' (interrupts m), isr_invocations := a, dispatches := d\<rparr>)"
proof -
  let ?m = "m\<lparr>interrupts := om_insert g x' (interrupts m), isr_invocations := a, dispatches := d\<rparr>"
  have look: "map_of (interrupts ?m) h = (if h = g then Some x' else map_of (interrupts m) h)" for h by simp
  note d = irq_inv_dest [OF inv]
  have w: "om_wf (interrupts ?m)" using d(1) by simp
  have o: "\<forall>h y. map_of (interrupts ?m) h = Some y \<longrightarrow> interrupt_ok h y" using d(2) ok unfolding look by simp
  have v: "vectors_ok ?m" using d(3) x by (auto simp: vectors_ok_def vector_objects_def x')
  have i: "ids_ok ?m" using d(4) x by (auto simp: ids_ok_def x')
  have "om_sum (\<lambda>_ x. vi_in_flight x) (om_insert g x' (interrupts m)) + vi_in_flight x =
      om_sum (\<lambda>_ x. vi_in_flight x) (interrupts m) + n"
    using om_sum_insert_present [OF d(1) x, of "\<lambda>_ x. vi_in_flight x" x'] by (simp add: x')
  then have n: "isr_invocations ?m = dispatches ?m + om_sum (\<lambda>_ x. vi_in_flight x) (interrupts ?m)"
    using count irq_inv_counts(1) [OF inv] by simp
  have "length (om_insert g x' (interrupts m)) = length (interrupts m)"
    using d(1) x by (intro om_insert_present_length) (auto simp: om_keys_dom)
  then have l: "im_next_id ?m = Suc (length (interrupts ?m) + disconnected ?m)" using irq_inv_counts(2) [OF inv] by simp
  have c: "\<forall>h k y z. map_of (interrupts ?m) h = Some y \<and> map_of (interrupts ?m) k = Some z \<and> h \<noteq> k \<and> vi_vector y = vi_vector z \<longrightarrow> compatible y z"
  proof (intro allI impI, elim conjE)
    fix h k y z
    assume at: "map_of (interrupts ?m) h = Some y" "map_of (interrupts ?m) k = Some z" "h \<noteq> k" "vi_vector y = vi_vector z"
    have same: "\<exists>y'. map_of (interrupts m) h = Some y' \<and> vi_vector y' = vi_vector y \<and> vi_share_vector y' = vi_share_vector y \<and>
        vi_mode y' = vi_mode y \<and> vi_irql y' = vi_irql y" if "map_of (interrupts ?m) h = Some y" for h y
      using that x unfolding look by (cases "h = g") (auto simp: x')
    obtain y' where y': "map_of (interrupts m) h = Some y'" "vi_vector y' = vi_vector y" "vi_share_vector y' = vi_share_vector y"
        "vi_mode y' = vi_mode y" "vi_irql y' = vi_irql y" using same [OF at(1)] by (elim exE conjE)
    obtain z' where z': "map_of (interrupts m) k = Some z'" "vi_vector z' = vi_vector z" "vi_share_vector z' = vi_share_vector z"
        "vi_mode z' = vi_mode z" "vi_irql z' = vi_irql z" using same [OF at(2)] by (elim exE conjE)
    have "compatible y' z'" using at(4) y'(2) z'(2) by (intro irq_inv_compatible [OF inv y'(1) z'(1) at(3)]) simp
    then show "compatible y z" using y'(3-) z'(3-) by (simp add: compatible_def)
  qed
  show ?thesis unfolding irq_inv_def by (intro conjI w o v i c n l)
qed

lemma begin_dispatch_inv:
  assumes inv: "irq_inv m"
  shows "irq_inv (snd (begin_dispatch m g))"
proof (cases "\<exists>x. map_of (interrupts m) g = Some x \<and> vi_connected x \<and> \<not> vi_disconnect_pending x \<and> vi_in_flight x + 1 \<le> u32_max")
  case True
  then obtain x where x: "map_of (interrupts m) g = Some x" "vi_connected x" "\<not> vi_disconnect_pending x" "vi_in_flight x + 1 \<le> u32_max" by blast
  have "irq_inv (m\<lparr>interrupts := om_insert g (x\<lparr>vi_in_flight := vi_in_flight x + 1\<rparr>) (interrupts m),
      isr_invocations := isr_invocations m + 1, dispatches := dispatches m\<rparr>)"
    using irq_inv_dest(2) [OF inv x(1)] x
    by (intro irq_put [OF inv x(1), where p = False]) (simp_all add: interrupt_ok_def)
  then show ?thesis using x by (simp add: begin_dispatch_def)
qed (use inv in \<open>auto simp: begin_dispatch_def split: option.splits\<close>)

lemma remove_interrupt_inv:
  assumes inv: "irq_inv m" and x: "map_of (interrupts m) g = Some x" and idle: "vi_in_flight x = 0"
  shows "fst (remove_interrupt m g) = Ok () \<and> irq_inv (snd (remove_interrupt m g))"
proof -
  let ?m = "snd (remove_interrupt m g)"
  note d = irq_inv_dest [OF inv]
  have vobj: "vector_objects ?m v = filter (\<lambda>c. c \<noteq> g) (vector_objects m v)" for v
  proof (cases "v = vi_vector x")
    case True
    then show ?thesis using x
      by (auto simp: remove_interrupt_def vector_objects_def Let_def split: option.splits)
  next
    case False
    have "g \<notin> set (vector_objects m v)" using d(3) x False by (auto simp: vectors_ok_def)
    then have "filter (\<lambda>c. c \<noteq> g) (vector_objects m v) = vector_objects m v" by (auto simp: filter_id_conv)
    then show ?thesis using x False
      by (auto simp: remove_interrupt_def vector_objects_def Let_def split: option.splits)
  qed
  have look: "map_of (interrupts ?m) h = (if h = g then None else map_of (interrupts m) h)" for h
    using x by (simp add: remove_interrupt_def)
  have "om_wf (vectors ?m)" "\<forall>v. map_of (vectors ?m) v \<noteq> Some []"
    using d(3) x by (auto simp: remove_interrupt_def vectors_ok_def Let_def split: option.splits)
  then have v: "vectors_ok ?m" using d(3) unfolding vectors_ok_def vobj look by auto
  have ids: "ids_ok ?m"
  proof -
    have uniq: "vi_id y = vi_id x \<Longrightarrow> h = g" if "map_of (interrupts m) h = Some y" for h y
      using d(4) x that unfolding ids_ok_def by (metis option.inject)
    have ids: "map_of (by_id ?m) i = (if i = vi_id x then None else map_of (by_id m) i)" for i using x by (simp add: remove_interrupt_def)
    have old: "map_of (by_id m) i = Some h \<longleftrightarrow> (\<exists>y. map_of (interrupts m) h = Some y \<and> vi_id y = i)" for i h
      using d(4) by (simp add: ids_ok_def)
    have "map_of (by_id ?m) i = Some h \<longleftrightarrow> (\<exists>y. map_of (interrupts ?m) h = Some y \<and> vi_id y = i)" for i h
    proof (cases "h = g")
      case True
      then show ?thesis using x old [of i g] unfolding ids look by auto
    next
      case False
      have "\<not> (\<exists>y. map_of (interrupts m) h = Some y \<and> vi_id y = vi_id x)" using uniq [of h] False by blast
      then show ?thesis using False old [of i h] unfolding ids look by (cases "i = vi_id x") simp_all
    qed
    moreover have "fresh_ids (by_id ?m) (im_next_id ?m)" using d(4) x by (auto simp: remove_interrupt_def ids_ok_def)
    ultimately show ?thesis unfolding ids_ok_def by blast
  qed
  have c: "\<forall>h k y z. map_of (interrupts ?m) h = Some y \<and> map_of (interrupts ?m) k = Some z \<and> h \<noteq> k \<and> vi_vector y = vi_vector z \<longrightarrow> compatible y z"
  proof (intro allI impI, elim conjE)
    fix h k y z assume that: "map_of (interrupts ?m) h = Some y" "map_of (interrupts ?m) k = Some z" "h \<noteq> k" "vi_vector y = vi_vector z"
    have "map_of (interrupts m) h = Some y" "map_of (interrupts m) k = Some z" using that(1,2) unfolding look by (simp_all split: if_split_asm)
    then show "compatible y z" by (rule irq_inv_compatible [OF inv _ _ that(3,4)])
  qed
  have f: "fst (remove_interrupt m g) = Ok ()" "interrupts ?m = om_remove g (interrupts m)" "isr_invocations ?m = isr_invocations m"
      "dispatches ?m = dispatches m" "im_next_id ?m = im_next_id m" "disconnected ?m = disconnected m + 1"
    using x by (simp_all add: remove_interrupt_def)
  have w: "om_wf (interrupts ?m)" using d(1) by (simp add: f)
  have o: "\<forall>h y. map_of (interrupts ?m) h = Some y \<longrightarrow> interrupt_ok h y" using d(2) unfolding look by simp
  have n: "isr_invocations ?m = dispatches ?m + om_sum (\<lambda>_ x. vi_in_flight x) (interrupts ?m)"
    using om_sum_remove [OF d(1) x, of "\<lambda>_ x. vi_in_flight x"] idle irq_inv_counts(1) [OF inv] unfolding f by simp
  have l: "im_next_id ?m = Suc (length (interrupts ?m) + disconnected ?m)"
    using om_remove_length [OF d(1) x] irq_inv_counts(2) [OF inv] unfolding f by simp
  show ?thesis unfolding irq_inv_def by (intro conjI f(1) w o v ids c n l)
qed

lemma end_dispatch_eq:
  assumes inv: "irq_inv m" and i: "map_of (by_id m) (dt_id t) = Some g"
  obtains x where "map_of (interrupts m) g = Some x" "vi_id x = dt_id t"
    "vi_in_flight x = 0 \<Longrightarrow> end_dispatch m t = (Err STATUS_INVALID_DEVICE_STATE, m)"
    "0 < vi_in_flight x \<Longrightarrow> end_dispatch m t =
       (let m1 = m\<lparr>interrupts := om_insert g (x\<lparr>vi_in_flight := vi_in_flight x - 1\<rparr>) (interrupts m), dispatches := dispatches m + 1\<rparr>
        in if vi_in_flight x = 1 \<and> vi_disconnect_pending x then (Ok True, snd (remove_interrupt m1 g)) else (Ok False, m1))"
proof -
  obtain x where x: "map_of (interrupts m) g = Some x" "vi_id x = dt_id t"
    using irq_inv_dest(4) [OF inv] i by (auto simp: ids_ok_def)
  have rm: "remove_interrupt m1 g = (Ok (), snd (remove_interrupt m1 g))" if "map_of (interrupts m1) g \<noteq> None" for m1
    using that by (auto simp: remove_interrupt_def)
  have z: "end_dispatch m t = (Err STATUS_INVALID_DEVICE_STATE, m)" if "vi_in_flight x = 0"
    using i x(1) that by (simp add: end_dispatch_def)
  have p: "end_dispatch m t =
       (let m1 = m\<lparr>interrupts := om_insert g (x\<lparr>vi_in_flight := vi_in_flight x - 1\<rparr>) (interrupts m), dispatches := dispatches m + 1\<rparr>
        in if vi_in_flight x = 1 \<and> vi_disconnect_pending x then (Ok True, snd (remove_interrupt m1 g)) else (Ok False, m1))" if "0 < vi_in_flight x"
  proof -
    let ?m = "m\<lparr>interrupts := om_insert g (x\<lparr>vi_in_flight := vi_in_flight x - 1\<rparr>) (interrupts m), dispatches := dispatches m + 1\<rparr>"
    have r: "remove_interrupt ?m g = (Ok (), snd (remove_interrupt ?m g))" by (rule rm) simp
    have "vi_in_flight x - 1 = 0 \<longleftrightarrow> vi_in_flight x = 1" using that by linarith
    then show ?thesis unfolding end_dispatch_def i x(1) ok_or_simps attempt_simps Let_def
      using that by (subst r) simp
  qed
  show ?thesis by (rule that [OF x]) (erule z, erule p)
qed

text \<open>After the last dispatch of an interrupt that is to be disconnected, the intermediate state
  has the flag set with no dispatch in flight; its removal restores the invariant.\<close>

definition drop_interrupt :: "interrupt_manager \<Rightarrow> nat \<Rightarrow> nat \<Rightarrow> nat \<Rightarrow> interrupt_manager" where
  "drop_interrupt m g i v = m\<lparr>interrupts := om_remove g (interrupts m), by_id := om_remove i (by_id m),
     vectors := (case map_of (vectors m) v of
        None \<Rightarrow> vectors m
      | Some l \<Rightarrow> if filter (\<lambda>c. c \<noteq> g) l = [] then om_remove v (vectors m) else om_insert v (filter (\<lambda>c. c \<noteq> g) l) (vectors m)),
     disconnected := disconnected m + 1\<rparr>"

lemma remove_interrupt_eq:
  "map_of (interrupts m) g = Some x \<Longrightarrow> remove_interrupt m g = (Ok (), drop_interrupt m g (vi_id x) (vi_vector x))"
  unfolding remove_interrupt_def drop_interrupt_def Let_def by simp

lemma drop_interrupt_put:
  "drop_interrupt (m\<lparr>interrupts := om_insert g y (interrupts m), dispatches := d\<rparr>) g i v = drop_interrupt (m\<lparr>dispatches := d\<rparr>) g i v"
  by (cases "map_of (vectors m) v") (simp_all add: drop_interrupt_def)

lemma remove_put:
  "map_of (interrupts m) g = Some x \<Longrightarrow>
     snd (remove_interrupt (m\<lparr>interrupts := om_insert g (x\<lparr>vi_in_flight := n\<rparr>) (interrupts m), dispatches := d\<rparr>) g) =
     snd (remove_interrupt (m\<lparr>interrupts := om_insert g (x\<lparr>vi_in_flight := n, vi_disconnect_pending := False\<rparr>) (interrupts m), dispatches := d\<rparr>) g)"
  by (simp add: remove_interrupt_eq drop_interrupt_put)

lemma end_dispatch_inv:
  assumes inv: "irq_inv m"
  shows "irq_inv (snd (end_dispatch m t)) \<and> fst (end_dispatch m t) \<noteq> Panic"
proof (cases "map_of (by_id m) (dt_id t)")
  case None
  with inv show ?thesis by (simp add: end_dispatch_def)
next
  case (Some g)
  show ?thesis using inv Some
  proof (rule end_dispatch_eq)
    fix x
    assume x: "map_of (interrupts m) g = Some x" and zero: "vi_in_flight x = 0 \<Longrightarrow> end_dispatch m t = (Err STATUS_INVALID_DEVICE_STATE, m)"
      and pos: "0 < vi_in_flight x \<Longrightarrow> end_dispatch m t =
       (let m1 = m\<lparr>interrupts := om_insert g (x\<lparr>vi_in_flight := vi_in_flight x - 1\<rparr>) (interrupts m), dispatches := dispatches m + 1\<rparr>
        in if vi_in_flight x = 1 \<and> vi_disconnect_pending x then (Ok True, snd (remove_interrupt m1 g)) else (Ok False, m1))"
    note ok = irq_inv_dest(2) [OF inv x]
    have keep: "irq_inv (m\<lparr>interrupts := om_insert g (x\<lparr>vi_in_flight := vi_in_flight x - 1, vi_disconnect_pending := p\<rparr>) (interrupts m),
        isr_invocations := isr_invocations m, dispatches := dispatches m + 1\<rparr>)" if "0 < vi_in_flight x" "p \<longrightarrow> 1 < vi_in_flight x" for p
      using ok that by (intro irq_put [OF inv x]) (auto simp: interrupt_ok_def)
    consider "vi_in_flight x = 0" | "vi_in_flight x = 1" "vi_disconnect_pending x"
      | "0 < vi_in_flight x" "\<not> (vi_in_flight x = 1 \<and> vi_disconnect_pending x)" by linarith
    then show ?thesis
    proof cases
      case 1
      with zero inv show ?thesis by simp
    next
      case 2
      let ?m = "m\<lparr>interrupts := om_insert g (x\<lparr>vi_in_flight := 0, vi_disconnect_pending := False\<rparr>) (interrupts m), dispatches := dispatches m + 1\<rparr>"
      have "irq_inv ?m" using keep [of False] 2 by simp
      then have "irq_inv (snd (remove_interrupt ?m g))" 
        by (rule conjunct2 [OF remove_interrupt_inv [where x = "x\<lparr>vi_in_flight := 0, vi_disconnect_pending := False\<rparr>"]]) simp_all
      then show ?thesis using pos 2 remove_put [OF x, where n = 0 and d = "dispatches m + 1"] by (simp add: Let_def)
    next
      case 3
      then have "irq_inv (m\<lparr>interrupts := om_insert g (x\<lparr>vi_in_flight := vi_in_flight x - 1\<rparr>) (interrupts m), dispatches := dispatches m + 1\<rparr>)"
        using keep [of "vi_disconnect_pending x"] by fastforce
      with 3 pos show ?thesis by (auto simp: Let_def)
    qed
  qed
qed

lemma disconnect_inv:
  assumes inv: "irq_inv m"
  shows "irq_inv (snd (disconnect m g)) \<and> fst (disconnect m g) \<noteq> Panic"
proof (cases "map_of (interrupts m) g")
  case None
  with inv show ?thesis by (simp add: disconnect_def)
next
  case (Some x)
  show ?thesis
  proof (cases "vi_in_flight x")
    case 0
    with Some remove_interrupt_inv [OF inv Some] show ?thesis
      by (cases "remove_interrupt m g") (auto simp: disconnect_def)
  next
    case (Suc n)
    have "irq_inv (m\<lparr>interrupts := om_insert g (x\<lparr>vi_disconnect_pending := True\<rparr>) (interrupts m),
        isr_invocations := isr_invocations m, dispatches := dispatches m\<rparr>)"
      using irq_inv_dest(2) [OF inv Some] Suc by (intro irq_put [OF inv Some, where n = "vi_in_flight x" and p = True]) (auto simp: interrupt_ok_def)
    with Some Suc show ?thesis by (simp add: disconnect_def)
  qed
qed

definition request_valid :: "connect_request \<Rightarrow> bool" where
  "request_valid r \<longleftrightarrow> \<not> (cr_guest_object r = 0 \<or> cr_service_routine r = 0) \<and> \<not> (cr_vector r = 0 \<or> cr_vector r > 255) \<and>
     \<not> (\<not> (MIN_DEVICE_IRQL \<le> cr_irql r \<and> cr_irql r \<le> MAX_IRQL) \<or> cr_synchronize_irql r < cr_irql r \<or> cr_synchronize_irql r > MAX_IRQL) \<and>
     \<not> (cr_mode r \<noteq> INTERRUPT_LATCHED \<and> cr_mode r \<noteq> INTERRUPT_LEVEL_SENSITIVE) \<and>
     \<not> (cr_affinity r = 0 \<or> cr_affinity r AND NOT ONLINE_AFFINITY \<noteq> 0) \<and>
     \<not> (cr_share_vector r \<and> (cr_spin_lock r = 0 \<or> cr_mode r \<noteq> INTERRUPT_LEVEL_SENSITIVE))"

definition connected_record :: "interrupt_manager \<Rightarrow> connect_request \<Rightarrow> virtual_interrupt" where
  "connected_record m r = \<lparr>vi_id = im_next_id m, vi_guest_object = cr_guest_object r, vi_service_routine = cr_service_routine r,
     vi_service_context = cr_service_context r, vi_spin_lock = cr_spin_lock r, vi_vector = cr_vector r,
     vi_irql = cr_irql r, vi_synchronize_irql = cr_synchronize_irql r, vi_mode = cr_mode r,
     vi_share_vector = cr_share_vector r, vi_affinity = cr_affinity r, vi_connected = True,
     vi_in_flight = 0, vi_disconnect_pending = False\<rparr>"

lemma if_chain6:
  "(if a then x else if b then x else if c then x else if d then x else if e then x else if f then x else y) =
     (if \<not> (\<not> a \<and> \<not> b \<and> \<not> c \<and> \<not> d \<and> \<not> e \<and> \<not> f) then x else y)"
  by simp

lemma if_chain2: "(if a then x else if b then x else y) = (if a \<or> b then x else y)"
  by simp

lemma connect_eq:
  "connect m r =
     (if \<not> request_valid r then (Err STATUS_INVALID_PARAMETER, m)
      else if map_of (interrupts m) (cr_guest_object r) \<noteq> None \<or> vector_conflict m r then (Err STATUS_OBJECT_NAME_COLLISION, m)
      else (Ok (im_next_id m), m\<lparr>im_next_id := im_next_id m + 1,
                interrupts := om_insert (cr_guest_object r) (connected_record m r) (interrupts m),
                by_id := om_insert (im_next_id m) (cr_guest_object r) (by_id m),
                vectors := om_insert (cr_vector r) (vector_objects m (cr_vector r) @ [cr_guest_object r]) (vectors m)\<rparr>))"
  unfolding connect_def connected_record_def Let_def
  unfolding if_chain6
  unfolding request_valid_def [symmetric]
  unfolding if_chain2
  by (rule refl)

lemma connect_ids_ok:
  assumes inv: "irq_inv m" and none: "map_of (interrupts m) g = None" and x: "vi_id x = im_next_id m"
    and m': "interrupts m' = om_insert g x (interrupts m)" "by_id m' = om_insert (im_next_id m) g (by_id m)" "im_next_id m' = im_next_id m + 1"
  shows "ids_ok m'"
proof -
  note d = irq_inv_dest(4) [OF inv, unfolded ids_ok_def]
  have old: "map_of (by_id m) i = Some h \<longleftrightarrow> (\<exists>y. map_of (interrupts m) h = Some y \<and> vi_id y = i)" for i h using d by simp
  have absent: "map_of (by_id m) (im_next_id m) = None" using d by (auto intro: fresh_ids_absent)
  have "map_of (by_id m') i = Some h \<longleftrightarrow> (\<exists>y. map_of (interrupts m') h = Some y \<and> vi_id y = i)" for i h
  proof (cases "h = g")
    case True
    then show ?thesis using old [of i g] none x by (simp add: m')
  next
    case False
    then show ?thesis using old [of i h] old [of "im_next_id m" h] absent by (simp add: m')
  qed
  moreover have "fresh_ids (by_id m') (im_next_id m')" using d by (auto simp: m')
  ultimately show ?thesis unfolding ids_ok_def by blast
qed

lemma connect_vectors_ok:
  assumes inv: "irq_inv m" and none: "map_of (interrupts m) g = None" and x: "vi_vector x = v"
    and m': "interrupts m' = om_insert g x (interrupts m)" "vectors m' = om_insert v (vector_objects m v @ [g]) (vectors m)"
  shows "vectors_ok m'"
proof -
  note d = irq_inv_dest(3) [OF inv, unfolded vectors_ok_def]
  have new: "g \<notin> set (vector_objects m u)" for u using d none by simp
  have vobj: "vector_objects m' u = (if u = v then vector_objects m v @ [g] else vector_objects m u)" for u
    by (simp add: m' vector_objects_def)
  have mem: "h \<in> set (vector_objects m u) \<longleftrightarrow> (\<exists>y. map_of (interrupts m) h = Some y \<and> vi_vector y = u)" for h u using d by simp
  have "h \<in> set (vector_objects m' u) \<longleftrightarrow> (\<exists>y. map_of (interrupts m') h = Some y \<and> vi_vector y = u)" for h u
    using mem [of h u] mem [of h v] new [of u] x none unfolding vobj m'(1) by (cases "h = g"; cases "u = v") simp_all
  moreover have "om_wf (vectors m')" using d by (simp add: m')
  moreover have "map_of (vectors m') u \<noteq> Some []" for u using d by (simp add: m')
  moreover have "distinct (vector_objects m' u)" for u using d new by (simp add: vobj)
  ultimately show ?thesis unfolding vectors_ok_def by blast
qed

lemma connect_inv:
  assumes inv: "irq_inv m"
  shows "irq_inv (snd (connect m r))"
proof (cases "request_valid r \<and> map_of (interrupts m) (cr_guest_object r) = None \<and> \<not> vector_conflict m r")
  case False
  then have "snd (connect m r) = m" unfolding connect_eq by auto
  with inv show ?thesis by simp
next
  case True
  then have valid: "request_valid r" and none: "map_of (interrupts m) (cr_guest_object r) = None" and conf: "\<not> vector_conflict m r" by blast+
  note d = irq_inv_dest [OF inv]
  let ?g = "cr_guest_object r" let ?v = "cr_vector r" let ?x = "connected_record m r"
  define m' where "m' = m\<lparr>im_next_id := im_next_id m + 1, interrupts := om_insert ?g ?x (interrupts m), by_id := om_insert (im_next_id m) ?g (by_id m),
      vectors := om_insert ?v (vector_objects m ?v @ [?g]) (vectors m)\<rparr>"
  have look: "map_of (interrupts m') h = (if h = ?g then Some ?x else map_of (interrupts m) h)" for h by (simp add: m'_def)
  have w: "om_wf (interrupts m')" using d(1) by (simp add: m'_def)
  have ok: "interrupt_ok ?g ?x" using valid unfolding request_valid_def by (simp add: interrupt_ok_def connected_record_def not_less)
  have o: "\<forall>h y. map_of (interrupts m') h = Some y \<longrightarrow> interrupt_ok h y" using d(2) ok unfolding look by simp
  have v: "vectors_ok m'" by (rule connect_vectors_ok [OF inv none, of ?x ?v]) (simp_all add: m'_def connected_record_def)
  have i: "ids_ok m'" by (rule connect_ids_ok [OF inv none, of ?x]) (simp_all add: m'_def connected_record_def)
  have with_new: "compatible y ?x" if y: "map_of (interrupts m) h = Some y" "vi_vector y = ?v" for h y
  proof -
    have "h \<in> set (vector_objects m ?v)" using d(3) y by (simp add: vectors_ok_def)
    with conf have "\<not> (\<not> vi_share_vector y \<or> \<not> cr_share_vector r \<or> vi_mode y \<noteq> cr_mode r \<or> vi_irql y \<noteq> cr_irql r)"
      using y(1) unfolding vector_conflict_def list_ex_iff by force
    then show ?thesis by (simp add: compatible_def connected_record_def)
  qed
  have c: "\<forall>h k y z. map_of (interrupts m') h = Some y \<and> map_of (interrupts m') k = Some z \<and> h \<noteq> k \<and> vi_vector y = vi_vector z \<longrightarrow> compatible y z"
  proof (intro allI impI, elim conjE)
    fix h k y z
    assume at: "map_of (interrupts m') h = Some y" "map_of (interrupts m') k = Some z" "h \<noteq> k" "vi_vector y = vi_vector z"
    have xv: "vi_vector ?x = ?v" by (simp add: connected_record_def)
    consider "h = ?g" "k \<noteq> ?g" | "h \<noteq> ?g" "k = ?g" | "h \<noteq> ?g" "k \<noteq> ?g" using at(3) by blast
    then show "compatible y z"
    proof cases
      case 1
      then have y: "y = ?x" and z: "map_of (interrupts m) k = Some z" using at(1,2) by (simp_all add: look)
      then show ?thesis using with_new [OF z] at(4) xv by (simp add: compatible_def)
    next
      case 2
      then have z: "z = ?x" and y: "map_of (interrupts m) h = Some y" using at(1,2) by (simp_all add: look)
      then show ?thesis using with_new [OF y] at(4) xv by simp
    next
      case 3
      then show ?thesis using at(1,2) by (intro irq_inv_compatible [OF inv _ _ at(3,4)]) (simp_all add: look)
    qed
  qed
  have n: "isr_invocations m' = dispatches m' + om_sum (\<lambda>_ x. vi_in_flight x) (interrupts m')"
    using irq_inv_counts(1) [OF inv] none by (simp add: m'_def om_sum_insert_fresh connected_record_def)
  have l: "im_next_id m' = Suc (length (interrupts m') + disconnected m')"
    using irq_inv_counts(2) [OF inv] none by (simp add: m'_def om_insert_fresh_length map_of_eq_None_iff)
  have "irq_inv m'" unfolding irq_inv_def by (intro conjI w o v i c n l)
  then show ?thesis using True unfolding connect_eq m'_def by simp
qed

inductive irq_step :: "interrupt_manager \<Rightarrow> interrupt_manager \<Rightarrow> bool" where
  connect: "irq_step m (snd (connect m r))"
| begin_dispatch: "irq_step m (snd (begin_dispatch m g))"
| end_dispatch: "irq_step m (snd (end_dispatch m t))"
| disconnect: "irq_step m (snd (disconnect m g))"

interpretation irq: invariant_system "\<lambda>m. m = interrupt_manager_new" irq_step irq_inv
  by unfold_locales
    (auto simp: irq_inv_new connect_inv begin_dispatch_inv end_dispatch_inv disconnect_inv elim!: irq_step.cases)

section \<open>A disconnection that waits for the dispatches in flight\<close>

fun finish_dispatches :: "nat \<Rightarrow> interrupt_manager \<Rightarrow> dispatch_ticket \<Rightarrow> interrupt_manager" where
  "finish_dispatches 0 m t = m"
| "finish_dispatches (Suc k) m t = snd (end_dispatch (finish_dispatches k m t) t)"

lemma end_dispatch_pending:
  assumes inv: "irq_inv m" and x: "map_of (interrupts m) g = Some x" and t: "dt_id t = vi_id x" and p: "vi_disconnect_pending x"
  shows "1 < vi_in_flight x \<Longrightarrow> end_dispatch m t =
      (Ok False, m\<lparr>interrupts := om_insert g (x\<lparr>vi_in_flight := vi_in_flight x - 1\<rparr>) (interrupts m), dispatches := dispatches m + 1\<rparr>)"
    and "vi_in_flight x = 1 \<Longrightarrow> fst (end_dispatch m t) = Ok True \<and> interrupts (snd (end_dispatch m t)) = om_remove g (interrupts m) \<and>
      by_id (snd (end_dispatch m t)) = om_remove (vi_id x) (by_id m)"
proof -
  have i: "map_of (by_id m) (dt_id t) = Some g" using irq_inv_dest(4) [OF inv] x t by (simp add: ids_ok_def)
  show "end_dispatch m t =
      (Ok False, m\<lparr>interrupts := om_insert g (x\<lparr>vi_in_flight := vi_in_flight x - 1\<rparr>) (interrupts m), dispatches := dispatches m + 1\<rparr>)"
    if "1 < vi_in_flight x" using that i x by (simp add: end_dispatch_def)
  show "fst (end_dispatch m t) = Ok True \<and> interrupts (snd (end_dispatch m t)) = om_remove g (interrupts m) \<and>
      by_id (snd (end_dispatch m t)) = om_remove (vi_id x) (by_id m)" if "vi_in_flight x = 1"
    using that i x p by (simp add: end_dispatch_def remove_interrupt_eq drop_interrupt_def)
qed

lemma finish_dispatches_pending:
  assumes inv: "irq_inv m" and x: "map_of (interrupts m) g = Some x" and t: "dt_id t = vi_id x" and p: "vi_disconnect_pending x"
  shows "k < vi_in_flight x \<Longrightarrow> irq_inv (finish_dispatches k m t) \<and>
     map_of (interrupts (finish_dispatches k m t)) g = Some (x\<lparr>vi_in_flight := vi_in_flight x - k\<rparr>)"
proof (induction k)
  case 0
  then show ?case using inv x by simp
next
  case (Suc k)
  let ?m = "finish_dispatches k m t" let ?y = "x\<lparr>vi_in_flight := vi_in_flight x - k\<rparr>"
  have inv': "irq_inv ?m" and look: "map_of (interrupts ?m) g = Some ?y" using Suc by simp_all
  have "end_dispatch ?m t = (Ok False, ?m\<lparr>interrupts := om_insert g (?y\<lparr>vi_in_flight := vi_in_flight ?y - 1\<rparr>) (interrupts ?m), dispatches := dispatches ?m + 1\<rparr>)"
    using t p Suc.prems by (intro end_dispatch_pending(1) [OF inv' look]) simp_all
  then show ?case using conjunct1 [OF end_dispatch_inv [OF inv', of t]] by simp
qed

section \<open>Properties\<close>

definition demo_request :: "nat \<Rightarrow> connect_request" where
  "demo_request g = \<lparr>cr_guest_object = g, cr_service_routine = 0x1000, cr_service_context = 0, cr_spin_lock = 0x2000,
     cr_vector = 0x30, cr_irql = 5, cr_synchronize_irql = 6, cr_mode = INTERRUPT_LEVEL_SENSITIVE, cr_share_vector = True,
     cr_affinity = 1\<rparr>"

definition demo_irq1 :: interrupt_manager where "demo_irq1 = snd (connect interrupt_manager_new (demo_request 0x10))"
definition demo_irq2 :: interrupt_manager where "demo_irq2 = snd (begin_dispatch demo_irq1 0x10)"

lemma demo_irq1_eq:
  "demo_irq1 = \<lparr>interrupts = [(0x10, connected_record interrupt_manager_new (demo_request 0x10))], by_id = [(1, 0x10)],
     vectors = [(0x30, [0x10])], im_next_id = 2, isr_invocations = 0, dispatches = 0, disconnected = 0\<rparr>"
  by (simp add: demo_irq1_def connect_eq request_valid_def vector_conflict_def vector_objects_def interrupt_manager_new_def
      demo_request_def irq_consts)

lemma demo_irq2_eq:
  "demo_irq2 = demo_irq1\<lparr>interrupts := [(0x10, (connected_record interrupt_manager_new (demo_request 0x10))\<lparr>vi_in_flight := 1\<rparr>)],
     isr_invocations := 1\<rparr>"
  by (simp add: demo_irq2_def begin_dispatch_def demo_irq1_eq connected_record_def u32_max_def)

lemma demo_irq_reachable: "irq_step\<^sup>*\<^sup>* interrupt_manager_new demo_irq1" "irq_step\<^sup>*\<^sup>* interrupt_manager_new demo_irq2"
proof -
  show "irq_step\<^sup>*\<^sup>* interrupt_manager_new demo_irq1" unfolding demo_irq1_def by (blast intro: irq_step.connect)
  then show "irq_step\<^sup>*\<^sup>* interrupt_manager_new demo_irq2" unfolding demo_irq2_def
    by (rule rtranclp.rtrancl_into_rtrancl) (rule irq_step.begin_dispatch)
qed

text \<open>
  C14. In every reachable interrupt manager the chain of a vector lists, each once, exactly the interrupt objects
  connected to that vector; two different objects on one vector both allow sharing and agree on trigger mode
  and IRQL; every object has a device IRQL with a synchronization IRQL at or above it; and every service
  routine call that was begun is either finished or in flight.
\<close>
theorem irq_vectors_consistent:
  assumes "irq_step\<^sup>*\<^sup>* interrupt_manager_new m"
  shows "distinct (vector_objects m v) \<and>
     (\<forall>g. g \<in> set (vector_objects m v) \<longleftrightarrow> (\<exists>x. query_interrupt m g = Ok x \<and> vi_vector x = v)) \<and>
     (\<forall>g h x y. query_interrupt m g = Ok x \<and> query_interrupt m h = Ok y \<and> g \<noteq> h \<and> vi_vector x = vi_vector y \<longrightarrow>
        vi_share_vector x \<and> vi_share_vector y \<and> vi_mode x = vi_mode y \<and> vi_irql x = vi_irql y) \<and>
     (\<forall>g x. query_interrupt m g = Ok x \<longrightarrow>
        MIN_DEVICE_IRQL \<le> vi_irql x \<and> vi_irql x \<le> vi_synchronize_irql x \<and> vi_synchronize_irql x \<le> MAX_IRQL) \<and>
     isr_invocations m = dispatches m + om_sum (\<lambda>_ x. vi_in_flight x) (interrupts m)"
proof -
  have inv: "irq_inv m" by (rule irq.reachable_inv [OF refl assms])
  have q: "query_interrupt m g = Ok x \<longleftrightarrow> map_of (interrupts m) g = Some x" for g x
    by (cases "map_of (interrupts m) g") (simp_all add: query_interrupt_def)
  have ok: "MIN_DEVICE_IRQL \<le> vi_irql x \<and> vi_irql x \<le> vi_synchronize_irql x \<and> vi_synchronize_irql x \<le> MAX_IRQL"
    if "map_of (interrupts m) g = Some x" for g x using irq_inv_dest(2) [OF inv that] by (simp add: interrupt_ok_def)
  have "distinct (vector_objects m v)"
    "\<forall>g. g \<in> set (vector_objects m v) \<longleftrightarrow> (\<exists>x. map_of (interrupts m) g = Some x \<and> vi_vector x = v)"
    using irq_inv_dest(3) [OF inv] by (simp_all add: vectors_ok_def)
  then show ?thesis unfolding q using irq_inv_counts(1) [OF inv] ok irq_inv_compatible [OF inv, unfolded compatible_def] by blast
qed

theorem irq_vectors_consistent_witness:
  "vector_objects demo_irq2 0x30 = [0x10] \<and> isr_invocations demo_irq2 = 1 \<and> distinct (vector_objects demo_irq2 0x30) \<and>
   (\<exists>x. query_interrupt demo_irq2 0x10 = Ok x \<and> vi_vector x = 0x30)"
proof -
  have v: "vector_objects demo_irq2 0x30 = [0x10]" by (simp add: vector_objects_def demo_irq2_eq demo_irq1_eq)
  note c = irq_vectors_consistent [OF demo_irq_reachable(2), of "0x30"]
  have "0x10 \<in> set (vector_objects demo_irq2 0x30)" by (simp add: v)
  then have "\<exists>x. query_interrupt demo_irq2 0x10 = Ok x \<and> vi_vector x = 0x30" using c by blast
  moreover have "isr_invocations demo_irq2 = 1" by (simp add: demo_irq2_eq)
  ultimately show ?thesis using v c by blast
qed

text \<open>
  A disconnection waits for the service routine calls in flight and then always happens. Disconnecting an
  interrupt with dispatches in flight is deferred; from then on no new dispatch begins. Each of the dispatches in
  flight can be ended, the object staying registered until the last one; the end of the last one reports the
  removal, and afterwards the object is neither found nor on its vector, and its tickets are invalid.
\<close>
theorem deferred_disconnect_drains:
  assumes "irq_step\<^sup>*\<^sup>* interrupt_manager_new m" and x: "query_interrupt m g = Ok x" and busy: "0 < vi_in_flight x" and t: "dt_id t = vi_id x"
  shows "\<exists>m1. disconnect m g = (Ok Deferred, m1) \<and>
     (\<forall>k<vi_in_flight x. begin_dispatch (finish_dispatches k m1 t) g = (Err STATUS_DELETE_PENDING, finish_dispatches k m1 t) \<and>
        fst (end_dispatch (finish_dispatches k m1 t) t) = Ok (Suc k = vi_in_flight x)) \<and>
     (let m2 = finish_dispatches (vi_in_flight x) m1 t in
        query_interrupt m2 g = Err STATUS_INVALID_HANDLE \<and> g \<notin> set (vector_objects m2 v) \<and>
        end_dispatch m2 t = (Err STATUS_INVALID_HANDLE, m2))"
proof -
  let ?n = "vi_in_flight x" let ?y = "x\<lparr>vi_disconnect_pending := True\<rparr>"
  have inv: "irq_inv m" by (rule irq.reachable_inv [OF refl assms(1)])
  have look: "map_of (interrupts m) g = Some x"
    using x by (cases "map_of (interrupts m) g") (simp_all add: query_interrupt_def)
  define m1 where "m1 = snd (disconnect m g)"
  have d: "disconnect m g = (Ok Deferred, m1)" using look busy by (simp add: m1_def disconnect_def)
  have inv1: "irq_inv m1" using disconnect_inv [OF inv] by (simp add: m1_def)
  have look1: "map_of (interrupts m1) g = Some ?y" using look busy by (simp add: m1_def disconnect_def)
  have s: "irq_inv (finish_dispatches k m1 t)" "map_of (interrupts (finish_dispatches k m1 t)) g = Some (?y\<lparr>vi_in_flight := ?n - k\<rparr>)"
    if "k < ?n" for k using finish_dispatches_pending [OF inv1 look1, of t k] t that by simp_all
  have each: "begin_dispatch (finish_dispatches k m1 t) g = (Err STATUS_DELETE_PENDING, finish_dispatches k m1 t) \<and>
        fst (end_dispatch (finish_dispatches k m1 t) t) = Ok (Suc k = ?n)" if k: "k < ?n" for k
  proof (cases "Suc k = ?n")
    case True
    then show ?thesis using end_dispatch_pending(2) [OF s [OF k], of t] s(2) [OF k] t by (simp add: begin_dispatch_def)
  next
    case False
    then show ?thesis using end_dispatch_pending(1) [OF s [OF k], of t] s(2) [OF k] t k by (simp add: begin_dispatch_def)
  qed
  obtain k where k: "?n = Suc k" using busy by (cases ?n) simp_all
  let ?m2 = "finish_dispatches ?n m1 t"
  have inv2: "irq_inv ?m2" using end_dispatch_inv [OF s(1) [of k], of t] k by simp
  have "interrupts ?m2 = om_remove g (interrupts (finish_dispatches k m1 t))" "by_id ?m2 = om_remove (vi_id x) (by_id (finish_dispatches k m1 t))"
    using end_dispatch_pending(2) [OF s [of k], of t] t k by simp_all
  then have gone: "map_of (interrupts ?m2) g = None" "map_of (by_id ?m2) (dt_id t) = None" using t by simp_all
  have "g \<notin> set (vector_objects ?m2 v)" using irq_inv_dest(3) [OF inv2] gone by (simp add: vectors_ok_def)
  then show ?thesis using d each gone by (simp add: query_interrupt_def Let_def end_dispatch_def)
qed

theorem deferred_disconnect_drains_witness:
  "\<exists>m1. disconnect demo_irq2 0x10 = (Ok Deferred, m1) \<and> begin_dispatch m1 0x10 = (Err STATUS_DELETE_PENDING, m1) \<and>
     query_interrupt (snd (end_dispatch m1 \<lparr>dt_id = 1, dt_guest_object = 0x10, dt_service_routine = 0x1000, dt_service_context = 0,
       dt_irql = 5\<rparr>)) 0x10 = Err STATUS_INVALID_HANDLE"
proof -
  let ?x = "(connected_record interrupt_manager_new (demo_request 0x10))\<lparr>vi_in_flight := 1\<rparr>"
  let ?t = "\<lparr>dt_id = 1, dt_guest_object = 0x10, dt_service_routine = 0x1000, dt_service_context = 0, dt_irql = 5\<rparr>"
  have "query_interrupt demo_irq2 0x10 = Ok ?x" by (simp add: query_interrupt_def demo_irq2_eq)
  from deferred_disconnect_drains [OF demo_irq_reachable(2) this, of ?t 0] show ?thesis
    by (simp add: Let_def connected_record_def interrupt_manager_new_def) blast
qed

end
