(* ===== verification/Security.thy ===== *)
theory Security
  imports Object_Manager
begin

text \<open>
  The security reference monitor of \<open>src/src/casak/security.rs\<close>: security identifiers, access tokens,
  ordered access control lists, impersonation and the access check made when an object is opened.
  A \<open>BTreeSet\<close> is a set; the impersonation stack is a list that grows at its end. The check is shown equal
  to a specification bit by bit, and the token table is shown to keep its bound and never to reuse an identifier.
\<close>

unbundle bit_operations_syntax

section \<open>Identifiers, tokens and descriptors\<close>

record sid =
  sid_authority :: nat
  sid_subauthorities :: "u32 list"

definition sid_new :: "nat \<Rightarrow> u32 list \<Rightarrow> sid res" where
  "sid_new a subs = (if a = 0 \<and> subs = [] then Err STATUS_INVALID_SID
     else Ok \<lparr>sid_authority = a, sid_subauthorities = subs\<rparr>)"

text \<open>The well-known identifiers; each is built with \<open>sid_new\<close>, whose failure would be a panic.\<close>

definition sid_expect :: "sid res \<Rightarrow> sid res" where
  "sid_expect r = (case r of Ok s \<Rightarrow> Ok s | _ \<Rightarrow> Panic)"

definition sid_world :: "sid res" where "sid_world = sid_expect (sid_new 1 [0])"
definition sid_local_system :: "sid res" where "sid_local_system = sid_expect (sid_new 5 [18])"
definition sid_authenticated_users :: "sid res" where "sid_authenticated_users = sid_expect (sid_new 5 [11])"
definition sid_administrators :: "sid res" where "sid_administrators = sid_expect (sid_new 5 [32, 544])"
definition sid_users :: "sid res" where "sid_users = sid_expect (sid_new 5 [32, 545])"

datatype integrity_level = Untrusted | Low | Medium | High | System

fun integrity_rank :: "integrity_level \<Rightarrow> nat" where
  "integrity_rank Untrusted = 0"
| "integrity_rank Low = 1"
| "integrity_rank Medium = 2"
| "integrity_rank High = 3"
| "integrity_rank System = 4"

lemma integrity_rank_inject [simp]: "integrity_rank a = integrity_rank b \<longleftrightarrow> a = b"
  by (cases a; cases b) simp_all

instantiation integrity_level :: linorder
begin

definition less_eq_integrity_level :: "integrity_level \<Rightarrow> integrity_level \<Rightarrow> bool" where
  "a \<le> b \<longleftrightarrow> integrity_rank a \<le> integrity_rank b"

definition less_integrity_level :: "integrity_level \<Rightarrow> integrity_level \<Rightarrow> bool" where
  "a < b \<longleftrightarrow> integrity_rank a < integrity_rank b"

instance
  by standard (auto simp: less_eq_integrity_level_def less_integrity_level_def)

end

datatype privilege = SeDebugPrivilege | SeBackupPrivilege | SeRestorePrivilege | SeShutdownPrivilege | SeTcbPrivilege

datatype impersonation_level = Anonymous | Identification | Impersonation | Delegation

record token =
  tok_id :: nat
  tok_user :: sid
  tok_groups :: "sid set"
  tok_privileges :: "privilege set"
  tok_integrity :: integrity_level
  tok_elevated :: bool
  tok_impersonation :: "impersonation_level option"
  tok_restricted :: "sid set"

record ace =
  ace_allow :: bool
  ace_sid :: sid
  ace_mask :: u32

type_synonym acl = "ace list"

definition acl_push_allow :: "acl \<Rightarrow> sid \<Rightarrow> u32 \<Rightarrow> acl" where
  "acl_push_allow aces s rights = aces @ [\<lparr>ace_allow = True, ace_sid = s, ace_mask = rights\<rparr>]"

definition acl_push_deny :: "acl \<Rightarrow> sid \<Rightarrow> u32 \<Rightarrow> acl" where
  "acl_push_deny aces s rights = aces @ [\<lparr>ace_allow = False, ace_sid = s, ace_mask = rights\<rparr>]"

record security_descriptor =
  sd_owner :: sid
  sd_dacl :: "acl option"
  sd_integrity :: "integrity_level option"

definition security_descriptor_new :: "sid \<Rightarrow> security_descriptor" where
  "security_descriptor_new owner = \<lparr>sd_owner = owner, sd_dacl = None, sd_integrity = None\<rparr>"

definition with_dacl :: "sid \<Rightarrow> acl \<Rightarrow> security_descriptor" where
  "with_dacl owner dacl = \<lparr>sd_owner = owner, sd_dacl = Some dacl, sd_integrity = None\<rparr>"

definition require_integrity :: "security_descriptor \<Rightarrow> integrity_level \<Rightarrow> security_descriptor" where
  "require_integrity d l = d\<lparr>sd_integrity := Some l\<rparr>"

section \<open>The monitor\<close>

record security_monitor =
  tokens :: "(nat, token) omap"
  next_token :: nat
  impersonation :: "nat list"

definition security_monitor_new :: security_monitor where
  "security_monitor_new = \<lparr>tokens = [], next_token = 1, impersonation = []\<rparr>"

definition create_token :: "security_monitor \<Rightarrow> sid \<Rightarrow> sid list \<Rightarrow> privilege list \<Rightarrow> integrity_level \<Rightarrow> nat res \<times> security_monitor" where
  "create_token m user groups privs integrity =
     (if length (tokens m) \<ge> 64 then (Err STATUS_INSUFFICIENT_RESOURCES, m)
      else let i = next_token m
           in (Ok i, m\<lparr>next_token := i + 1,
                tokens := om_insert i \<lparr>tok_id = i, tok_user = user, tok_groups = set groups, tok_privileges = set privs,
                  tok_integrity = integrity, tok_elevated = False, tok_impersonation = None, tok_restricted = {}\<rparr> (tokens m)\<rparr>))"

definition create_restricted_token :: "security_monitor \<Rightarrow> sid \<Rightarrow> sid list \<Rightarrow> sid list \<Rightarrow> nat res \<times> security_monitor" where
  "create_restricted_token m user groups restricted =
     (case create_token m user groups [] Medium of (r, m1) \<Rightarrow> attempt r m1 (\<lambda>i.
        (Ok i, (case map_of (tokens m1) i of
           None \<Rightarrow> m1
         | Some t \<Rightarrow> m1\<lparr>tokens := om_insert i (t\<lparr>tok_restricted := set restricted\<rparr>) (tokens m1)\<rparr>))))"

definition delete_token :: "security_monitor \<Rightarrow> nat \<Rightarrow> unit res \<times> security_monitor" where
  "delete_token m i =
     (case map_of (tokens m) i of
        None \<Rightarrow> (Err STATUS_INVALID_HANDLE, m)
      | Some _ \<Rightarrow> (Ok (), m\<lparr>tokens := om_remove i (tokens m)\<rparr>))"

definition query_token :: "security_monitor \<Rightarrow> nat \<Rightarrow> token res" where
  "query_token m i = ok_or (map_of (tokens m) i) STATUS_INVALID_HANDLE"

definition token_count :: "security_monitor \<Rightarrow> nat" where
  "token_count m = length (tokens m)"

definition elevate :: "security_monitor \<Rightarrow> nat \<Rightarrow> unit res \<times> security_monitor" where
  "elevate m i = attempt (ok_or (map_of (tokens m) i) STATUS_INVALID_HANDLE) m (\<lambda>t.
     (Ok (), m\<lparr>tokens := om_insert i (t\<lparr>tok_elevated := True\<rparr>) (tokens m)\<rparr>))"

definition set_impersonation_level :: "security_monitor \<Rightarrow> nat \<Rightarrow> impersonation_level \<Rightarrow> unit res \<times> security_monitor" where
  "set_impersonation_level m i l = attempt (ok_or (map_of (tokens m) i) STATUS_INVALID_HANDLE) m (\<lambda>t.
     (Ok (), m\<lparr>tokens := om_insert i (t\<lparr>tok_impersonation := Some l\<rparr>) (tokens m)\<rparr>))"

definition impersonate :: "security_monitor \<Rightarrow> nat \<Rightarrow> unit res \<times> security_monitor" where
  "impersonate m i = (if map_of (tokens m) i = None then (Err STATUS_INVALID_HANDLE, m)
     else (Ok (), m\<lparr>impersonation := impersonation m @ [i]\<rparr>))"

definition revert :: "security_monitor \<Rightarrow> nat res \<times> security_monitor" where
  "revert m = (if impersonation m = [] then (Err STATUS_INVALID_HANDLE, m)
     else (Ok (last (impersonation m)), m\<lparr>impersonation := butlast (impersonation m)\<rparr>))"

definition current_token :: "security_monitor \<Rightarrow> nat option" where
  "current_token m = (if impersonation m = [] then None else Some (last (impersonation m)))"

definition require_privilege :: "security_monitor \<Rightarrow> nat \<Rightarrow> privilege \<Rightarrow> unit res" where
  "require_privilege m i p = rbind (query_token m i) (\<lambda>t.
     if p \<in> tok_privileges t then Ok () else Err STATUS_PRIVILEGE_NOT_HELD)"

definition evaluate_acl :: "acl \<Rightarrow> sid set \<Rightarrow> u32 \<Rightarrow> bool" where
  "evaluate_acl dacl sids desired =
     (let denied = fold (\<lambda>a bits. bits OR ace_mask a) (filter (\<lambda>a. \<not> ace_allow a \<and> ace_sid a \<in> sids) dacl) 0
      in if desired AND denied \<noteq> 0 then False
         else let allowed = fold (\<lambda>a bits. bits OR ace_mask a) (filter (\<lambda>a. ace_allow a \<and> ace_sid a \<in> sids) dacl) 0
              in desired AND NOT allowed = 0)"

definition token_access :: "security_monitor \<Rightarrow> nat \<Rightarrow> security_descriptor \<Rightarrow> u32 \<Rightarrow> unit res" where
  "token_access m i d desired = rbind (query_token m i) (\<lambda>t.
     if (case sd_integrity d of None \<Rightarrow> False | Some required \<Rightarrow> tok_integrity t < required) \<and> SeTcbPrivilege \<notin> tok_privileges t
     then Err STATUS_ACCESS_DENIED
     else if tok_impersonation t = Some Identification \<and> desired AND (WRITE_DAC OR DELETE OR GENERIC_WRITE) \<noteq> 0
     then Err STATUS_ACCESS_DENIED
     else if desired = 0 then Ok ()
     else rbind (ok_or (sd_dacl d) STATUS_ACCESS_DENIED) (\<lambda>dacl.
       let effective = (if tok_user t = sd_owner d then desired AND NOT (READ_CONTROL OR WRITE_DAC) else desired)
       in if effective = 0 then Ok ()
          else if \<not> evaluate_acl dacl (insert (tok_user t) (tok_groups t)) effective then Err STATUS_ACCESS_DENIED
          else if tok_restricted t \<noteq> {} \<and> \<not> evaluate_acl dacl (tok_restricted t) effective then Err STATUS_ACCESS_DENIED
          else Ok ()))"

section \<open>The access check bit by bit\<close>

lemma bit_fold_masks:
  "bit (fold (\<lambda>a bits. bits OR ace_mask a) l z) n \<longleftrightarrow> bit z n \<or> (\<exists>a \<in> set l. bit (ace_mask a) n)"
  by (induction l arbitrary: z) (auto simp: bit_simps)

definition acl_grants :: "acl \<Rightarrow> sid set \<Rightarrow> nat \<Rightarrow> bool" where
  "acl_grants dacl S n \<longleftrightarrow> (\<exists>a \<in> set dacl. ace_allow a \<and> ace_sid a \<in> S \<and> bit (ace_mask a) n) \<and>
     \<not> (\<exists>a \<in> set dacl. \<not> ace_allow a \<and> ace_sid a \<in> S \<and> bit (ace_mask a) n)"

lemma bit_u32_less: "bit (w :: u32) n \<Longrightarrow> n < 32"
  by (drule bit_imp_le_length) simp

lemma word_zero_bits: "(w :: u32) = 0 \<longleftrightarrow> (\<forall>n. \<not> bit w n)"
  by (auto simp: bit_eq_iff dest: bit_u32_less)

lemma bit_and_not_iff: "bit (w AND NOT (v :: u32)) n \<longleftrightarrow> bit w n \<and> \<not> bit v n"
  by (auto simp: bit_and_iff bit_not_iff dest: bit_u32_less)

lemma evaluate_acl_iff: "evaluate_acl dacl S desired \<longleftrightarrow> (\<forall>n. bit desired n \<longrightarrow> acl_grants dacl S n)"
proof -
  let ?d = "fold (\<lambda>a bits. bits OR ace_mask a) (filter (\<lambda>a. \<not> ace_allow a \<and> ace_sid a \<in> S) dacl) 0"
  let ?a = "fold (\<lambda>a bits. bits OR ace_mask a) (filter (\<lambda>a. ace_allow a \<and> ace_sid a \<in> S) dacl) 0"
  have "desired AND ?d = 0 \<longleftrightarrow> (\<forall>n. bit desired n \<longrightarrow> \<not> (\<exists>a \<in> set dacl. \<not> ace_allow a \<and> ace_sid a \<in> S \<and> bit (ace_mask a) n))"
    unfolding word_zero_bits bit_and_iff bit_fold_masks by auto
  moreover have "desired AND NOT ?a = 0 \<longleftrightarrow> (\<forall>n. bit desired n \<longrightarrow> (\<exists>a \<in> set dacl. ace_allow a \<and> ace_sid a \<in> S \<and> bit (ace_mask a) n))"
    unfolding word_zero_bits bit_and_not_iff bit_fold_masks by auto
  ultimately show ?thesis unfolding evaluate_acl_def Let_def acl_grants_def by auto
qed

text \<open>The decision as a single condition: the token's integrity suffices, an identification token asks for no
  modification, and every right asked for is the owner's or is granted to the token and to its restriction.\<close>

definition owner_bit :: "token \<Rightarrow> security_descriptor \<Rightarrow> nat \<Rightarrow> bool" where
  "owner_bit t d n \<longleftrightarrow> tok_user t = sd_owner d \<and> bit (READ_CONTROL OR WRITE_DAC) n"

definition right_granted :: "token \<Rightarrow> security_descriptor \<Rightarrow> acl \<Rightarrow> nat \<Rightarrow> bool" where
  "right_granted t d dacl n \<longleftrightarrow> owner_bit t d n \<or>
     acl_grants dacl (insert (tok_user t) (tok_groups t)) n \<and> (tok_restricted t = {} \<or> acl_grants dacl (tok_restricted t) n)"

definition monitor_grants :: "token \<Rightarrow> security_descriptor \<Rightarrow> u32 \<Rightarrow> bool" where
  "monitor_grants t d desired \<longleftrightarrow>
     (\<forall>l. sd_integrity d = Some l \<longrightarrow> l \<le> tok_integrity t \<or> SeTcbPrivilege \<in> tok_privileges t) \<and>
     (tok_impersonation t = Some Identification \<longrightarrow> desired AND (WRITE_DAC OR DELETE OR GENERIC_WRITE) = 0) \<and>
     (desired = 0 \<or> (\<exists>dacl. sd_dacl d = Some dacl \<and> (\<forall>n. bit desired n \<longrightarrow> right_granted t d dacl n)))"

lemma effective_bits:
  "(\<forall>n. bit (if tok_user t = sd_owner d then desired AND NOT (READ_CONTROL OR WRITE_DAC) else desired) n \<longrightarrow> P n) \<longleftrightarrow>
   (\<forall>n. bit desired n \<longrightarrow> owner_bit t d n \<or> P n)"
proof -
  have "bit (if tok_user t = sd_owner d then desired AND NOT (READ_CONTROL OR WRITE_DAC) else desired) n \<longleftrightarrow>
      bit desired n \<and> \<not> owner_bit t d n" for n
    using bit_and_not_iff [of desired "READ_CONTROL OR WRITE_DAC" n] 
    by (cases "tok_user t = sd_owner d") (simp_all only: owner_bit_def if_True if_False simp_thms)
  then show ?thesis by blast
qed

lemma token_access_eq:
  assumes t: "map_of (tokens m) i = Some t"
  shows "token_access m i d desired = (if monitor_grants t d desired then Ok () else Err STATUS_ACCESS_DENIED)"
proof -
  let ?S = "insert (tok_user t) (tok_groups t)"
  let ?e = "if tok_user t = sd_owner d then desired AND NOT (READ_CONTROL OR WRITE_DAC) else desired"
  have rights: "(\<forall>n. bit desired n \<longrightarrow> right_granted t d dacl n) \<longleftrightarrow>
      (?e = 0 \<or> evaluate_acl dacl ?S ?e \<and> (tok_restricted t = {} \<or> evaluate_acl dacl (tok_restricted t) ?e))" for dacl
  proof -
    have "(\<forall>n. bit desired n \<longrightarrow> right_granted t d dacl n) \<longleftrightarrow>
      (\<forall>n. bit ?e n \<longrightarrow> acl_grants dacl ?S n \<and> (tok_restricted t = {} \<or> acl_grants dacl (tok_restricted t) n))"
      unfolding effective_bits right_granted_def by blast
    then show ?thesis unfolding evaluate_acl_iff word_zero_bits [of ?e] by blast
  qed
  have q: "query_token m i = Ok t" using t by (simp add: query_token_def)
  show ?thesis
  proof (cases "sd_dacl d")
    case None
    then show ?thesis unfolding token_access_def q monitor_grants_def by (auto split: option.splits)
  next
    case (Some dacl)
    then show ?thesis unfolding token_access_def q monitor_grants_def
      by (auto simp: rights Let_def split: option.splits)
  qed
qed

section \<open>The token table\<close>

definition tokens_inv :: "security_monitor \<Rightarrow> bool" where
  "tokens_inv m \<longleftrightarrow> fresh_ids (tokens m) (next_token m) \<and> length (tokens m) \<le> 64 \<and>
     (\<forall>i t. map_of (tokens m) i = Some t \<longrightarrow> tok_id t = i) \<and> (\<forall>i \<in> set (impersonation m). i < next_token m)"

lemma tokens_inv_new: "tokens_inv security_monitor_new"
  by (simp add: tokens_inv_def security_monitor_new_def)

lemma token_update_inv:
  assumes inv: "tokens_inv m" and t: "map_of (tokens m) i = Some t" and i: "tok_id t' = tok_id t"
  shows "tokens_inv (m\<lparr>tokens := om_insert i t' (tokens m)\<rparr>)"
proof -
  have "length (om_insert i t' (tokens m)) = length (tokens m)"
    using inv t by (intro om_insert_present_length) (auto simp: tokens_inv_def om_keys_dom dest: fresh_ids_wf)
  then show ?thesis using inv t i by (auto simp: tokens_inv_def)
qed

lemma create_token_inv:
  assumes inv: "tokens_inv m"
  shows "tokens_inv (snd (create_token m user groups privs l))"
proof (cases "length (tokens m) \<ge> 64")
  case True
  with inv show ?thesis by (simp add: create_token_def)
next
  case False
  have "map_of (tokens m) (next_token m) = None" using inv by (auto simp: tokens_inv_def intro: fresh_ids_absent)
  then have "length (om_insert (next_token m) t (tokens m)) = Suc (length (tokens m))" for t
    by (simp add: om_insert_fresh_length map_of_eq_None_iff)
  then show ?thesis using inv False by (auto simp: create_token_def tokens_inv_def Let_def)
qed

lemma create_restricted_token_inv:
  assumes inv: "tokens_inv m"
  shows "tokens_inv (snd (create_restricted_token m user groups restricted))"
proof -
  obtain r m1 where c: "create_token m user groups [] Medium = (r, m1)" by fastforce
  have inv1: "tokens_inv m1" using create_token_inv [OF inv, of user groups "[]" Medium] c by simp
  show ?thesis
    using inv1 token_update_inv [OF inv1] unfolding create_restricted_token_def c
    by (cases r) (auto split: option.splits)
qed

lemma token_ops_inv:
  assumes inv: "tokens_inv m"
  shows "tokens_inv (snd (delete_token m i))" "tokens_inv (snd (elevate m i))" "tokens_inv (snd (set_impersonation_level m i l))"
    "tokens_inv (snd (impersonate m i))" "tokens_inv (snd (revert m))"
proof -
  have wf: "om_wf (tokens m)" using inv by (auto simp: tokens_inv_def dest: fresh_ids_wf)
  have "length (om_remove i (tokens m)) \<le> 64" if "map_of (tokens m) i = Some t" for t
    using om_remove_length [OF wf that] inv by (simp add: tokens_inv_def)
  then show "tokens_inv (snd (delete_token m i))" using inv by (auto simp: delete_token_def tokens_inv_def split: option.splits)
  show "tokens_inv (snd (elevate m i))" "tokens_inv (snd (set_impersonation_level m i l))"
    using inv token_update_inv [OF inv, of i]
    by (cases "map_of (tokens m) i"; simp add: elevate_def set_impersonation_level_def)+
  show "tokens_inv (snd (impersonate m i))"
    using inv fresh_ids_bound [of "tokens m" "next_token m" i] by (auto simp: impersonate_def tokens_inv_def)
  show "tokens_inv (snd (revert m))" using inv by (auto simp: revert_def tokens_inv_def dest: in_set_butlastD)
qed

inductive token_step :: "security_monitor \<Rightarrow> security_monitor \<Rightarrow> bool" where
  create: "token_step m (snd (create_token m user groups privs l))"
| restricted: "token_step m (snd (create_restricted_token m user groups rs))"
| delete: "token_step m (snd (delete_token m i))"
| elevate: "token_step m (snd (elevate m i))"
| level: "token_step m (snd (set_impersonation_level m i lv))"
| impersonate: "token_step m (snd (impersonate m i))"
| revert: "token_step m (snd (revert m))"

interpretation tok: invariant_system "\<lambda>m. m = security_monitor_new" token_step tokens_inv
  by unfold_locales
    (auto simp: tokens_inv_new create_token_inv create_restricted_token_inv token_ops_inv elim!: token_step.cases)

text \<open>Identifiers only grow, so an identifier that was issued never comes back.\<close>

lemma next_token_mono: "token_step m m' \<Longrightarrow> next_token m \<le> next_token m'"
  by (auto simp: create_token_def create_restricted_token_def delete_token_def elevate_def set_impersonation_level_def
      impersonate_def revert_def Let_def attempt_def split: option.splits res.splits elim!: token_step.cases)

lemma next_token_steps_mono: "token_step\<^sup>*\<^sup>* m m' \<Longrightarrow> next_token m \<le> next_token m'"
  by (induction rule: rtranclp_induct) (auto dest: next_token_mono)

lemma token_gone_step:
  assumes "token_step m m'" "map_of (tokens m) i = None" "i < next_token m"
  shows "map_of (tokens m') i = None \<and> i < next_token m'"
  using assms
proof (cases rule: token_step.cases)
  case (restricted user groups rs)
  then show ?thesis using assms(2,3)
    by (simp add: create_restricted_token_def create_token_def Let_def)
qed (auto simp: create_token_def delete_token_def elevate_def set_impersonation_level_def
      impersonate_def revert_def Let_def attempt_def split: option.splits res.splits)

lemma token_gone_steps:
  "token_step\<^sup>*\<^sup>* m m' \<Longrightarrow> map_of (tokens m) i = None \<Longrightarrow> i < next_token m \<Longrightarrow> map_of (tokens m') i = None \<and> i < next_token m'"
  by (induction rule: rtranclp_induct) (auto dest: token_gone_step)

lemma acl_grants_push_deny: "acl_grants (acl_push_deny dacl s r) S n \<Longrightarrow> acl_grants dacl S n"
  by (auto simp: acl_grants_def acl_push_deny_def)

lemma acl_grants_push_allow: "acl_grants dacl S n \<Longrightarrow> acl_grants (acl_push_allow dacl s r) S n"
  by (auto simp: acl_grants_def acl_push_allow_def)

lemma acl_grants_set: "set dacl = set dacl' \<Longrightarrow> acl_grants dacl S n = acl_grants dacl' S n"
  by (simp add: acl_grants_def)

text \<open>Fewer rights are easier to obtain, and so are lists that grant more.\<close>

lemma monitor_grants_mono:
  assumes g: "monitor_grants t d w" and dacl: "sd_dacl d = Some dacl" and sub: "w' AND NOT w = 0"
    and more: "\<And>S n. acl_grants dacl S n \<Longrightarrow> acl_grants dacl' S n"
  shows "monitor_grants t (d\<lparr>sd_dacl := Some dacl'\<rparr>) w'"
proof -
  have bits: "bit w n" if "bit w' n" for n using sub that unfolding word_zero_bits bit_and_not_iff by blast
  have "w' AND x = 0" if "w AND x = 0" for x using that bits unfolding word_zero_bits bit_and_iff by blast
  moreover have "right_granted t (d\<lparr>sd_dacl := Some dacl'\<rparr>) dacl' n" if "right_granted t d dacl n" for n
    using that more unfolding right_granted_def owner_bit_def by auto
  moreover have "w' = 0" if "w = 0" using that sub by simp
  ultimately show ?thesis using g dacl bits unfolding monitor_grants_def by auto
qed

section \<open>Properties\<close>

text \<open>
  C15. The access check decides exactly the specification. An unknown token is an invalid handle. Otherwise access
  is granted if and only if the token's integrity reaches the one the descriptor requires or the token holds the
  TCB privilege; an identification token asks for no modification; and either nothing is asked for, or the descriptor has an access control list and every
  single right asked for either is one
  of the owner's implicit rights or is allowed by a matching entry of the list and denied by none, both for the
  token's own identifiers and, if it is restricted, for the restricting ones. All other requests are denied; in particular a descriptor
  without a list grants no right, not even the implicit ones to its owner.
\<close>
theorem access_check_exact:
  "token_access m i d desired =
     (case map_of (tokens m) i of
        None \<Rightarrow> Err STATUS_INVALID_HANDLE
      | Some t \<Rightarrow> if monitor_grants t d desired then Ok () else Err STATUS_ACCESS_DENIED)"
  by (cases "map_of (tokens m) i") (simp_all add: token_access_eq, simp add: token_access_def query_token_def)

definition demo_monitor :: security_monitor where
  "demo_monitor = snd (create_token security_monitor_new \<lparr>sid_authority = 5, sid_subauthorities = [18]\<rparr>
     [\<lparr>sid_authority = 1, sid_subauthorities = [0]\<rparr>] [] Medium)"

lemma demo_monitor_eq:
  "demo_monitor = \<lparr>tokens = [(1, \<lparr>tok_id = 1, tok_user = \<lparr>sid_authority = 5, sid_subauthorities = [18]\<rparr>,
     tok_groups = {\<lparr>sid_authority = 1, sid_subauthorities = [0]\<rparr>}, tok_privileges = {}, tok_integrity = Medium,
     tok_elevated = False, tok_impersonation = None, tok_restricted = {}\<rparr>)], next_token = 2, impersonation = []\<rparr>"
  by (simp add: demo_monitor_def create_token_def security_monitor_new_def)

text \<open>
  The access check is monotone. For a descriptor with an access control list: adding a deny entry never grants
  an access that was refused; adding an allow entry never revokes one; the order and the multiplicity of the entries
  do not matter; and a granted access is also granted for every subset of its rights.
\<close>
theorem access_check_monotone:
  assumes dacl: "sd_dacl d = Some dacl"
  shows "(token_access m i (d\<lparr>sd_dacl := Some (acl_push_deny dacl s r)\<rparr>) w = Ok () \<longrightarrow> token_access m i d w = Ok ()) \<and>
     (token_access m i d w = Ok () \<longrightarrow> token_access m i (d\<lparr>sd_dacl := Some (acl_push_allow dacl s r)\<rparr>) w = Ok ()) \<and>
     (set dacl' = set dacl \<longrightarrow> token_access m i (d\<lparr>sd_dacl := Some dacl'\<rparr>) w = token_access m i d w) \<and>
     (token_access m i d w = Ok () \<and> w' AND NOT w = 0 \<longrightarrow> token_access m i d w' = Ok ())"
proof (cases "map_of (tokens m) i")
  case None
  then show ?thesis by (simp add: token_access_def query_token_def)
next
  case (Some t)
  have same: "d\<lparr>sd_dacl := Some dacl\<rparr> = d" using dacl by simp
  note mono = monitor_grants_mono [where t = t]
  have deny: "monitor_grants t (d\<lparr>sd_dacl := Some (acl_push_deny dacl s r)\<rparr>) w \<Longrightarrow> monitor_grants t d w"
    using mono [of "d\<lparr>sd_dacl := Some (acl_push_deny dacl s r)\<rparr>" w "acl_push_deny dacl s r" w dacl]
      acl_grants_push_deny [of dacl s r] same by simp
  have allow: "monitor_grants t d w \<Longrightarrow> monitor_grants t (d\<lparr>sd_dacl := Some (acl_push_allow dacl s r)\<rparr>) w"
    using mono [of d w dacl w "acl_push_allow dacl s r"] dacl acl_grants_push_allow by simp
  have order: "monitor_grants t (d\<lparr>sd_dacl := Some dacl'\<rparr>) w \<longleftrightarrow> monitor_grants t d w" if "set dacl' = set dacl"
    using mono [of d w dacl w dacl'] mono [of "d\<lparr>sd_dacl := Some dacl'\<rparr>" w dacl' w dacl] dacl same
      acl_grants_set [OF that] by auto
  have sub: "monitor_grants t d w \<Longrightarrow> w' AND NOT w = 0 \<Longrightarrow> monitor_grants t d w'"
    using mono [of d w dacl w' dacl] dacl same by simp
  show ?thesis unfolding token_access_eq [OF Some] using deny allow order sub by auto
qed

theorem access_check_monotone_witness:
  "token_access demo_monitor 1 (with_dacl \<lparr>sid_authority = 1, sid_subauthorities = [0]\<rparr>
     (acl_push_deny [\<lparr>ace_allow = True, ace_sid = \<lparr>sid_authority = 1, sid_subauthorities = [0]\<rparr>, ace_mask = 3\<rparr>]
       \<lparr>sid_authority = 5, sid_subauthorities = [18]\<rparr> 2)) 1 = Ok () \<and>
   token_access demo_monitor 1 (with_dacl \<lparr>sid_authority = 1, sid_subauthorities = [0]\<rparr>
     [\<lparr>ace_allow = True, ace_sid = \<lparr>sid_authority = 1, sid_subauthorities = [0]\<rparr>, ace_mask = 3\<rparr>]) 1 = Ok ()"
proof -
  let ?w = "\<lparr>sid_authority = 1, sid_subauthorities = [0 :: u32]\<rparr>"
  let ?l = "[\<lparr>ace_allow = True, ace_sid = ?w, ace_mask = 3\<rparr>]"
  have "token_access demo_monitor 1 ((with_dacl ?w ?l)\<lparr>sd_dacl := Some (acl_push_deny ?l \<lparr>sid_authority = 5, sid_subauthorities = [18]\<rparr> 2)\<rparr>) 1 = Ok ()"
    by (simp add: token_access_def query_token_def demo_monitor_eq with_dacl_def acl_push_deny_def evaluate_acl_def Let_def)
  then show ?thesis
    using access_check_monotone [of "with_dacl ?w ?l" ?l demo_monitor 1 "\<lparr>sid_authority = 5, sid_subauthorities = [18]\<rparr>" 2 1]
    by (simp add: with_dacl_def)
qed

text \<open>
  A deleted token stays deleted: after its deletion no sequence of operations makes its identifier valid again, so a
  use of it, also by an impersonation that still refers to it, always fails with an invalid handle; and the table
  never holds more than 64 tokens.
\<close>
theorem deleted_token_never_returns:
  assumes "token_step\<^sup>*\<^sup>* security_monitor_new m" and d: "delete_token m i = (Ok (), m1)" and s: "token_step\<^sup>*\<^sup>* m1 m2"
  shows "query_token m2 i = Err STATUS_INVALID_HANDLE \<and> token_access m2 i sd w = Err STATUS_INVALID_HANDLE \<and>
     impersonate m2 i = (Err STATUS_INVALID_HANDLE, m2) \<and> token_count m2 \<le> 64"
proof -
  have inv: "tokens_inv m" by (rule tok.reachable_inv [OF refl assms(1)])
  have inv1: "tokens_inv m1" using token_ops_inv(1) [OF inv, of i] d by simp
  have "i < next_token m1 \<and> map_of (tokens m1) i = None"
    using d inv by (auto simp: delete_token_def tokens_inv_def dest: fresh_ids_bound split: option.splits)
  then have "map_of (tokens m2) i = None" using token_gone_steps [OF s] by blast
  moreover have "tokens_inv m2" by (rule tok.steps_inv [OF s inv1])
  ultimately show ?thesis by (simp add: query_token_def token_access_def impersonate_def token_count_def tokens_inv_def)
qed

theorem deleted_token_never_returns_witness:
  "current_token (snd (delete_token (snd (impersonate demo_monitor 1)) 1)) = Some 1 \<and>
   query_token (snd (create_token (snd (delete_token (snd (impersonate demo_monitor 1)) 1)) \<lparr>sid_authority = 5, sid_subauthorities = [18]\<rparr>
     [] [] System)) 1 = Err STATUS_INVALID_HANDLE"
proof -
  let ?m = "snd (impersonate demo_monitor 1)" let ?m1 = "snd (delete_token ?m 1)"
  have "token_step\<^sup>*\<^sup>* security_monitor_new demo_monitor" unfolding demo_monitor_def by (blast intro: token_step.create)
  then have r: "token_step\<^sup>*\<^sup>* security_monitor_new ?m" by (rule rtranclp.rtrancl_into_rtrancl) (rule token_step.impersonate)
  have d: "delete_token ?m 1 = (Ok (), ?m1)" by (simp add: delete_token_def impersonate_def demo_monitor_eq)
  have s: "token_step\<^sup>*\<^sup>* ?m1 (snd (create_token ?m1 \<lparr>sid_authority = 5, sid_subauthorities = [18]\<rparr> [] [] System))" by (blast intro: token_step.create)
  show ?thesis using deleted_token_never_returns [OF r d s] by (simp add: current_token_def delete_token_def impersonate_def demo_monitor_eq)
qed

end
