(* ===== verification/Pnp.thy ===== *)
theory Pnp
  imports Object_Manager
begin

text \<open>
  The plug-and-play and power state machine of \<open>src/src/casak/pnp.rs\<close>: a tree of device nodes with
  case-insensitive names, a life cycle and a power state per device. Removed nodes stay in the table.
  The lemmas show that names, child sets and parents describe one forest, that only a started device
  with host backing leaves D3, and that a removed device stays removed.
\<close>

section \<open>Devices and operations\<close>

definition IRP_MN_SET_POWER :: u8 where "IRP_MN_SET_POWER = 0x02"

datatype power_state = D0 | D1 | D2 | D3

definition power_from_raw :: "u32 \<Rightarrow> power_state res" where
  "power_from_raw v = (if v = 1 then Ok D0 else if v = 2 then Ok D1 else if v = 3 then Ok D2 else if v = 4 then Ok D3
     else Err STATUS_POWER_STATE_INVALID)"

fun power_raw :: "power_state \<Rightarrow> u32" where
  "power_raw D0 = 1"
| "power_raw D1 = 2"
| "power_raw D2 = 3"
| "power_raw D3 = 4"

datatype device_state = Created | Started | Stopped | Removed

record device_node =
  dev_id :: nat
  dev_name :: string
  dev_parent :: "nat option"
  dev_state :: device_state
  dev_power :: power_state
  dev_host_present :: bool
  dev_children :: "nat set"

record pnp_manager =
  nodes :: "(nat, device_node) omap"
  dev_names :: "(string, nat) omap"
  dev_next_id :: nat

definition pnp_manager_new :: pnp_manager where
  "pnp_manager_new = \<lparr>nodes = [], dev_names = [], dev_next_id = 1\<rparr>"

text \<open>\<open>if let Some(record) = nodes.get_mut(id)\<close>\<close>

definition update_node :: "nat \<Rightarrow> (device_node \<Rightarrow> device_node) \<Rightarrow> pnp_manager \<Rightarrow> pnp_manager" where
  "update_node i f m = (case map_of (nodes m) i of None \<Rightarrow> m | Some n \<Rightarrow> m\<lparr>nodes := om_insert i (f n) (nodes m)\<rparr>)"

definition parent_check :: "pnp_manager \<Rightarrow> nat option \<Rightarrow> unit res" where
  "parent_check m parent = (case parent of
      None \<Rightarrow> Ok ()
    | Some p \<Rightarrow> rbind (ok_or (map_of (nodes m) p) STATUS_INVALID_HANDLE) (\<lambda>n.
        if dev_state n = Removed then Err STATUS_DELETE_PENDING else Ok ()))"

definition add_device :: "pnp_manager \<Rightarrow> string \<Rightarrow> nat option \<Rightarrow> bool \<Rightarrow> nat res \<times> pnp_manager" where
  "add_device m name parent host =
     (let trimmed = str_trim name
      in if trimmed = [] \<or> str_contains trimmed (CHR 0x00) then (Err STATUS_INVALID_PARAMETER, m)
         else let key = to_lowercase trimmed
              in if map_of (dev_names m) key \<noteq> None then (Err STATUS_OBJECT_NAME_COLLISION, m)
                 else attempt (parent_check m parent) m (\<lambda>_.
                   let i = dev_next_id m;
                       m1 = m\<lparr>dev_next_id := i + 1,
                              nodes := om_insert i \<lparr>dev_id = i, dev_name = trimmed, dev_parent = parent, dev_state = Created,
                                dev_power = D3, dev_host_present = host, dev_children = {}\<rparr> (nodes m),
                              dev_names := om_insert key i (dev_names m)\<rparr>
                   in (Ok i, (case parent of None \<Rightarrow> m1
                        | Some p \<Rightarrow> update_node p (\<lambda>n. n\<lparr>dev_children := insert i (dev_children n)\<rparr>) m1))))"

definition start_device :: "pnp_manager \<Rightarrow> nat \<Rightarrow> power_state res \<times> pnp_manager" where
  "start_device m i = attempt (ok_or (map_of (nodes m) i) STATUS_INVALID_HANDLE) m (\<lambda>n.
     case dev_state n of
       Removed \<Rightarrow> (Err STATUS_DELETE_PENDING, m)
     | Started \<Rightarrow> (Err STATUS_INVALID_DEVICE_STATE, m)
     | _ \<Rightarrow> if \<not> dev_host_present n then (Err STATUS_DEVICE_HARDWARE_ERROR, m)
           else (Ok D0, update_node i (\<lambda>n. n\<lparr>dev_state := Started, dev_power := D0\<rparr>) m))"

definition stop_device :: "pnp_manager \<Rightarrow> nat \<Rightarrow> power_state res \<times> pnp_manager" where
  "stop_device m i = attempt (ok_or (map_of (nodes m) i) STATUS_INVALID_HANDLE) m (\<lambda>n.
     case dev_state n of
       Removed \<Rightarrow> (Err STATUS_DELETE_PENDING, m)
     | Started \<Rightarrow> (Ok D3, update_node i (\<lambda>n. n\<lparr>dev_state := Stopped, dev_power := D3\<rparr>) m)
     | _ \<Rightarrow> (Err STATUS_INVALID_DEVICE_STATE, m))"

definition set_power :: "pnp_manager \<Rightarrow> nat \<Rightarrow> power_state \<Rightarrow> power_state res \<times> pnp_manager" where
  "set_power m i p = attempt (ok_or (map_of (nodes m) i) STATUS_INVALID_HANDLE) m (\<lambda>n.
     case dev_state n of
       Removed \<Rightarrow> (Err STATUS_DELETE_PENDING, m)
     | Started \<Rightarrow>
         if \<not> dev_host_present n then (Err STATUS_DEVICE_HARDWARE_ERROR, m)
         else if dev_power n = p then (Err STATUS_INVALID_DEVICE_STATE, m)
         else (Ok p, update_node i (\<lambda>n. n\<lparr>dev_power := p\<rparr>) m)
     | _ \<Rightarrow> if p = D0 then (Err STATUS_DEVICE_NOT_READY, m) else (Err STATUS_INVALID_DEVICE_STATE, m))"

definition power_irp :: "pnp_manager \<Rightarrow> nat \<Rightarrow> u8 \<Rightarrow> u32 \<Rightarrow> power_state res \<times> pnp_manager" where
  "power_irp m i minor raw =
     (case map_of (nodes m) i of
        None \<Rightarrow> (Err STATUS_INVALID_HANDLE, m)
      | Some n \<Rightarrow>
          if dev_state n = Removed then (Err STATUS_DELETE_PENDING, m)
          else if minor \<noteq> IRP_MN_SET_POWER then (Err STATUS_NOT_SUPPORTED, m)
          else attempt (power_from_raw raw) m (\<lambda>p. set_power m i p))"

definition remove_device :: "pnp_manager \<Rightarrow> nat \<Rightarrow> unit res \<times> pnp_manager" where
  "remove_device m i = attempt (ok_or (map_of (nodes m) i) STATUS_INVALID_HANDLE) m (\<lambda>n.
     if dev_state n = Removed then (Err STATUS_DELETE_PENDING, m)
     else if dev_children n \<noteq> {} then (Err STATUS_INVALID_DEVICE_STATE, m)
     else let m1 = (case dev_parent n of None \<Rightarrow> m
                    | Some p \<Rightarrow> update_node p (\<lambda>r. r\<lparr>dev_children := dev_children r - {i}\<rparr>) m);
              m2 = m1\<lparr>dev_names := om_remove (to_lowercase (dev_name n)) (dev_names m1)\<rparr>
          in (Ok (), update_node i (\<lambda>r. r\<lparr>dev_state := Removed, dev_power := D3\<rparr>) m2))"

definition remove_irp :: "pnp_manager \<Rightarrow> nat \<Rightarrow> unit res \<times> pnp_manager" where
  "remove_irp m i = remove_device m i"

definition query_device :: "pnp_manager \<Rightarrow> nat \<Rightarrow> device_node res" where
  "query_device m i = ok_or (map_of (nodes m) i) STATUS_INVALID_HANDLE"

definition find_device :: "pnp_manager \<Rightarrow> string \<Rightarrow> nat res" where
  "find_device m name = ok_or (map_of (dev_names m) (to_lowercase (str_trim name))) STATUS_OBJECT_NAME_NOT_FOUND"

definition device_children :: "pnp_manager \<Rightarrow> nat \<Rightarrow> nat list res" where
  "device_children m i = rbind (query_device m i) (\<lambda>n. Ok (sorted_list_of_set (dev_children n)))"

definition device_count :: "pnp_manager \<Rightarrow> nat" where
  "device_count m = length (nodes m)"

definition child_count :: "pnp_manager \<Rightarrow> nat \<Rightarrow> nat res" where
  "child_count m i = rbind (query_device m i) (\<lambda>n. Ok (card (dev_children n)))"

section \<open>The invariant\<close>

definition live_node :: "pnp_manager \<Rightarrow> nat \<Rightarrow> device_node \<Rightarrow> bool" where
  "live_node m i n \<longleftrightarrow> map_of (nodes m) i = Some n \<and> dev_state n \<noteq> Removed"

definition node_ok :: "pnp_manager \<Rightarrow> nat \<Rightarrow> device_node \<Rightarrow> bool" where
  "node_ok m i n \<longleftrightarrow> dev_id n = i \<and> (dev_state n = Started \<longrightarrow> dev_host_present n) \<and> (dev_state n \<noteq> Started \<longrightarrow> dev_power n = D3) \<and>
     (\<forall>p. dev_parent n = Some p \<longrightarrow> p < i \<and> (dev_state n \<noteq> Removed \<longrightarrow> (\<exists>q. live_node m p q)))"

definition children_ok :: "pnp_manager \<Rightarrow> bool" where
  "children_ok m \<longleftrightarrow> (\<forall>p n. map_of (nodes m) p = Some n \<longrightarrow>
     dev_children n = {c. \<exists>r. live_node m c r \<and> dev_parent r = Some p})"

definition dev_names_ok :: "pnp_manager \<Rightarrow> bool" where
  "dev_names_ok m \<longleftrightarrow> om_wf (dev_names m) \<and>
     (\<forall>k i. map_of (dev_names m) k = Some i \<longleftrightarrow> (\<exists>n. live_node m i n \<and> to_lowercase (dev_name n) = k))"

definition pnp_inv :: "pnp_manager \<Rightarrow> bool" where
  "pnp_inv m \<longleftrightarrow> fresh_ids (nodes m) (dev_next_id m) \<and> (\<forall>i n. map_of (nodes m) i = Some n \<longrightarrow> node_ok m i n) \<and>
     children_ok m \<and> dev_names_ok m"

lemma pnp_inv_new: "pnp_inv pnp_manager_new"
  by (simp add: pnp_inv_def pnp_manager_new_def children_ok_def dev_names_ok_def live_node_def)

lemma pnp_inv_dest:
  assumes "pnp_inv m"
  shows "fresh_ids (nodes m) (dev_next_id m)" "map_of (nodes m) i = Some n \<Longrightarrow> node_ok m i n" "children_ok m" "dev_names_ok m"
  using assms unfolding pnp_inv_def by simp_all

lemma nodes_update_node [simp]:
  "map_of (nodes (update_node i f m)) j = (if j = i then map_option f (map_of (nodes m) i) else map_of (nodes m) j)"
  by (cases "map_of (nodes m) i") (simp_all add: update_node_def)

lemma update_node_fields [simp]:
  "dev_names (update_node i f m) = dev_names m" "dev_next_id (update_node i f m) = dev_next_id m"
  by (simp_all add: update_node_def split: option.split)

lemma fresh_ids_update_node: "fresh_ids (nodes m) k \<Longrightarrow> fresh_ids (nodes (update_node i f m)) k"
  by (cases "map_of (nodes m) i") (auto simp: update_node_def)

text \<open>A change of life cycle or power of one live device that leaves its links alone.\<close>

lemma update_node_inv:
  assumes inv: "pnp_inv m" and n: "live_node m i n"
    and f: "dev_id (f n) = dev_id n" "dev_name (f n) = dev_name n" "dev_parent (f n) = dev_parent n" "dev_children (f n) = dev_children n"
      "dev_host_present (f n) = dev_host_present n" "dev_state (f n) \<noteq> Removed"
    and ok: "dev_state (f n) = Started \<Longrightarrow> dev_host_present n" "dev_state (f n) \<noteq> Started \<Longrightarrow> dev_power (f n) = D3"
  shows "pnp_inv (update_node i f m)"
proof -
  let ?m = "update_node i f m"
  note d = pnp_inv_dest [OF inv]
  have look: "map_of (nodes ?m) j = (if j = i then Some (f n) else map_of (nodes m) j)" for j
    using n by (simp add: live_node_def)
  have live: "live_node ?m j r \<longleftrightarrow> (if j = i then r = f n else live_node m j r)" for j r
    using f(6) unfolding live_node_def look by auto
  have ex: "(\<exists>q. live_node ?m p q) \<longleftrightarrow> (\<exists>q. live_node m p q)" for p using n unfolding live by auto
  have node: "node_ok ?m j r" if "map_of (nodes ?m) j = Some r" for j r
  proof (cases "j = i")
    case True
    then show ?thesis using that d(2) [of i n] n f ok unfolding node_ok_def ex look by (simp add: live_node_def)
  next
    case False
    then show ?thesis using that d(2) [of j r] unfolding node_ok_def ex look by simp
  qed
  have par: "(\<exists>r. live_node ?m c r \<and> dev_parent r = Some p) \<longleftrightarrow> (\<exists>r. live_node m c r \<and> dev_parent r = Some p)" for c p
    using n f(3) unfolding live by (cases "c = i") (auto simp: live_node_def)
  have nam: "(\<exists>r. live_node ?m c r \<and> to_lowercase (dev_name r) = k) \<longleftrightarrow> (\<exists>r. live_node m c r \<and> to_lowercase (dev_name r) = k)" for c k
    using n f(2) unfolding live by (cases "c = i") (auto simp: live_node_def)
  have "children_ok ?m" using d(3) n f(4) unfolding children_ok_def par look by (simp add: live_node_def)
  moreover have "dev_names_ok ?m" using d(4) unfolding dev_names_ok_def nam by simp
  ultimately show ?thesis using node d(1) by (simp add: pnp_inv_def fresh_ids_update_node)
qed

lemma start_device_inv:
  assumes inv: "pnp_inv m"
  shows "pnp_inv (snd (start_device m i))"
proof (cases "\<exists>n. live_node m i n \<and> dev_state n \<noteq> Started \<and> dev_host_present n")
  case True
  then obtain n where n: "live_node m i n" "dev_state n \<noteq> Started" "dev_host_present n" by blast
  have "pnp_inv (update_node i (\<lambda>n. n\<lparr>dev_state := Started, dev_power := D0\<rparr>) m)"
    using n by (intro update_node_inv [OF inv n(1)]) simp_all
  then show ?thesis using n by (cases "dev_state n") (simp_all add: start_device_def live_node_def)
next
  case False
  then have "snd (start_device m i) = m"
    by (cases "map_of (nodes m) i") (auto simp: start_device_def live_node_def split: device_state.split)
  then show ?thesis using inv by simp
qed

lemma stop_device_inv:
  assumes inv: "pnp_inv m"
  shows "pnp_inv (snd (stop_device m i))"
proof (cases "\<exists>n. map_of (nodes m) i = Some n \<and> dev_state n = Started")
  case True
  then obtain n where n: "map_of (nodes m) i = Some n" "dev_state n = Started" by blast
  then have "live_node m i n" by (simp add: live_node_def)
  then have "pnp_inv (update_node i (\<lambda>n. n\<lparr>dev_state := Stopped, dev_power := D3\<rparr>) m)"
    using n by (intro update_node_inv [OF inv]) simp_all
  then show ?thesis using n by (simp add: stop_device_def)
next
  case False
  then have "snd (stop_device m i) = m"
    by (cases "map_of (nodes m) i") (auto simp: stop_device_def split: device_state.split)
  then show ?thesis using inv by simp
qed

lemma set_power_inv:
  assumes inv: "pnp_inv m"
  shows "pnp_inv (snd (set_power m i p))"
proof (cases "\<exists>n. map_of (nodes m) i = Some n \<and> dev_state n = Started \<and> dev_host_present n")
  case True
  then obtain n where n: "map_of (nodes m) i = Some n" "dev_state n = Started" "dev_host_present n" by blast
  then have "live_node m i n" by (simp add: live_node_def)
  then have "pnp_inv (update_node i (\<lambda>n. n\<lparr>dev_power := p\<rparr>) m)"
    using n by (intro update_node_inv [OF inv]) auto
  then show ?thesis using n inv by (simp add: set_power_def)
next
  case False
  then have "snd (set_power m i p) = m"
    by (cases "map_of (nodes m) i") (auto simp: set_power_def split: device_state.split)
  then show ?thesis using inv by simp
qed

lemma power_irp_inv:
  assumes "pnp_inv m"
  shows "pnp_inv (snd (power_irp m i minor raw))"
  using assms set_power_inv [OF assms, of i]
  by (cases "power_from_raw raw") (simp_all add: power_irp_def split: option.split)

text \<open>A successful removal or addition, described by what it does to the table of nodes.\<close>

lemma remove_device_ok:
  assumes inv: "pnp_inv m" and n: "live_node m i n" and leaf: "dev_children n = {}"
  shows "fst (remove_device m i) = Ok ()"
    and "map_of (nodes (snd (remove_device m i))) j =
      (if j = i then Some (n\<lparr>dev_state := Removed, dev_power := D3\<rparr>)
       else if Some j = dev_parent n then map_option (\<lambda>r. r\<lparr>dev_children := dev_children r - {i}\<rparr>) (map_of (nodes m) j)
       else map_of (nodes m) j)"
    and "dev_names (snd (remove_device m i)) = om_remove (to_lowercase (dev_name n)) (dev_names m)"
    and "dev_next_id (snd (remove_device m i)) = dev_next_id m"
    and "fresh_ids (nodes m) k \<Longrightarrow> fresh_ids (nodes (snd (remove_device m i))) k"
proof -
  have look: "map_of (nodes m) i = Some n" "dev_state n \<noteq> Removed" using n by (simp_all add: live_node_def)
  have par: "dev_parent n \<noteq> Some i" using pnp_inv_dest(2) [OF inv look(1)] by (auto simp: node_ok_def)
  define m1 where "m1 = (case dev_parent n of None \<Rightarrow> m | Some p \<Rightarrow> update_node p (\<lambda>r. r\<lparr>dev_children := dev_children r - {i}\<rparr>) m)"
  have m1: "map_of (nodes m1) j = (if Some j = dev_parent n then map_option (\<lambda>r. r\<lparr>dev_children := dev_children r - {i}\<rparr>) (map_of (nodes m) j)
       else map_of (nodes m) j)" "dev_names m1 = dev_names m" "dev_next_id m1 = dev_next_id m"
      "fresh_ids (nodes m) k \<Longrightarrow> fresh_ids (nodes m1) k" for j k
    by (auto simp: m1_def intro: fresh_ids_update_node split: option.split)
  have eq: "remove_device m i = (Ok (), update_node i (\<lambda>r. r\<lparr>dev_state := Removed, dev_power := D3\<rparr>)
      (m1\<lparr>dev_names := om_remove (to_lowercase (dev_name n)) (dev_names m1)\<rparr>))"
    using look leaf by (simp add: remove_device_def m1_def Let_def)
  show "fst (remove_device m i) = Ok ()" by (simp add: eq)
  show "map_of (nodes (snd (remove_device m i))) j =
      (if j = i then Some (n\<lparr>dev_state := Removed, dev_power := D3\<rparr>)
       else if Some j = dev_parent n then map_option (\<lambda>r. r\<lparr>dev_children := dev_children r - {i}\<rparr>) (map_of (nodes m) j)
       else map_of (nodes m) j)" using par look by (auto simp: eq m1)
  show "dev_names (snd (remove_device m i)) = om_remove (to_lowercase (dev_name n)) (dev_names m)"
    "dev_next_id (snd (remove_device m i)) = dev_next_id m" by (simp_all add: eq m1)
  show "fresh_ids (nodes m) k \<Longrightarrow> fresh_ids (nodes (snd (remove_device m i))) k"
    unfolding eq by (simp add: fresh_ids_update_node m1)
qed

lemma remove_device_fail:
  assumes "\<not> (\<exists>n. live_node m i n \<and> dev_children n = {})"
  shows "snd (remove_device m i) = m"
  using assms by (cases "map_of (nodes m) i") (auto simp: remove_device_def live_node_def)

lemma remove_device_inv:
  assumes inv: "pnp_inv m"
  shows "pnp_inv (snd (remove_device m i))"
proof (cases "\<exists>n. live_node m i n \<and> dev_children n = {}")
  case False
  then show ?thesis using inv by (simp add: remove_device_fail)
next
  case True
  then obtain n where n: "live_node m i n" and leaf: "dev_children n = {}" by blast
  let ?m = "snd (remove_device m i)"
  note d = pnp_inv_dest [OF inv] and r = remove_device_ok [OF inv n leaf]
  define g :: "nat \<Rightarrow> device_node \<Rightarrow> device_node" where "g j r = (if Some j = dev_parent n then r\<lparr>dev_children := dev_children r - {i}\<rparr> else r)" for j r
  have g: "dev_state (g j r) = dev_state r" "dev_name (g j r) = dev_name r" "dev_parent (g j r) = dev_parent r" "dev_id (g j r) = dev_id r"
    "dev_power (g j r) = dev_power r" "dev_host_present (g j r) = dev_host_present r" for j r by (simp_all add: g_def)
  have live: "live_node ?m j r \<longleftrightarrow> j \<noteq> i \<and> (\<exists>q. live_node m j q \<and> r = g j q)" for j r
    unfolding live_node_def r(2) by (auto simp: g_def)
  have nochild: "\<not> (\<exists>q. live_node m c q \<and> dev_parent q = Some i)" for c
    using d(3) n leaf unfolding children_ok_def live_node_def by blast
  have node: "node_ok ?m j q" if q: "map_of (nodes ?m) j = Some q" for j q
  proof (cases "j = i")
    case True
    then show ?thesis using q d(2) [of i n] n unfolding r(2) node_ok_def by (auto simp: live_node_def)
  next
    case False
    then obtain q0 where q0: "map_of (nodes m) j = Some q0" "q = g j q0" using q unfolding r(2) by (auto simp: g_def split: if_splits)
    have ex: "\<exists>u. live_node ?m p u" if pq: "dev_parent q0 = Some p" "dev_state q0 \<noteq> Removed" for p
    proof -
      have "live_node m j q0" using q0(1) pq(2) by (simp add: live_node_def)
      then have "p \<noteq> i" using nochild pq(1) by blast
      moreover obtain u where "live_node m p u" using d(2) [OF q0(1)] pq by (auto simp: node_ok_def)
      ultimately show ?thesis unfolding live by blast
    qed
    show ?thesis using d(2) [OF q0(1)] ex unfolding node_ok_def q0(2) g by blast
  qed
  have "children_ok ?m"
    unfolding children_ok_def
  proof (intro allI impI)
    fix p q assume q: "map_of (nodes ?m) p = Some q"
    have set: "{c. \<exists>r. live_node ?m c r \<and> dev_parent r = Some p} = {c. \<exists>r. live_node m c r \<and> dev_parent r = Some p} - {i}"
      unfolding live using g(3) by auto
    show "dev_children q = {c. \<exists>r. live_node ?m c r \<and> dev_parent r = Some p}"
    proof (cases "p = i")
      case True
      then show ?thesis using q leaf nochild unfolding set unfolding r(2) by auto
    next
      case False
      then obtain q0 where q0: "map_of (nodes m) p = Some q0" "q = g p q0" using q unfolding r(2) by (auto simp: g_def split: if_splits)
      have c0: "dev_children q0 = {c. \<exists>r. live_node m c r \<and> dev_parent r = Some p}" using d(3) q0(1) unfolding children_ok_def by blast
      have "i \<notin> dev_children q0" if "Some p \<noteq> dev_parent n" using that n unfolding c0 by (auto simp: live_node_def)
      then show ?thesis unfolding set q0(2) using c0 by (auto simp: g_def)
    qed
  qed
  moreover have "dev_names_ok ?m"
  proof -
    have old: "map_of (dev_names m) k = Some j \<longleftrightarrow> (\<exists>n. live_node m j n \<and> to_lowercase (dev_name n) = k)" for k j
      using d(4) unfolding dev_names_ok_def by blast
    have own: "map_of (dev_names m) (to_lowercase (dev_name n)) = Some i" using n unfolding old by blast
    have "map_of (dev_names ?m) k = Some j \<longleftrightarrow> (\<exists>q. live_node ?m j q \<and> to_lowercase (dev_name q) = k)" for k j
    proof (cases "j = i")
      case True
      then show ?thesis using old [of k i] n unfolding live r(3) by (auto simp: live_node_def)
    next
      case False
      then show ?thesis using old [of k j] own unfolding live r(3) by (auto simp: g)
    qed
    then show ?thesis using d(4) unfolding dev_names_ok_def r(3) by simp
  qed
  ultimately show ?thesis using node r(5) [OF d(1)] by (simp add: pnp_inv_def r(4))
qed

text \<open>The conditions under which a device is added, and the resulting table.\<close>

definition addable :: "pnp_manager \<Rightarrow> string \<Rightarrow> nat option \<Rightarrow> bool" where
  "addable m name parent \<longleftrightarrow> str_trim name \<noteq> [] \<and> \<not> str_contains (str_trim name) (CHR 0x00) \<and>
     map_of (dev_names m) (to_lowercase (str_trim name)) = None \<and> (\<forall>p. parent = Some p \<longrightarrow> (\<exists>n. live_node m p n))"

definition new_device :: "pnp_manager \<Rightarrow> string \<Rightarrow> nat option \<Rightarrow> bool \<Rightarrow> device_node" where
  "new_device m name parent host = \<lparr>dev_id = dev_next_id m, dev_name = str_trim name, dev_parent = parent, dev_state = Created,
     dev_power = D3, dev_host_present = host, dev_children = {}\<rparr>"

lemma parent_check_Ok: "parent_check m parent = Ok () \<longleftrightarrow> (\<forall>p. parent = Some p \<longrightarrow> (\<exists>n. live_node m p n))"
proof (cases parent)
  case (Some p)
  then show ?thesis by (cases "map_of (nodes m) p") (auto simp: parent_check_def live_node_def)
qed (simp add: parent_check_def)

lemma parent_check_no_panic: "parent_check m parent \<noteq> Panic"
  by (auto simp: parent_check_def rbind_def ok_or_def split: option.splits)

lemma add_device_fail:
  assumes "\<not> addable m name parent"
  shows "\<exists>e. add_device m name parent host = (Err e, m)"
proof (cases "str_trim name = [] \<or> str_contains (str_trim name) (CHR 0x00) \<or> map_of (dev_names m) (to_lowercase (str_trim name)) \<noteq> None")
  case True
  then show ?thesis by (auto simp: add_device_def Let_def)
next
  case False
  then have "parent_check m parent \<noteq> Ok ()" using assms unfolding addable_def parent_check_Ok by auto
  then obtain e where "parent_check m parent = Err e" using parent_check_no_panic [of m parent] by (cases "parent_check m parent") auto
  then show ?thesis using False by (auto simp: add_device_def Let_def)
qed

lemma add_device_ok:
  assumes inv: "pnp_inv m" and ok: "addable m name parent"
  shows "fst (add_device m name parent host) = Ok (dev_next_id m)"
    and "map_of (nodes (snd (add_device m name parent host))) j =
      (if j = dev_next_id m then Some (new_device m name parent host)
       else if parent = Some j then map_option (\<lambda>n. n\<lparr>dev_children := insert (dev_next_id m) (dev_children n)\<rparr>) (map_of (nodes m) j)
       else map_of (nodes m) j)"
    and "dev_names (snd (add_device m name parent host)) = om_insert (to_lowercase (str_trim name)) (dev_next_id m) (dev_names m)"
    and "dev_next_id (snd (add_device m name parent host)) = dev_next_id m + 1"
    and "fresh_ids (nodes (snd (add_device m name parent host))) (dev_next_id m + 1)"
proof -
  let ?i = "dev_next_id m"
  have pc: "parent_check m parent = Ok ()" using ok unfolding parent_check_Ok addable_def by blast
  have fresh: "map_of (nodes m) ?i = None" using pnp_inv_dest(1) [OF inv] by (rule fresh_ids_absent) simp
  have par: "parent \<noteq> Some ?i" using ok fresh by (auto simp: addable_def live_node_def)
  define m1 where "m1 = m\<lparr>dev_next_id := ?i + 1, nodes := om_insert ?i (new_device m name parent host) (nodes m),
      dev_names := om_insert (to_lowercase (str_trim name)) ?i (dev_names m)\<rparr>"
  have eq: "add_device m name parent host = (Ok ?i, (case parent of None \<Rightarrow> m1
      | Some p \<Rightarrow> update_node p (\<lambda>n. n\<lparr>dev_children := insert ?i (dev_children n)\<rparr>) m1))"
    using ok pc by (simp add: add_device_def addable_def Let_def m1_def new_device_def cong: option.case_cong)
  have f1: "fresh_ids (nodes m1) (?i + 1)" using pnp_inv_dest(1) [OF inv] by (auto simp: m1_def)
  show "fst (add_device m name parent host) = Ok ?i" by (simp add: eq)
  show "map_of (nodes (snd (add_device m name parent host))) j =
      (if j = ?i then Some (new_device m name parent host)
       else if parent = Some j then map_option (\<lambda>n. n\<lparr>dev_children := insert ?i (dev_children n)\<rparr>) (map_of (nodes m) j)
       else map_of (nodes m) j)" using par unfolding eq by (cases parent) (auto simp: m1_def)
  show "dev_names (snd (add_device m name parent host)) = om_insert (to_lowercase (str_trim name)) ?i (dev_names m)"
    "dev_next_id (snd (add_device m name parent host)) = ?i + 1" unfolding eq by (cases parent; simp add: m1_def)+
  show "fresh_ids (nodes (snd (add_device m name parent host))) (?i + 1)"
    using f1 unfolding eq by (cases parent) (simp_all add: fresh_ids_update_node)
qed

lemma add_device_inv:
  assumes inv: "pnp_inv m"
  shows "pnp_inv (snd (add_device m name parent host))"
proof (cases "addable m name parent")
  case False
  then show ?thesis using inv add_device_fail [OF False, of host] by auto
next
  case True
  let ?m = "snd (add_device m name parent host)" let ?i = "dev_next_id m" let ?n = "new_device m name parent host"
  note d = pnp_inv_dest [OF inv] and r = add_device_ok [OF inv True, of host]
  define g :: "nat \<Rightarrow> device_node \<Rightarrow> device_node" where "g j r = (if parent = Some j then r\<lparr>dev_children := insert ?i (dev_children r)\<rparr> else r)" for j r
  have g: "dev_state (g j r) = dev_state r" "dev_name (g j r) = dev_name r" "dev_parent (g j r) = dev_parent r" "dev_id (g j r) = dev_id r"
    "dev_power (g j r) = dev_power r" "dev_host_present (g j r) = dev_host_present r" for j r by (simp_all add: g_def)
  have fresh: "map_of (nodes m) ?i = None" by (rule fresh_ids_absent [OF d(1)]) simp
  have look: "map_of (nodes ?m) j = (if j = ?i then Some ?n else map_option (g j) (map_of (nodes m) j))" for j
    unfolding r(2) by (cases "map_of (nodes m) j") (simp_all add: g_def)
  have new: "dev_state ?n = Created" "dev_parent ?n = parent" "dev_name ?n = str_trim name" "dev_children ?n = {}"
    by (simp_all add: new_device_def)
  have live: "live_node ?m j q \<longleftrightarrow> (if j = ?i then q = ?n else \<exists>q0. live_node m j q0 \<and> q = g j q0)" for j q
    unfolding live_node_def look by (auto simp: g new)
  have keep: "\<exists>q. live_node ?m p q" if "\<exists>q. live_node m p q" for p
    using that fresh unfolding live by (auto simp: live_node_def)
  have node: "node_ok ?m j q" if q: "map_of (nodes ?m) j = Some q" for j q
  proof (cases "j = ?i")
    case True
    have "p < ?i \<and> (\<exists>q. live_node ?m p q)" if p: "parent = Some p" for p
    proof -
      have "\<exists>q. live_node m p q" using \<open>addable m name parent\<close> p by (simp add: addable_def)
      then show ?thesis using keep fresh_ids_bound [OF d(1)] by (auto simp: live_node_def)
    qed
    then show ?thesis using q True unfolding look by (auto simp: node_ok_def new_device_def)
  next
    case False
    then obtain q0 where q0: "map_of (nodes m) j = Some q0" "q = g j q0" using q unfolding look by auto
    then show ?thesis using d(2) [OF q0(1)] keep unfolding node_ok_def q0(2) g by blast
  qed
  have "children_ok ?m"
    unfolding children_ok_def
  proof (intro allI impI)
    fix p q assume q: "map_of (nodes ?m) p = Some q"
    have set: "{c. \<exists>r. live_node ?m c r \<and> dev_parent r = Some p} =
        {c. \<exists>r. live_node m c r \<and> dev_parent r = Some p} \<union> (if parent = Some p then {?i} else {})"
    proof -
      have "(\<exists>r. live_node ?m c r \<and> dev_parent r = Some p) \<longleftrightarrow>
          (if c = ?i then parent = Some p else \<exists>r. live_node m c r \<and> dev_parent r = Some p)" for c
        unfolding live by (cases "c = ?i") (auto simp: g(3) new(2))
      moreover have "\<not> live_node m ?i r" for r using fresh by (simp add: live_node_def)
      ultimately show ?thesis by (auto split: if_splits)
    qed
    show "dev_children q = {c. \<exists>r. live_node ?m c r \<and> dev_parent r = Some p}"
    proof (cases "p = ?i")
      case True
      have "\<not> (\<exists>r. live_node m c r \<and> dev_parent r = Some ?i)" for c
        using d(2) fresh unfolding node_ok_def live_node_def by (metis option.discI)
      moreover have "parent \<noteq> Some ?i" using \<open>addable m name parent\<close> fresh by (auto simp: addable_def live_node_def)
      ultimately show ?thesis using q True new(4) unfolding set unfolding look by auto
    next
      case False
      then obtain q0 where q0: "map_of (nodes m) p = Some q0" "q = g p q0" using q unfolding look by auto
      then show ?thesis using d(3) unfolding set children_ok_def by (auto simp: g_def)
    qed
  qed
  moreover have "dev_names_ok ?m"
  proof -
    have old: "map_of (dev_names m) k = Some j \<longleftrightarrow> (\<exists>n. live_node m j n \<and> to_lowercase (dev_name n) = k)" for k j
      using d(4) unfolding dev_names_ok_def by blast
    have free: "map_of (dev_names m) (to_lowercase (str_trim name)) = None" using True by (simp add: addable_def)
    have "map_of (dev_names ?m) k = Some j \<longleftrightarrow> (\<exists>q. live_node ?m j q \<and> to_lowercase (dev_name q) = k)" for k j
    proof (cases "j = ?i")
      case True
      then show ?thesis using old [of k ?i] fresh unfolding live r(3) by (auto simp: new live_node_def)
    next
      case False
      then show ?thesis using old [of k j] free unfolding live r(3) by (auto simp: g)
    qed
    then show ?thesis using d(4) unfolding dev_names_ok_def r(3) by simp
  qed
  ultimately show ?thesis using node r(5) by (simp add: pnp_inv_def r(4))
qed

inductive pnp_step :: "pnp_manager \<Rightarrow> pnp_manager \<Rightarrow> bool" where
  add: "pnp_step m (snd (add_device m name parent host))"
| start: "pnp_step m (snd (start_device m i))"
| stop: "pnp_step m (snd (stop_device m i))"
| power: "pnp_step m (snd (set_power m i p))"
| power_irp: "pnp_step m (snd (power_irp m i minor raw))"
| remove: "pnp_step m (snd (remove_device m i))"

interpretation pnp: invariant_system "\<lambda>m. m = pnp_manager_new" pnp_step pnp_inv
  by unfold_locales
    (auto simp: pnp_inv_new add_device_inv start_device_inv stop_device_inv set_power_inv power_irp_inv remove_device_inv elim!: pnp_step.cases)

section \<open>Removal is final\<close>

definition removed_at :: "pnp_manager \<Rightarrow> nat \<Rightarrow> bool" where
  "removed_at m i \<longleftrightarrow> (\<exists>n. map_of (nodes m) i = Some n \<and> dev_state n = Removed)"

lemma removed_update_node:
  "removed_at m i \<Longrightarrow> (\<And>n. dev_state n = Removed \<Longrightarrow> dev_state (f n) = Removed) \<Longrightarrow> removed_at (update_node j f m) i"
  by (auto simp: removed_at_def)

lemma removed_state_change:
  assumes "removed_at m i" "\<not> removed_at m j"
  shows "removed_at (update_node j f m) i"
proof -
  have "i \<noteq> j" using assms by blast
  then show ?thesis using assms(1) by (simp add: removed_at_def)
qed

lemma removed_at_step:
  assumes inv: "pnp_inv m" and step: "pnp_step m m'" and i: "removed_at m i"
  shows "removed_at m' i"
  using step
proof cases
  case (add name parent host)
  show ?thesis
  proof (cases "addable m name parent")
    case True
    have "map_of (nodes m) (dev_next_id m) = None" by (rule fresh_ids_absent [OF pnp_inv_dest(1) [OF inv]]) simp
    then show ?thesis using i unfolding removed_at_def add add_device_ok(2) [OF inv True] by auto
  next
    case False
    then show ?thesis using add_device_fail [OF False, of host] add i by auto
  qed
next
  case (start j)
  show ?thesis
  proof (cases "removed_at m j")
    case True
    then show ?thesis using i by (auto simp: start start_device_def removed_at_def)
  next
    case False
    then show ?thesis using i removed_state_change [OF i False] unfolding start start_device_def
      by (cases "map_of (nodes m) j") (simp_all split: device_state.split)
  qed
next
  case (stop j)
  show ?thesis
  proof (cases "removed_at m j")
    case True
    then show ?thesis using i by (auto simp: stop stop_device_def removed_at_def)
  next
    case False
    then show ?thesis using i removed_state_change [OF i False] unfolding stop stop_device_def
      by (cases "map_of (nodes m) j") (simp_all split: device_state.split)
  qed
next
  case (power j p)
  then show ?thesis using i removed_update_node [OF i] unfolding set_power_def
    by (cases "map_of (nodes m) j") (simp_all split: device_state.split)
next
  case (power_irp j minor raw)
  then show ?thesis using i removed_update_node [OF i] unfolding power_irp_def set_power_def
    by (cases "map_of (nodes m) j"; cases "power_from_raw raw") (simp_all split: device_state.split)
next
  case (remove j)
  show ?thesis
  proof (cases "\<exists>n. live_node m j n \<and> dev_children n = {}")
    case True
    then obtain n where n: "live_node m j n" "dev_children n = {}" by blast
    then show ?thesis using i unfolding removed_at_def remove remove_device_ok(2) [OF inv n] by auto
  next
    case False
    then show ?thesis using i by (simp add: remove remove_device_fail)
  qed
qed

lemma removed_at_steps: "pnp_step\<^sup>*\<^sup>* m m' \<Longrightarrow> pnp_inv m \<Longrightarrow> removed_at m i \<Longrightarrow> removed_at m' i \<and> pnp_inv m'"
  by (induction rule: rtranclp_induct) (auto intro: removed_at_step pnp.step_inv)

section \<open>Properties\<close>

definition demo_pnp1 :: pnp_manager where "demo_pnp1 = snd (add_device pnp_manager_new ''Disk'' None True)"
definition demo_pnp2 :: pnp_manager where "demo_pnp2 = snd (add_device demo_pnp1 ''Part'' (Some 1) True)"

lemma demo_lower: "to_lowercase ''Disk'' = ''disk''" "to_lowercase ''Part'' = ''part''"
  by code_simp+

lemma demo_less: "\<not> ''part'' < ''disk''"
  by code_simp

lemmas pnp_eval = demo_lower demo_less str_trim_def is_whitespace_def str_contains_def Let_def

lemma demo_pnp1_eq:
  "demo_pnp1 = \<lparr>nodes = [(1, \<lparr>dev_id = 1, dev_name = ''Disk'', dev_parent = None, dev_state = Created, dev_power = D3,
     dev_host_present = True, dev_children = {}\<rparr>)], dev_names = [(''disk'', 1)], dev_next_id = 2\<rparr>"
  by (simp add: demo_pnp1_def add_device_def pnp_manager_new_def parent_check_def pnp_eval)

lemma demo_pnp2_eq:
  "demo_pnp2 = \<lparr>nodes = [(1, \<lparr>dev_id = 1, dev_name = ''Disk'', dev_parent = None, dev_state = Created, dev_power = D3,
     dev_host_present = True, dev_children = {2}\<rparr>),
     (2, \<lparr>dev_id = 2, dev_name = ''Part'', dev_parent = Some 1, dev_state = Created, dev_power = D3,
     dev_host_present = True, dev_children = {}\<rparr>)], dev_names = [(''disk'', 1), (''part'', 2)], dev_next_id = 3\<rparr>"
  by (simp add: demo_pnp2_def demo_pnp1_eq add_device_def parent_check_def update_node_def pnp_eval)

lemma demo_pnp_reachable: "pnp_step\<^sup>*\<^sup>* pnp_manager_new demo_pnp2"
proof -
  have "pnp_step\<^sup>*\<^sup>* pnp_manager_new demo_pnp1" unfolding demo_pnp1_def by (blast intro: pnp_step.add)
  then show ?thesis unfolding demo_pnp2_def by (rule rtranclp.rtrancl_into_rtrancl) (rule pnp_step.add)
qed

text \<open>
  C16. The device tree of every reachable manager is consistent: a name is found exactly when a device that is not
  removed carries it, regardless of case, and then the device found is that one; the child set of a device holds exactly the
  devices that are not removed and name it as parent; the parent of such a device is older and not removed
  either, so the devices form a forest; and only a started device with host backing is in a power state other
  than D3.
\<close>
theorem pnp_tree_consistent:
  assumes "pnp_step\<^sup>*\<^sup>* pnp_manager_new m"
  shows "(find_device m name = Ok i \<longleftrightarrow>
        (\<exists>n. query_device m i = Ok n \<and> dev_state n \<noteq> Removed \<and> to_lowercase (dev_name n) = to_lowercase (str_trim name))) \<and>
     (\<forall>j n. query_device m j = Ok n \<longrightarrow>
        dev_children n = {c. \<exists>r. query_device m c = Ok r \<and> dev_state r \<noteq> Removed \<and> dev_parent r = Some j} \<and>
        (dev_power n \<noteq> D3 \<longrightarrow> dev_state n = Started \<and> dev_host_present n) \<and>
        (\<forall>p. dev_parent n = Some p \<and> dev_state n \<noteq> Removed \<longrightarrow> p < j \<and> (\<exists>r. query_device m p = Ok r \<and> dev_state r \<noteq> Removed)))"
proof -
  have inv: "pnp_inv m" by (rule pnp.reachable_inv [OF refl assms])
  note d = pnp_inv_dest [OF inv]
  have q: "query_device m j = Ok n \<longleftrightarrow> map_of (nodes m) j = Some n" for j n
    by (cases "map_of (nodes m) j") (simp_all add: query_device_def)
  have f: "find_device m name = Ok i \<longleftrightarrow> map_of (dev_names m) (to_lowercase (str_trim name)) = Some i"
    by (cases "map_of (dev_names m) (to_lowercase (str_trim name))") (simp_all add: find_device_def)
  have node: "(dev_power n \<noteq> D3 \<longrightarrow> dev_state n = Started \<and> dev_host_present n) \<and>
      (\<forall>p. dev_parent n = Some p \<and> dev_state n \<noteq> Removed \<longrightarrow> p < j \<and> (\<exists>r. map_of (nodes m) p = Some r \<and> dev_state r \<noteq> Removed))"
    if "map_of (nodes m) j = Some n" for j n
    using d(2) [OF that] unfolding node_ok_def live_node_def by blast
  have "map_of (dev_names m) k = Some i \<longleftrightarrow> (\<exists>n. live_node m i n \<and> to_lowercase (dev_name n) = k)" for k
    using d(4) unfolding dev_names_ok_def by blast
  then show ?thesis using d(3) node unfolding q f children_ok_def live_node_def by simp
qed

theorem pnp_tree_consistent_witness:
  "find_device demo_pnp2 '' PART '' = Ok 2 \<and> (\<exists>n. query_device demo_pnp2 2 = Ok n \<and> dev_parent n = Some 1)"
proof -
  have "to_lowercase (str_trim '' PART '') = ''part''" by code_simp
  then have f: "find_device demo_pnp2 '' PART '' = Ok 2" by (simp add: find_device_def demo_pnp2_eq)
  then obtain n where n: "query_device demo_pnp2 2 = Ok n" using pnp_tree_consistent [OF demo_pnp_reachable, of "'' PART ''" 2] by blast
  moreover have "dev_parent n = Some 1" using n by (auto simp: query_device_def demo_pnp2_eq)
  ultimately show ?thesis using f by blast
qed

text \<open>
  C17. Removal is bottom-up and final. In a reachable manager a device that is not removed can be removed if and only if no
  device that is not removed has it as parent; the removal frees its name; and from then on, whatever is
  done, every operation on the device fails with a pending deletion and changes nothing, and no device can be added below it.
\<close>
theorem pnp_removal_final:
  assumes r: "pnp_step\<^sup>*\<^sup>* pnp_manager_new m" and q: "query_device m i = Ok n" "dev_state n \<noteq> Removed"
  shows "(fst (remove_device m i) = Ok () \<longleftrightarrow>
        \<not> (\<exists>c k. query_device m c = Ok k \<and> dev_state k \<noteq> Removed \<and> dev_parent k = Some i)) \<and>
     (fst (remove_device m i) = Ok () \<and> pnp_step\<^sup>*\<^sup>* (snd (remove_device m i)) m' \<longrightarrow>
        find_device (snd (remove_device m i)) (dev_name n) \<noteq> Ok i \<and>
        start_device m' i = (Err STATUS_DELETE_PENDING, m') \<and> stop_device m' i = (Err STATUS_DELETE_PENDING, m') \<and>
        set_power m' i p = (Err STATUS_DELETE_PENDING, m') \<and> power_irp m' i minor raw = (Err STATUS_DELETE_PENDING, m') \<and>
        remove_device m' i = (Err STATUS_DELETE_PENDING, m') \<and> (\<exists>e. add_device m' name (Some i) host = (Err e, m')))"
proof -
  have inv: "pnp_inv m" by (rule pnp.reachable_inv [OF refl r])
  note d = pnp_inv_dest [OF inv]
  have look: "query_device m j = Ok k \<longleftrightarrow> map_of (nodes m) j = Some k" for j k
    by (cases "map_of (nodes m) j") (simp_all add: query_device_def)
  have live: "live_node m i n" using q by (simp add: live_node_def look)
  have leaf: "dev_children n = {} \<longleftrightarrow> \<not> (\<exists>c k. query_device m c = Ok k \<and> dev_state k \<noteq> Removed \<and> dev_parent k = Some i)"
    using d(3) q(1) unfolding children_ok_def look live_node_def by auto
  have ok: "fst (remove_device m i) = Ok () \<longleftrightarrow> dev_children n = {}"
    using live by (simp add: remove_device_def live_node_def Let_def)
  moreover have "find_device (snd (remove_device m i)) (dev_name n) \<noteq> Ok i \<and>
      start_device m' i = (Err STATUS_DELETE_PENDING, m') \<and> stop_device m' i = (Err STATUS_DELETE_PENDING, m') \<and>
      set_power m' i p = (Err STATUS_DELETE_PENDING, m') \<and> power_irp m' i minor raw = (Err STATUS_DELETE_PENDING, m') \<and>
      remove_device m' i = (Err STATUS_DELETE_PENDING, m') \<and> (\<exists>e. add_device m' name (Some i) host = (Err e, m'))"
    if empty: "dev_children n = {}" and s: "pnp_step\<^sup>*\<^sup>* (snd (remove_device m i)) m'"
  proof -
    note rm = remove_device_ok [OF inv live empty] and inv1 = remove_device_inv [OF inv, of i]
    have gone: "removed_at (snd (remove_device m i)) i" by (simp add: removed_at_def rm(2))
    have "\<not> (\<exists>r. live_node (snd (remove_device m i)) i r)" using gone by (auto simp: removed_at_def live_node_def)
    then have "map_of (dev_names (snd (remove_device m i))) k \<noteq> Some i" for k
      using pnp_inv_dest(4) [OF inv1] unfolding dev_names_ok_def by blast
    then have "find_device (snd (remove_device m i)) (dev_name n) \<noteq> Ok i"
      by (cases "map_of (dev_names (snd (remove_device m i))) (to_lowercase (str_trim (dev_name n)))") (auto simp: find_device_def)
    moreover obtain n' where n': "map_of (nodes m') i = Some n'" "dev_state n' = Removed"
      using removed_at_steps [OF s inv1 gone] by (auto simp: removed_at_def)
    moreover have "\<not> addable m' name (Some i)" using n' by (simp add: addable_def live_node_def)
    ultimately show ?thesis using add_device_fail [of m' name "Some i" host]
      by (simp add: start_device_def stop_device_def set_power_def power_irp_def remove_device_def)
  qed
  ultimately show ?thesis using leaf by blast
qed

theorem pnp_removal_final_witness:
  "fst (remove_device demo_pnp2 1) \<noteq> Ok () \<and> fst (remove_device demo_pnp2 2) = Ok () \<and>
   fst (start_device (snd (remove_device demo_pnp2 2)) 2) = Err STATUS_DELETE_PENDING"
proof -
  obtain n where n: "query_device demo_pnp2 2 = Ok n" "dev_state n \<noteq> Removed" by (simp add: query_device_def demo_pnp2_eq)
  have "fst (remove_device demo_pnp2 1) \<noteq> Ok ()" "fst (remove_device demo_pnp2 2) = Ok ()"
    by (simp_all add: remove_device_def demo_pnp2_eq Let_def)
  then show ?thesis using pnp_removal_final [OF demo_pnp_reachable n, of "snd (remove_device demo_pnp2 2)"] by simp
qed

end
