(* ===== verification/Alpc.thy ===== *)
theory Alpc
  imports Object_Manager
begin

text \<open>
  The message ports of \<open>src/src/casak/alpc.rs\<close>. A port is shared by the clones of its endpoint, so the manager
  keeps the states of the ports in a store and the namespace maps names to the numbers of the ports.
  Every operation runs under the lock of its port and is one function on the port's state. The two blocking
  receives are loops over the wake-ups of the waiting thread: a wake-up is given by the reading of
  the clock before the wait and by what the other threads did to the port while the lock was released. A result
  of \<open>None\<close> means that the thread still waits after the last wake-up. Instants are natural numbers: the panic of
  \<open>Instant::now() + timeout\<close> for a sum that the platform's clock cannot represent is not modelled.
\<close>

section \<open>Ports\<close>

record alpc_message =
  am_id :: nat
  am_payload :: "u8 list"
  am_expects_reply :: bool

record port_state =
  ps_name :: string
  ps_max_queue :: nat
  ps_max_message :: nat
  ps_queue :: "alpc_message list"
  ps_replies :: "(nat, u8 list) omap"
  ps_pending :: "nat set"
  ps_cancelled :: "nat set"
  ps_connections :: nat
  ps_next_message :: nat
  ps_closed :: bool
  ps_sent :: nat
  ps_delivered :: nat
  ps_replies_sent :: nat
  ps_dropped :: nat

definition port_new :: "string \<Rightarrow> nat \<Rightarrow> nat \<Rightarrow> port_state" where
  "port_new name max_queue max_message = \<lparr>ps_name = name, ps_max_queue = max_queue, ps_max_message = max_message, ps_queue = [],
     ps_replies = [], ps_pending = {}, ps_cancelled = {}, ps_connections = 0, ps_next_message = 1, ps_closed = False,
     ps_sent = 0, ps_delivered = 0, ps_replies_sent = 0, ps_dropped = 0\<rparr>"

definition alpc_send :: "port_state \<Rightarrow> u8 list \<Rightarrow> bool \<Rightarrow> nat res \<times> port_state" where
  "alpc_send s payload expects_reply =
     (if ps_closed s then (Err STATUS_PORT_DISCONNECTED, s)
      else if length payload > ps_max_message s then (Err STATUS_PORT_MESSAGE_TOO_LONG, s)
      else if length (ps_queue s) \<ge> ps_max_queue s then (Err STATUS_PORT_CONNECTION_REFUSED, s)
      else let i = ps_next_message s
           in (Ok i, s\<lparr>ps_next_message := i + 1,
                ps_queue := ps_queue s @ [\<lparr>am_id = i, am_payload = payload, am_expects_reply = expects_reply\<rparr>],
                ps_pending := (if expects_reply then insert i (ps_pending s) else ps_pending s),
                ps_sent := ps_sent s + 1\<rparr>))"

text \<open>What \<open>receive\<close> does each time it holds the lock, before it looks at the clock.\<close>

definition receive_attempt :: "port_state \<Rightarrow> (alpc_message res \<times> port_state) option" where
  "receive_attempt s = (case ps_queue s of
      m # q \<Rightarrow> Some (Ok m, s\<lparr>ps_queue := q, ps_delivered := ps_delivered s + 1\<rparr>)
    | [] \<Rightarrow> if ps_closed s then Some (Err STATUS_PORT_DISCONNECTED, s) else None)"

fun receive_loop :: "nat \<Rightarrow> (nat \<times> (port_state \<Rightarrow> port_state)) list \<Rightarrow> port_state \<Rightarrow> (alpc_message res \<times> port_state) option" where
  "receive_loop deadline [] s = receive_attempt s"
| "receive_loop deadline ((now, others) # wakes) s =
     (case receive_attempt s of
        Some r \<Rightarrow> Some r
      | None \<Rightarrow> if now \<ge> deadline then Some (Err STATUS_TIMEOUT, s) else receive_loop deadline wakes (others s))"

definition receive :: "nat \<Rightarrow> nat \<Rightarrow> (nat \<times> (port_state \<Rightarrow> port_state)) list \<Rightarrow> port_state \<Rightarrow> (alpc_message res \<times> port_state) option" where
  "receive start timeout wakes s = receive_loop (start + timeout) wakes s"

definition reply :: "port_state \<Rightarrow> nat \<Rightarrow> u8 list \<Rightarrow> unit res \<times> port_state" where
  "reply s request payload =
     (if ps_closed s then (Err STATUS_PORT_DISCONNECTED, s)
      else if length payload > ps_max_message s then (Err STATUS_PORT_MESSAGE_TOO_LONG, s)
      else if request \<notin> ps_pending s \<or> map_of (ps_replies s) request \<noteq> None then (Err STATUS_REPLY_MESSAGE_MISMATCH, s)
      else (Ok (), s\<lparr>ps_pending := ps_pending s - {request}, ps_replies := om_insert request payload (ps_replies s),
             ps_replies_sent := ps_replies_sent s + 1\<rparr>))"

definition receive_reply_attempt :: "nat \<Rightarrow> port_state \<Rightarrow> (u8 list res \<times> port_state) option" where
  "receive_reply_attempt request s = (case map_of (ps_replies s) request of
      Some p \<Rightarrow> Some (Ok p, s\<lparr>ps_replies := om_remove request (ps_replies s)\<rparr>)
    | None \<Rightarrow>
        if request \<in> ps_cancelled s then Some (Err STATUS_CANCELLED, s)
        else if ps_closed s then Some (Err STATUS_PORT_DISCONNECTED, s)
        else if request \<notin> ps_pending s then Some (Err STATUS_REPLY_MESSAGE_MISMATCH, s)
        else None)"

fun receive_reply_loop :: "nat \<Rightarrow> nat \<Rightarrow> (nat \<times> (port_state \<Rightarrow> port_state)) list \<Rightarrow> port_state \<Rightarrow> (u8 list res \<times> port_state) option" where
  "receive_reply_loop request deadline [] s = receive_reply_attempt request s"
| "receive_reply_loop request deadline ((now, others) # wakes) s =
     (case receive_reply_attempt request s of
        Some r \<Rightarrow> Some r
      | None \<Rightarrow> if now \<ge> deadline then Some (Err STATUS_TIMEOUT, s) else receive_reply_loop request deadline wakes (others s))"

definition receive_reply :: "nat \<Rightarrow> nat \<Rightarrow> nat \<Rightarrow> (nat \<times> (port_state \<Rightarrow> port_state)) list \<Rightarrow> port_state \<Rightarrow> (u8 list res \<times> port_state) option" where
  "receive_reply request start timeout wakes s = receive_reply_loop request (start + timeout) wakes s"

definition alpc_cancel :: "port_state \<Rightarrow> nat \<Rightarrow> unit res \<times> port_state" where
  "alpc_cancel s request =
     (if request \<notin> ps_pending s then (Err STATUS_OBJECT_NAME_NOT_FOUND, s)
      else (Ok (), s\<lparr>ps_pending := ps_pending s - {request}, ps_cancelled := insert request (ps_cancelled s),
             ps_queue := filter (\<lambda>m. am_id m \<noteq> request) (ps_queue s)\<rparr>))"

definition alpc_close :: "port_state \<Rightarrow> nat \<times> port_state" where
  "alpc_close s =
     (if ps_closed s then (0, s)
      else let n = length (ps_queue s)
           in (n, s\<lparr>ps_closed := True, ps_queue := [], ps_dropped := ps_dropped s + n, ps_pending := {}\<rparr>))"

section \<open>The namespace of ports\<close>

record alpc_manager =
  alpc_ports :: "(string, nat) omap"
  alpc_next_port :: nat
  alpc_store :: "(nat, port_state) omap"

definition alpc_manager_new :: alpc_manager where
  "alpc_manager_new = \<lparr>alpc_ports = [], alpc_next_port = 1, alpc_store = []\<rparr>"

definition create_port :: "alpc_manager \<Rightarrow> string \<Rightarrow> nat \<Rightarrow> nat \<Rightarrow> nat res \<times> alpc_manager" where
  "create_port m name max_queue max_message =
     (let trimmed = str_trim name
      in if trimmed = [] \<or> str_contains trimmed (CHR 0x00) then (Err STATUS_OBJECT_NAME_INVALID, m)
         else if max_queue = 0 \<or> max_message = 0 then (Err STATUS_INVALID_PARAMETER, m)
         else let key = to_lowercase trimmed
              in if map_of (alpc_ports m) key \<noteq> None then (Err STATUS_OBJECT_NAME_COLLISION, m)
                 else let i = alpc_next_port m
                      in (Ok i, m\<lparr>alpc_next_port := i + 1,
                           alpc_store := om_insert i (port_new trimmed max_queue max_message) (alpc_store m),
                           alpc_ports := om_insert key i (alpc_ports m)\<rparr>))"

definition port_closed :: "alpc_manager \<Rightarrow> nat \<Rightarrow> bool" where
  "port_closed m i = (case map_of (alpc_store m) i of None \<Rightarrow> False | Some s \<Rightarrow> ps_closed s)"

definition alpc_connect :: "alpc_manager \<Rightarrow> string \<Rightarrow> nat res \<times> alpc_manager" where
  "alpc_connect m name =
     (let key = to_lowercase (str_trim name)
      in if key = [] then (Err STATUS_OBJECT_NAME_INVALID, m)
         else attempt (ok_or (map_of (alpc_ports m) key) STATUS_OBJECT_NAME_NOT_FOUND) m (\<lambda>i.
           if port_closed m i then (Err STATUS_PORT_DISCONNECTED, m)
           else (Ok i, (case map_of (alpc_store m) i of None \<Rightarrow> m
                  | Some s \<Rightarrow> m\<lparr>alpc_store := om_insert i (s\<lparr>ps_connections := ps_connections s + 1\<rparr>) (alpc_store m)\<rparr>))))"

definition alpc_port :: "alpc_manager \<Rightarrow> string \<Rightarrow> nat res" where
  "alpc_port m name = ok_or (map_of (alpc_ports m) (to_lowercase (str_trim name))) STATUS_OBJECT_NAME_NOT_FOUND"

definition port_count :: "alpc_manager \<Rightarrow> nat" where
  "port_count m = length (alpc_ports m)"

definition remove_port :: "alpc_manager \<Rightarrow> string \<Rightarrow> nat res \<times> alpc_manager" where
  "remove_port m name =
     (let key = to_lowercase (str_trim name)
      in attempt (ok_or (map_of (alpc_ports m) key) STATUS_INVALID_HANDLE) m (\<lambda>i.
           if \<not> port_closed m i then (Err STATUS_INVALID_HANDLE, m)
           else (Ok i, m\<lparr>alpc_ports := om_remove key (alpc_ports m)\<rparr>)))"

section \<open>The invariant of a port\<close>

definition queue_ok :: "port_state \<Rightarrow> bool" where
  "queue_ok s \<longleftrightarrow> sorted_wrt (<) (map am_id (ps_queue s)) \<and> length (ps_queue s) \<le> ps_max_queue s \<and>
     (\<forall>m \<in> set (ps_queue s). am_id m < ps_next_message s \<and> length (am_payload m) \<le> ps_max_message s \<and> am_id m \<notin> ps_cancelled s) \<and>
     (ps_closed s \<longrightarrow> ps_queue s = [])"

definition slot_ok :: "port_state \<Rightarrow> nat \<Rightarrow> bool" where
  "slot_ok s r \<longleftrightarrow>
     (r \<in> ps_pending s \<longrightarrow> r < ps_next_message s \<and> map_of (ps_replies s) r = None \<and> r \<notin> ps_cancelled s \<and> \<not> ps_closed s) \<and>
     (r \<in> ps_cancelled s \<longrightarrow> r < ps_next_message s \<and> map_of (ps_replies s) r = None) \<and>
     (\<forall>p. map_of (ps_replies s) r = Some p \<longrightarrow> r < ps_next_message s \<and> length p \<le> ps_max_message s)"

definition counts_ok :: "port_state \<Rightarrow> bool" where
  "counts_ok s \<longleftrightarrow> ps_next_message s = Suc (ps_sent s) \<and> ps_delivered s + ps_dropped s + length (ps_queue s) \<le> ps_sent s"

definition port_inv :: "port_state \<Rightarrow> bool" where
  "port_inv s \<longleftrightarrow> queue_ok s \<and> (\<forall>r. slot_ok s r) \<and> counts_ok s"

lemma port_inv_dest:
  assumes "port_inv s"
  shows "queue_ok s" "slot_ok s r" "counts_ok s"
  using assms by (simp_all add: port_inv_def)

lemma port_invI: "queue_ok s \<Longrightarrow> (\<And>r. slot_ok s r) \<Longrightarrow> counts_ok s \<Longrightarrow> port_inv s"
  by (simp add: port_inv_def)

inductive port_step :: "port_state \<Rightarrow> port_state \<Rightarrow> bool" where
  send: "port_step s (snd (alpc_send s p e))"
| receive: "receive_attempt s = Some (r, s') \<Longrightarrow> port_step s s'"
| reply: "port_step s (snd (reply s i p))"
| receive_reply: "receive_reply_attempt i s = Some (r', s') \<Longrightarrow> port_step s s'"
| cancel: "port_step s (snd (alpc_cancel s i))"
| close: "port_step s (snd (alpc_close s))"
| connect: "port_step s (s\<lparr>ps_connections := ps_connections s + 1\<rparr>)"

lemma port_inv_new: "port_inv (port_new name q k)"
  by (simp add: port_inv_def port_new_def queue_ok_def slot_ok_def counts_ok_def)

lemma alpc_send_inv:
  assumes inv: "port_inv s"
  shows "port_inv (snd (alpc_send s p e))"
proof (cases "ps_closed s \<or> length p > ps_max_message s \<or> length (ps_queue s) \<ge> ps_max_queue s")
  case True
  then show ?thesis using inv by (auto simp: alpc_send_def)
next
  case False
  note d = port_inv_dest [OF inv]
  let ?s = "snd (alpc_send s p e)"
  have s: "?s = s\<lparr>ps_next_message := ps_next_message s + 1,
      ps_queue := ps_queue s @ [\<lparr>am_id = ps_next_message s, am_payload = p, am_expects_reply = e\<rparr>],
      ps_pending := (if e then insert (ps_next_message s) (ps_pending s) else ps_pending s), ps_sent := ps_sent s + 1\<rparr>"
    using False by (simp add: alpc_send_def Let_def)
  have fresh: "ps_next_message s \<notin> ps_cancelled s" "map_of (ps_replies s) (ps_next_message s) = None"
    using d(2) [of "ps_next_message s"] by (auto simp: slot_ok_def)
  show ?thesis
  proof (rule port_invI)
    show "queue_ok ?s" using d(1) False fresh(1) unfolding s by (auto simp: queue_ok_def sorted_wrt_append less_Suc_eq)
    show "slot_ok ?s r" for r using d(2) [of r] False fresh unfolding s by (auto simp: slot_ok_def)
    show "counts_ok ?s" using d(3) unfolding s by (simp add: counts_ok_def)
  qed
qed

lemma receive_attempt_inv:
  assumes inv: "port_inv s" and r: "receive_attempt s = Some (r, s')"
  shows "port_inv s'"
proof (cases "ps_queue s")
  case Nil
  then show ?thesis using inv r by (auto simp: receive_attempt_def split: if_splits)
next
  case (Cons m q)
  then have s: "s' = s\<lparr>ps_queue := q, ps_delivered := ps_delivered s + 1\<rparr>" using r by (simp add: receive_attempt_def)
  note d = port_inv_dest [OF inv]
  show ?thesis
  proof (rule port_invI)
    show "queue_ok s'" using d(1) Cons unfolding s by (auto simp: queue_ok_def)
    show "slot_ok s' r" for r using d(2) [of r] unfolding s by (simp add: slot_ok_def)
    show "counts_ok s'" using d(3) Cons unfolding s by (simp add: counts_ok_def)
  qed
qed

lemma reply_inv:
  assumes inv: "port_inv s"
  shows "port_inv (snd (reply s i p))"
proof (cases "ps_closed s \<or> length p > ps_max_message s \<or> i \<notin> ps_pending s \<or> map_of (ps_replies s) i \<noteq> None")
  case True
  then show ?thesis using inv by (auto simp: reply_def)
next
  case False
  then have s: "snd (reply s i p) = s\<lparr>ps_pending := ps_pending s - {i}, ps_replies := om_insert i p (ps_replies s),
      ps_replies_sent := ps_replies_sent s + 1\<rparr>" by (simp add: reply_def)
  note d = port_inv_dest [OF inv]
  show ?thesis unfolding s
  proof (rule port_invI)
    let ?s = "s\<lparr>ps_pending := ps_pending s - {i}, ps_replies := om_insert i p (ps_replies s), ps_replies_sent := ps_replies_sent s + 1\<rparr>"
    show "queue_ok ?s" using d(1) by (simp add: queue_ok_def)
    show "slot_ok ?s r" for r using d(2) [of r] False by (cases "r = i") (simp_all add: slot_ok_def)
    show "counts_ok ?s" using d(3) by (simp add: counts_ok_def)
  qed
qed

lemma receive_reply_attempt_inv:
  assumes inv: "port_inv s" and r: "receive_reply_attempt i s = Some (r, s')"
  shows "port_inv s'"
proof (cases "map_of (ps_replies s) i")
  case None
  then show ?thesis using inv r by (auto simp: receive_reply_attempt_def split: if_splits)
next
  case (Some p)
  then have s: "s' = s\<lparr>ps_replies := om_remove i (ps_replies s)\<rparr>" using r by (simp add: receive_reply_attempt_def)
  note d = port_inv_dest [OF inv]
  show ?thesis
  proof (rule port_invI)
    show "queue_ok s'" using d(1) unfolding s by (simp add: queue_ok_def)
    show "slot_ok s' r" for r using d(2) [of r] unfolding s by (cases "r = i") (simp_all add: slot_ok_def)
    show "counts_ok s'" using d(3) unfolding s by (simp add: counts_ok_def)
  qed
qed

lemma alpc_cancel_inv:
  assumes inv: "port_inv s"
  shows "port_inv (snd (alpc_cancel s i))"
proof (cases "i \<in> ps_pending s")
  case True
  let ?q = "filter (\<lambda>m. am_id m \<noteq> i) (ps_queue s)"
  have s: "snd (alpc_cancel s i) = s\<lparr>ps_pending := ps_pending s - {i}, ps_cancelled := insert i (ps_cancelled s), ps_queue := ?q\<rparr>"
    using True by (simp add: alpc_cancel_def)
  note d = port_inv_dest [OF inv]
  have sorted: "sorted_wrt (<) (map am_id ?q)" using d(1) by (simp add: queue_ok_def sorted_wrt_map sorted_wrt_filter)
  show ?thesis unfolding s
  proof (rule port_invI)
    let ?s = "s\<lparr>ps_pending := ps_pending s - {i}, ps_cancelled := insert i (ps_cancelled s), ps_queue := ?q\<rparr>"
    show "queue_ok ?s" using d(1) sorted by (auto simp: queue_ok_def intro: order_trans [OF length_filter_le])
    show "slot_ok ?s r" for r using d(2) [of r] True by (cases "r = i") (simp_all add: slot_ok_def)
    show "counts_ok ?s" using d(3) length_filter_le [of "\<lambda>m. am_id m \<noteq> i" "ps_queue s"] by (simp add: counts_ok_def del: length_filter_le)
  qed
qed (use inv in \<open>simp add: alpc_cancel_def\<close>)

lemma alpc_close_inv:
  assumes inv: "port_inv s"
  shows "port_inv (snd (alpc_close s))"
proof (cases "ps_closed s")
  case False
  note d = port_inv_dest [OF inv]
  let ?s = "s\<lparr>ps_closed := True, ps_queue := [], ps_dropped := ps_dropped s + length (ps_queue s), ps_pending := {}\<rparr>"
  have "port_inv ?s"
  proof (rule port_invI)
    show "queue_ok ?s" by (simp add: queue_ok_def)
    show "slot_ok ?s r" for r using d(2) [of r] by (simp add: slot_ok_def)
    show "counts_ok ?s" using d(3) by (simp add: counts_ok_def)
  qed
  then show ?thesis using False by (simp add: alpc_close_def Let_def)
qed (use inv in \<open>simp add: alpc_close_def\<close>)

lemma connections_inv:
  assumes inv: "port_inv s"
  shows "port_inv (s\<lparr>ps_connections := n\<rparr>)"
proof (rule port_invI)
  note d = port_inv_dest [OF inv]
  show "queue_ok (s\<lparr>ps_connections := n\<rparr>)" using d(1) by (simp add: queue_ok_def)
  show "slot_ok (s\<lparr>ps_connections := n\<rparr>) r" for r using d(2) [of r] by (simp add: slot_ok_def)
  show "counts_ok (s\<lparr>ps_connections := n\<rparr>)" using d(3) by (simp add: counts_ok_def)
qed

lemma port_step_inv: "port_step s s' \<Longrightarrow> port_inv s \<Longrightarrow> port_inv s'"
proof (induction rule: port_step.induct)
  case (connect s)
  then show ?case by (rule connections_inv)
qed (auto intro: alpc_send_inv receive_attempt_inv reply_inv receive_reply_attempt_inv alpc_cancel_inv alpc_close_inv)

interpretation port: invariant_system "\<lambda>s. \<exists>name q k. s = port_new name q k" port_step port_inv
  by unfold_locales (auto intro: port_inv_new port_step_inv)

section \<open>The invariant of the manager\<close>

inductive alpc_step :: "alpc_manager \<Rightarrow> alpc_manager \<Rightarrow> bool" where
  create: "alpc_step m (snd (create_port m name q k))"
| connect: "alpc_step m (snd (alpc_connect m name))"
| remove: "alpc_step m (snd (remove_port m name))"
| port: "map_of (alpc_store m) i = Some s \<Longrightarrow> port_step s s' \<Longrightarrow> alpc_step m (m\<lparr>alpc_store := om_insert i s' (alpc_store m)\<rparr>)"

definition alpc_inv :: "alpc_manager \<Rightarrow> bool" where
  "alpc_inv m \<longleftrightarrow> fresh_ids (alpc_store m) (alpc_next_port m) \<and>
     (\<forall>i s. map_of (alpc_store m) i = Some s \<longrightarrow> port_inv s) \<and>
     (\<forall>k i. map_of (alpc_ports m) k = Some i \<longrightarrow> (\<exists>s. map_of (alpc_store m) i = Some s \<and> to_lowercase (ps_name s) = k))"

lemma alpc_inv_new: "alpc_inv alpc_manager_new"
  by (simp add: alpc_inv_def alpc_manager_new_def)

lemma port_step_name: "port_step s s' \<Longrightarrow> ps_name s' = ps_name s"
  by (induction rule: port_step.induct)
    (auto simp: alpc_send_def reply_def alpc_cancel_def alpc_close_def receive_attempt_def receive_reply_attempt_def Let_def
      split: list.splits if_splits option.splits)

lemma alpc_inv_named:
  "alpc_inv m \<Longrightarrow> map_of (alpc_ports m) k = Some i \<Longrightarrow> \<exists>s. map_of (alpc_store m) i = Some s \<and> to_lowercase (ps_name s) = k"
  by (simp add: alpc_inv_def)

lemma store_update_inv:
  assumes inv: "alpc_inv m" and s: "map_of (alpc_store m) i = Some s" and s': "port_inv s'" "ps_name s' = ps_name s"
  shows "alpc_inv (m\<lparr>alpc_store := om_insert i s' (alpc_store m)\<rparr>)"
  unfolding alpc_inv_def
proof (intro conjI allI impI)
  let ?m = "m\<lparr>alpc_store := om_insert i s' (alpc_store m)\<rparr>"
  show "fresh_ids (alpc_store ?m) (alpc_next_port ?m)" using inv s by (auto simp: alpc_inv_def)
  show "port_inv t" if "map_of (alpc_store ?m) j = Some t" for j t
    using that inv s'(1) by (cases "j = i") (simp_all add: alpc_inv_def)
  show "\<exists>t. map_of (alpc_store ?m) j = Some t \<and> to_lowercase (ps_name t) = k" if at: "map_of (alpc_ports ?m) k = Some j" for k j
  proof -
    obtain t where "map_of (alpc_store m) j = Some t" "to_lowercase (ps_name t) = k" using alpc_inv_named [OF inv, of k j] at by auto
    then show ?thesis using s s'(2) by (cases "j = i") simp_all
  qed
qed

lemma alpc_connect_inv:
  assumes inv: "alpc_inv m"
  shows "alpc_inv (snd (alpc_connect m name))"
proof (cases "map_of (alpc_ports m) (to_lowercase (str_trim name))")
  case None
  then show ?thesis using inv by (simp add: alpc_connect_def Let_def)
next
  case (Some i)
  then obtain s where s: "map_of (alpc_store m) i = Some s" using inv unfolding alpc_inv_def by blast
  then have "port_inv (s\<lparr>ps_connections := ps_connections s + 1\<rparr>)" using inv unfolding alpc_inv_def by (blast intro: connections_inv)
  then have "alpc_inv (m\<lparr>alpc_store := om_insert i (s\<lparr>ps_connections := ps_connections s + 1\<rparr>) (alpc_store m)\<rparr>)"
    by (rule store_update_inv [OF inv s]) simp
  then show ?thesis using inv Some s by (simp add: alpc_connect_def Let_def)
qed

lemma remove_port_inv:
  assumes "alpc_inv m"
  shows "alpc_inv (snd (remove_port m name))"
  using assms by (cases "map_of (alpc_ports m) (to_lowercase (str_trim name))") (auto simp: remove_port_def alpc_inv_def Let_def)

lemma create_port_inv:
  assumes inv: "alpc_inv m"
  shows "alpc_inv (snd (create_port m name q k))"
proof -
  have fresh: "map_of (alpc_store m) (alpc_next_port m) = None" using inv by (auto simp: alpc_inv_def intro: fresh_ids_absent)
  let ?m = "m\<lparr>alpc_next_port := alpc_next_port m + 1,
      alpc_store := om_insert (alpc_next_port m) (port_new (str_trim name) q k) (alpc_store m),
      alpc_ports := om_insert (to_lowercase (str_trim name)) (alpc_next_port m) (alpc_ports m)\<rparr>"
  have nm: "ps_name (port_new (str_trim name) q k) = str_trim name" by (simp add: port_new_def)
  have "alpc_inv ?m"
    unfolding alpc_inv_def
  proof (intro conjI allI impI)
    show "fresh_ids (alpc_store ?m) (alpc_next_port ?m)" using inv by (auto simp: alpc_inv_def)
    show "port_inv s" if "map_of (alpc_store ?m) i = Some s" for i s
      using that inv port_inv_new by (auto simp: alpc_inv_def split: if_splits)
    show "\<exists>s. map_of (alpc_store ?m) i = Some s \<and> to_lowercase (ps_name s) = k'" if at: "map_of (alpc_ports ?m) k' = Some i" for k' i
    proof (cases "k' = to_lowercase (str_trim name)")
      case True
      then show ?thesis using at nm by simp
    next
      case False
      then obtain s where "map_of (alpc_store m) i = Some s" "to_lowercase (ps_name s) = k'" using at inv unfolding alpc_inv_def by fastforce
      then show ?thesis using fresh by auto
    qed
  qed
  then show ?thesis using inv by (simp add: create_port_def Let_def)
qed

interpretation alpc: invariant_system "\<lambda>m. m = alpc_manager_new" alpc_step alpc_inv
proof
  fix m m'
  assume "alpc_step m m'" "alpc_inv m"
  then show "alpc_inv m'"
  proof cases
    case (port i s s')
    then show ?thesis using \<open>alpc_inv m\<close> store_update_inv [of m i s s'] port_step_name [of s s'] port_step_inv [of s s']
      by (simp add: alpc_inv_def)
  qed (auto intro: create_port_inv alpc_connect_inv remove_port_inv)
qed (simp add: alpc_inv_new)

section \<open>The life of one request\<close>

text \<open>A request that was answered with \<open>p\<close>; afterwards the answer is either still there or was taken.\<close>

definition replied :: "port_state \<Rightarrow> nat \<Rightarrow> u8 list \<Rightarrow> bool" where
  "replied s r p \<longleftrightarrow> r < ps_next_message s \<and> r \<notin> ps_pending s \<and> r \<notin> ps_cancelled s \<and> map_of (ps_replies s) r \<in> {None, Some p}"

definition taken :: "port_state \<Rightarrow> nat \<Rightarrow> bool" where
  "taken s r \<longleftrightarrow> r < ps_next_message s \<and> r \<notin> ps_pending s \<and> map_of (ps_replies s) r = None"

lemma replied_step: "port_step s s' \<Longrightarrow> replied s r p \<Longrightarrow> replied s' r p"
  by (induction rule: port_step.induct)
    (auto simp: replied_def alpc_send_def reply_def alpc_cancel_def alpc_close_def receive_attempt_def receive_reply_attempt_def Let_def
      split: list.splits if_splits option.splits)

lemma taken_step: "port_step s s' \<Longrightarrow> taken s r \<Longrightarrow> taken s' r"
  by (induction rule: port_step.induct)
    (auto simp: taken_def alpc_send_def reply_def alpc_cancel_def alpc_close_def receive_attempt_def receive_reply_attempt_def Let_def
      split: list.splits if_splits option.splits)

lemma replied_steps: "port_step\<^sup>*\<^sup>* s s' \<Longrightarrow> replied s r p \<Longrightarrow> replied s' r p"
  by (induction rule: rtranclp_induct) (auto intro: replied_step)

lemma taken_steps: "port_step\<^sup>*\<^sup>* s s' \<Longrightarrow> taken s r \<Longrightarrow> taken s' r"
  by (induction rule: rtranclp_induct) (auto intro: taken_step)

section \<open>Waiting for a message\<close>

text \<open>The state of the port after the first \<open>k\<close> wake-ups.\<close>

fun after_wakes :: "nat \<Rightarrow> (nat \<times> (port_state \<Rightarrow> port_state)) list \<Rightarrow> port_state \<Rightarrow> port_state" where
  "after_wakes (Suc k) ((now, others) # wakes) s = after_wakes k wakes (others s)"
| "after_wakes _ _ s = s"

lemma receive_loop_returns: "\<exists>w \<in> set wakes. deadline \<le> fst w \<Longrightarrow> receive_loop deadline wakes s \<noteq> None"
  by (induction deadline wakes s rule: receive_loop.induct) (auto split: option.split)

lemma receive_attempt_None: "receive_attempt s = None \<longleftrightarrow> ps_queue s = [] \<and> \<not> ps_closed s"
  by (auto simp: receive_attempt_def split: list.split)

lemma receive_loop_result:
  "receive_loop deadline wakes s = Some (r, s') \<Longrightarrow>
     \<exists>k \<le> length wakes.
       (\<forall>j<k. ps_queue (after_wakes j wakes s) = [] \<and> \<not> ps_closed (after_wakes j wakes s) \<and> fst (wakes ! j) < deadline) \<and>
       (receive_attempt (after_wakes k wakes s) = Some (r, s') \<or>
        receive_attempt (after_wakes k wakes s) = None \<and> r = Err STATUS_TIMEOUT \<and> s' = after_wakes k wakes s \<and>
        k < length wakes \<and> deadline \<le> fst (wakes ! k))"
proof (induction deadline wakes s rule: receive_loop.induct)
  case (1 deadline s)
  then show ?case by (intro exI [of _ 0]) simp
next
  case (2 deadline now others wakes s)
  show ?case
  proof (cases "receive_attempt s = None \<and> now < deadline")
    case False
    then show ?thesis using 2(2) by (intro exI [of _ 0]) (auto split: option.splits)
  next
    case True
    then obtain k where k: "k \<le> length wakes"
      "\<forall>j<k. ps_queue (after_wakes j wakes (others s)) = [] \<and> \<not> ps_closed (after_wakes j wakes (others s)) \<and> fst (wakes ! j) < deadline"
      "receive_attempt (after_wakes k wakes (others s)) = Some (r, s') \<or>
        receive_attempt (after_wakes k wakes (others s)) = None \<and> r = Err STATUS_TIMEOUT \<and> s' = after_wakes k wakes (others s) \<and>
        k < length wakes \<and> deadline \<le> fst (wakes ! k)" using 2 by auto
    have "ps_queue (after_wakes j ((now, others) # wakes) s) = [] \<and> \<not> ps_closed (after_wakes j ((now, others) # wakes) s) \<and>
        fst (((now, others) # wakes) ! j) < deadline" if "j < Suc k" for j
      using that k(2) True receive_attempt_None [of s] by (cases j) auto
    then show ?thesis using k(1,3) by (intro exI [of _ "Suc k"]) auto
  qed
qed

section \<open>Properties\<close>

definition demo_port :: port_state where "demo_port = snd (alpc_send (port_new ''p'' 4 16) [7] True)"

lemma demo_port_eq:
  "demo_port = (port_new ''p'' 4 16)\<lparr>ps_next_message := 2, ps_queue := [\<lparr>am_id = 1, am_payload = [7], am_expects_reply = True\<rparr>],
     ps_pending := {1}, ps_sent := 1\<rparr>"
  by (simp add: demo_port_def alpc_send_def port_new_def)

definition demo_alpc :: alpc_manager where "demo_alpc = snd (create_port alpc_manager_new ''Port'' 4 16)"

lemma demo_alpc_eq:
  "demo_alpc = \<lparr>alpc_ports = [(''port'', 1)], alpc_next_port = 2, alpc_store = [(1, port_new ''Port'' 4 16)]\<rparr>"
proof -
  have "to_lowercase ''Port'' = ''port''" by code_simp
  then show ?thesis by (simp add: demo_alpc_def create_port_def alpc_manager_new_def str_trim_def is_whitespace_def str_contains_def)
qed

text \<open>
  C18. In every reachable port manager a name resolves to a port of that name, and every port is well formed: its queue
  is in the order of the message numbers, within its limits and without cancelled messages; a request is never in two of the states
  pending, answered and cancelled; a closed port has neither queued messages nor pending requests; and
  the messages delivered, dropped and queued are no more than the messages sent.
\<close>
theorem alpc_ports_consistent:
  assumes "alpc_step\<^sup>*\<^sup>* alpc_manager_new m"
  shows "(\<forall>name i. alpc_port m name = Ok i \<longrightarrow>
        (\<exists>s. map_of (alpc_store m) i = Some s \<and> to_lowercase (ps_name s) = to_lowercase (str_trim name))) \<and>
     (\<forall>i s. map_of (alpc_store m) i = Some s \<longrightarrow>
        sorted_wrt (<) (map am_id (ps_queue s)) \<and> length (ps_queue s) \<le> ps_max_queue s \<and>
        (\<forall>x \<in> set (ps_queue s). length (am_payload x) \<le> ps_max_message s \<and> am_id x \<notin> ps_cancelled s) \<and>
        ps_pending s \<inter> ps_cancelled s = {} \<and> ps_pending s \<inter> dom (map_of (ps_replies s)) = {} \<and>
        ps_cancelled s \<inter> dom (map_of (ps_replies s)) = {} \<and>
        (ps_closed s \<longrightarrow> ps_queue s = [] \<and> ps_pending s = {}) \<and>
        ps_delivered s + ps_dropped s + length (ps_queue s) \<le> ps_sent s)"
proof (intro conjI allI impI)
  have inv: "alpc_inv m" by (rule alpc.reachable_inv [OF refl assms])
  show "\<exists>s. map_of (alpc_store m) i = Some s \<and> to_lowercase (ps_name s) = to_lowercase (str_trim name)" if "alpc_port m name = Ok i" for name i
    using that alpc_inv_named [OF inv, of "to_lowercase (str_trim name)" i]
    by (cases "map_of (alpc_ports m) (to_lowercase (str_trim name))") (simp_all add: alpc_port_def)
  fix i s assume "map_of (alpc_store m) i = Some s"
  then have p: "port_inv s" using inv by (simp add: alpc_inv_def)
  note d = port_inv_dest [OF p]
  show "sorted_wrt (<) (map am_id (ps_queue s))" "length (ps_queue s) \<le> ps_max_queue s"
    "\<forall>x \<in> set (ps_queue s). length (am_payload x) \<le> ps_max_message s \<and> am_id x \<notin> ps_cancelled s"
    "ps_closed s \<Longrightarrow> ps_queue s = []"
    using d(1) by (simp_all add: queue_ok_def)
  show "ps_pending s \<inter> ps_cancelled s = {}" "ps_pending s \<inter> dom (map_of (ps_replies s)) = {}"
    "ps_cancelled s \<inter> dom (map_of (ps_replies s)) = {}" "ps_closed s \<Longrightarrow> ps_pending s = {}"
    using d(2) by (auto simp: slot_ok_def)
  show "ps_delivered s + ps_dropped s + length (ps_queue s) \<le> ps_sent s" using d(3) by (simp add: counts_ok_def)
qed

theorem alpc_ports_consistent_witness:
  "alpc_port demo_alpc ''PORT'' = Ok 1 \<and> (\<exists>s. map_of (alpc_store demo_alpc) 1 = Some s \<and> to_lowercase (ps_name s) = ''port'')"
proof -
  have r: "alpc_step\<^sup>*\<^sup>* alpc_manager_new demo_alpc" unfolding demo_alpc_def by (blast intro: alpc_step.create)
  have k: "to_lowercase (str_trim ''PORT'') = ''port''" by code_simp
  then have "alpc_port demo_alpc ''PORT'' = Ok 1" by (simp add: alpc_port_def demo_alpc_eq)
  then show ?thesis using alpc_ports_consistent [OF r] k by metis
qed

text \<open>
  C19. A request is answered at most once and its answer is received at most once: when a reply is
  accepted, its payload is available at once; whatever happens to the port later, no second reply and no cancellation of that
  request is accepted, waiting for the answer never blocks and yields no other payload, and after the answer
  was received it is never received again.
\<close>
theorem alpc_reply_exactly_once:
  assumes start: "port_step\<^sup>*\<^sup>* (port_new name q k) s" and rep: "reply s r p = (Ok (), s1)" and later: "port_step\<^sup>*\<^sup>* s1 s2"
  shows "receive_reply_attempt r s1 = Some (Ok p, s1\<lparr>ps_replies := om_remove r (ps_replies s1)\<rparr>) \<and>
     fst (reply s2 r p') \<noteq> Ok () \<and> alpc_cancel s2 r = (Err STATUS_OBJECT_NAME_NOT_FOUND, s2) \<and>
     receive_reply_attempt r s2 \<noteq> None \<and>
     (\<forall>x s3. receive_reply_attempt r s2 = Some (Ok x, s3) \<longrightarrow> x = p \<and>
        (\<forall>s4 y s5. port_step\<^sup>*\<^sup>* s3 s4 \<longrightarrow> receive_reply_attempt r s4 \<noteq> Some (Ok y, s5)))"
proof -
  have inv: "port_inv s" by (rule port.reachable_inv [OF _ start]) blast
  have r: "r \<in> ps_pending s" "s1 = s\<lparr>ps_pending := ps_pending s - {r}, ps_replies := om_insert r p (ps_replies s),
      ps_replies_sent := ps_replies_sent s + 1\<rparr>"
    using rep by (auto simp: reply_def split: if_splits)
  then have "replied s1 r p" using port_inv_dest(2) [OF inv, of r] by (simp add: replied_def slot_ok_def)
  then have s2: "replied s2 r p" by (rule replied_steps [OF later])
  have "x = p \<and> (\<forall>s4 y s5. port_step\<^sup>*\<^sup>* s3 s4 \<longrightarrow> receive_reply_attempt r s4 \<noteq> Some (Ok y, s5))"
    if get: "receive_reply_attempt r s2 = Some (Ok x, s3)" for x s3
  proof -
    have g: "x = p" "s3 = s2\<lparr>ps_replies := om_remove r (ps_replies s2)\<rparr>"
      using get s2 by (auto simp: receive_reply_attempt_def replied_def split: option.splits if_splits)
    have "taken s3 r" using s2 by (simp add: g taken_def replied_def)
    then have "map_of (ps_replies s4) r = None" if "port_step\<^sup>*\<^sup>* s3 s4" for s4 using taken_steps [OF that] by (simp add: taken_def)
    then show ?thesis using g by (auto simp: receive_reply_attempt_def split: if_splits)
  qed
  moreover have "receive_reply_attempt r s1 = Some (Ok p, s1\<lparr>ps_replies := om_remove r (ps_replies s1)\<rparr>)"
    by (simp add: receive_reply_attempt_def r)
  moreover have "fst (reply s2 r p') \<noteq> Ok () \<and> alpc_cancel s2 r = (Err STATUS_OBJECT_NAME_NOT_FOUND, s2) \<and> receive_reply_attempt r s2 \<noteq> None"
    using s2 by (auto simp: replied_def reply_def alpc_cancel_def receive_reply_attempt_def)
  ultimately show ?thesis by blast
qed

theorem alpc_reply_exactly_once_witness:
  "reply demo_port 1 [9] = (Ok (), snd (reply demo_port 1 [9])) \<and> fst (reply (snd (reply demo_port 1 [9])) 1 [8]) \<noteq> Ok ()"
proof -
  have s: "port_step\<^sup>*\<^sup>* (port_new ''p'' 4 16) demo_port" unfolding demo_port_def by (blast intro: port_step.send)
  have r: "reply demo_port 1 [9] = (Ok (), snd (reply demo_port 1 [9]))" by (simp add: reply_def demo_port_eq port_new_def)
  show ?thesis using alpc_reply_exactly_once [OF s r rtranclp.rtrancl_refl, of "[8]"] r by simp
qed

text \<open>
  Receiving returns by its deadline and reports what it saw: if one of the clock readings reaches the deadline
  the call returns; when it returns after some number of wake-ups, the queue was empty, the port open and the clock before the deadline at
  every earlier one, and at the last one it took the oldest message, or found the port closed and empty, or
  found it open and empty with the deadline reached.
\<close>
theorem alpc_receive_returns:
  "((\<exists>w \<in> set wakes. start + timeout \<le> fst w) \<longrightarrow> receive start timeout wakes s \<noteq> None) \<and>
   (receive start timeout wakes s = Some (r, s') \<longrightarrow>
     (\<exists>k \<le> length wakes. let t = after_wakes k wakes s in
       (\<forall>j<k. ps_queue (after_wakes j wakes s) = [] \<and> \<not> ps_closed (after_wakes j wakes s) \<and> fst (wakes ! j) < start + timeout) \<and>
       (case r of
          Ok m \<Rightarrow> ps_queue t = m # ps_queue s' \<and> ps_delivered s' = ps_delivered t + 1
        | Err e \<Rightarrow> s' = t \<and> ps_queue t = [] \<and>
            (e = STATUS_PORT_DISCONNECTED \<and> ps_closed t \<or>
             e = STATUS_TIMEOUT \<and> \<not> ps_closed t \<and> k < length wakes \<and> start + timeout \<le> fst (wakes ! k))
        | Panic \<Rightarrow> False)))"
proof (intro conjI impI)
  show "receive start timeout wakes s \<noteq> None" if "\<exists>w \<in> set wakes. start + timeout \<le> fst w"
    unfolding receive_def by (rule receive_loop_returns [OF that])
  assume "receive start timeout wakes s = Some (r, s')"
  then obtain k where k: "k \<le> length wakes"
    "\<forall>j<k. ps_queue (after_wakes j wakes s) = [] \<and> \<not> ps_closed (after_wakes j wakes s) \<and> fst (wakes ! j) < start + timeout"
    "receive_attempt (after_wakes k wakes s) = Some (r, s') \<or>
     receive_attempt (after_wakes k wakes s) = None \<and> r = Err STATUS_TIMEOUT \<and> s' = after_wakes k wakes s \<and>
     k < length wakes \<and> start + timeout \<le> fst (wakes ! k)"
    unfolding receive_def using receive_loop_result [of "start + timeout" wakes s r s'] by blast
  have "case r of
          Ok m \<Rightarrow> ps_queue (after_wakes k wakes s) = m # ps_queue s' \<and> ps_delivered s' = ps_delivered (after_wakes k wakes s) + 1
        | Err e \<Rightarrow> s' = after_wakes k wakes s \<and> ps_queue (after_wakes k wakes s) = [] \<and>
            (e = STATUS_PORT_DISCONNECTED \<and> ps_closed (after_wakes k wakes s) \<or>
             e = STATUS_TIMEOUT \<and> \<not> ps_closed (after_wakes k wakes s) \<and> k < length wakes \<and> start + timeout \<le> fst (wakes ! k))
        | Panic \<Rightarrow> False"
    using k(3)
  proof
    assume "receive_attempt (after_wakes k wakes s) = Some (r, s')"
    then show ?thesis by (auto simp: receive_attempt_def split: list.splits if_splits)
  qed (simp add: receive_attempt_None)
  then show "\<exists>k \<le> length wakes. let t = after_wakes k wakes s in
       (\<forall>j<k. ps_queue (after_wakes j wakes s) = [] \<and> \<not> ps_closed (after_wakes j wakes s) \<and> fst (wakes ! j) < start + timeout) \<and>
       (case r of
          Ok m \<Rightarrow> ps_queue t = m # ps_queue s' \<and> ps_delivered s' = ps_delivered t + 1
        | Err e \<Rightarrow> s' = t \<and> ps_queue t = [] \<and>
            (e = STATUS_PORT_DISCONNECTED \<and> ps_closed t \<or>
             e = STATUS_TIMEOUT \<and> \<not> ps_closed t \<and> k < length wakes \<and> start + timeout \<le> fst (wakes ! k))
        | Panic \<Rightarrow> False)"
    unfolding Let_def using k(1,2) by blast
qed

theorem alpc_receive_returns_witness:
  "receive 100 10 [(101, \<lambda>s. snd (alpc_send s [5] False)), (110, id)] (port_new ''p'' 4 16) \<noteq> None"
proof -
  have "\<exists>w \<in> set [(101 :: nat, \<lambda>s. snd (alpc_send s [5] False)), (110, id)]. 100 + 10 \<le> fst w" by simp
  then show ?thesis using alpc_receive_returns [of "[(101, \<lambda>s. snd (alpc_send s [5] False)), (110, id)]" 100 10 "port_new ''p'' 4 16"] by blast
qed

end
