(* ===== verification/Process_Manager.thy ===== *)
theory Process_Manager
  imports Object_Manager
begin

text \<open>
  The process and thread executive of \<open>src/src/casak/process.rs\<close>: records of processes and threads, the parent
  and child links, and the table of process and thread handles. Identifiers are natural numbers below
  \<open>2 ^ 32\<close>, and an overflow of a counter is a panic. The trait \<open>ThreadScheduler\<close> is the pair of functions \<open>attach\<close>
  and \<open>detach\<close> on the state of a scheduler; the contract that a scheduler keeps is the locale \<open>thread_scheduler\<close>.
\<close>

unbundle bit_operations_syntax

section \<open>Records\<close>

datatype process_state = Active | Terminated

datatype thread_state = TsInitialized | TsReady | TsRunning | TsTerminated

record process_record =
  pr_id :: nat
  pr_parent :: "nat option"
  pr_image_name :: string
  pr_image_section :: "nat option"
  pr_token :: "nat option"
  pr_state :: process_state
  pr_exit_status :: nt_status
  pr_threads :: "nat set"
  pr_children :: "nat set"

record thread_record =
  tr_id :: nat
  tr_process :: nat
  tr_start_routine :: nat
  tr_state :: thread_state

definition is_live :: "thread_record \<Rightarrow> bool" where
  "is_live t \<longleftrightarrow> tr_state t \<noteq> TsTerminated"

datatype handle_target = ProcessTarget nat | ThreadTarget nat

record process_handle_entry =
  ph_owner :: nat
  ph_target :: handle_target
  ph_access :: u32
  ph_inheritable :: bool

definition PROCESS_ALL_ACCESS :: u32 where
  "PROCESS_ALL_ACCESS = PROCESS_TERMINATE OR PROCESS_QUERY_INFORMATION OR SYNCHRONIZE OR READ_CONTROL OR DELETE OR WRITE_DAC"

definition THREAD_ALL_ACCESS :: u32 where
  "THREAD_ALL_ACCESS = THREAD_TERMINATE OR THREAD_QUERY_INFORMATION OR SYNCHRONIZE OR READ_CONTROL OR DELETE OR WRITE_DAC"

record process_manager =
  processes :: "(nat, process_record) omap"
  pm_threads :: "(nat, thread_record) omap"
  pm_handles :: "(nat, process_handle_entry) omap"
  next_process :: nat
  next_thread :: nat
  pm_next_handle :: nat

definition process_manager_new :: process_manager where
  "process_manager_new = \<lparr>processes = [], pm_threads = [], pm_handles = [], next_process = 4, next_thread = 4, pm_next_handle = 4\<rparr>"

text \<open>The type of the two operations of a scheduler with states \<open>'s\<close>.\<close>

type_synonym 's attach_op = "nat \<Rightarrow> nat \<Rightarrow> nat \<Rightarrow> nat \<Rightarrow> nat \<Rightarrow> nat \<Rightarrow> 's \<Rightarrow> unit res \<times> 's"
type_synonym 's detach_op = "nat \<Rightarrow> nat \<Rightarrow> 's \<Rightarrow> unit res \<times> 's"

section \<open>Processes\<close>

definition new_process_record :: "nat \<Rightarrow> nat option \<Rightarrow> string \<Rightarrow> nat option \<Rightarrow> process_record" where
  "new_process_record i parent img section = \<lparr>pr_id = i, pr_parent = parent, pr_image_name = img, pr_image_section = section,
     pr_token = None, pr_state = Active, pr_exit_status = 0, pr_threads = {}, pr_children = {}\<rparr>"

definition adopt_child :: "nat option \<Rightarrow> nat \<Rightarrow> (nat, process_record) omap \<Rightarrow> (nat, process_record) omap" where
  "adopt_child parent i ps = (case parent of None \<Rightarrow> ps
     | Some p \<Rightarrow> om_update p (\<lambda>r. r\<lparr>pr_children := insert i (pr_children r)\<rparr>) ps)"

definition create_process :: "process_manager \<Rightarrow> nat option \<Rightarrow> string \<Rightarrow> nat option \<Rightarrow> nat res \<times> process_manager" where
  "create_process m parent img section =
     (if str_trim img = [] \<or> str_contains img (CHR 0x00) then (Err STATUS_INVALID_PARAMETER, m)
      else attempt (case parent of None \<Rightarrow> Ok ()
          | Some p \<Rightarrow> rbind (ok_or (map_of (processes m) p) STATUS_INVALID_HANDLE) (\<lambda>r.
              if pr_state r = Terminated then Err STATUS_PROCESS_IS_TERMINATING else Ok ())) m (\<lambda>_.
        let i = next_process m
        in if i + 4 > u32_max then (Panic, m)
           else (Ok i, m\<lparr>next_process := i + 4,
                  processes := adopt_child parent i (om_insert i (new_process_record i parent img section) (processes m))\<rparr>)))"

definition ensure_process :: "process_manager \<Rightarrow> nat \<Rightarrow> string \<Rightarrow> nat option \<Rightarrow> unit res \<times> process_manager" where
  "ensure_process m i img parent =
     (if i = 0 \<or> str_trim img = [] then (Err STATUS_INVALID_PARAMETER, m)
      else if map_of (processes m) i \<noteq> None then (Ok (), m)
      else if (case parent of None \<Rightarrow> False | Some p \<Rightarrow> map_of (processes m) p = None) then (Err STATUS_INVALID_HANDLE, m)
      else if i + 4 > u32_max then (Panic, m)
      else (Ok (), m\<lparr>next_process := max (next_process m) (i + 4),
             processes := adopt_child parent i (om_insert i (new_process_record i parent img None) (processes m))\<rparr>))"

section \<open>Threads\<close>

definition insert_thread :: "nat \<Rightarrow> nat \<Rightarrow> nat \<Rightarrow> thread_state \<Rightarrow> process_manager \<Rightarrow> process_manager" where
  "insert_thread i p start st m = m\<lparr>pm_threads := om_insert i \<lparr>tr_id = i, tr_process = p, tr_start_routine = start, tr_state = st\<rparr> (pm_threads m),
     processes := om_update p (\<lambda>r. r\<lparr>pr_threads := insert i (pr_threads r)\<rparr>) (processes m)\<rparr>"

definition create_thread_ex ::
  "'s attach_op \<Rightarrow> process_manager \<Rightarrow> 's \<Rightarrow> nat \<Rightarrow> nat \<Rightarrow> nat \<Rightarrow> nat \<Rightarrow> nat \<Rightarrow> nat res \<times> 's \<times> process_manager" where
  "create_thread_ex attach m s p start ctx base sz =
     attempt (ok_or (map_of (processes m) p) STATUS_INVALID_HANDLE) (s, m) (\<lambda>r.
       if pr_state r = Terminated then (Err STATUS_PROCESS_IS_TERMINATING, s, m)
       else if start = 0 then (Err STATUS_INVALID_PARAMETER, s, m)
       else let i = next_thread m
            in if i + 4 > u32_max then (Panic, s, m)
               else let m1 = m\<lparr>next_thread := i + 4\<rparr>
                    in (case attach p i start ctx base sz s of (a, s1) \<Rightarrow>
                         attempt a (s1, m1) (\<lambda>_. (Ok i, s1, insert_thread i p start TsReady m1))))"

definition create_thread :: "'s attach_op \<Rightarrow> process_manager \<Rightarrow> 's \<Rightarrow> nat \<Rightarrow> nat \<Rightarrow> nat res \<times> 's \<times> process_manager" where
  "create_thread attach m s p start = create_thread_ex attach m s p start 0 0 0"

definition ensure_thread :: "process_manager \<Rightarrow> nat \<Rightarrow> nat \<Rightarrow> nat \<Rightarrow> unit res \<times> process_manager" where
  "ensure_thread m p i start =
     (if i = 0 then (Err STATUS_INVALID_PARAMETER, m)
      else attempt (ok_or (map_of (processes m) p) STATUS_INVALID_HANDLE) m (\<lambda>r.
        if pr_state r = Terminated then (Err STATUS_PROCESS_IS_TERMINATING, m)
        else if map_of (pm_threads m) i \<noteq> None then (Ok (), m)
        else if i + 4 > u32_max then (Panic, m)
        else (Ok (), insert_thread i p start TsRunning (m\<lparr>next_thread := max (next_thread m) (i + 4)\<rparr>))))"

definition start_thread :: "process_manager \<Rightarrow> nat \<Rightarrow> unit res \<times> process_manager" where
  "start_thread m t = attempt (ok_or (map_of (pm_threads m) t) STATUS_INVALID_HANDLE) m (\<lambda>r.
     case tr_state r of
       TsRunning \<Rightarrow> (Err STATUS_INVALID_DEVICE_STATE, m)
     | TsTerminated \<Rightarrow> (Err STATUS_THREAD_IS_TERMINATING, m)
     | _ \<Rightarrow> (Ok (), m\<lparr>pm_threads := om_insert t (r\<lparr>tr_state := TsRunning\<rparr>) (pm_threads m)\<rparr>))"

definition mark_terminated :: "nat \<Rightarrow> process_manager \<Rightarrow> process_manager" where
  "mark_terminated t m = m\<lparr>pm_threads := om_update t (\<lambda>r. r\<lparr>tr_state := TsTerminated\<rparr>) (pm_threads m)\<rparr>"

definition terminate_thread :: "'s detach_op \<Rightarrow> process_manager \<Rightarrow> 's \<Rightarrow> nat \<Rightarrow> unit res \<times> 's \<times> process_manager" where
  "terminate_thread detach m s t =
     attempt (ok_or (map_of (pm_threads m) t) STATUS_INVALID_HANDLE) (s, m) (\<lambda>r.
       if tr_state r = TsTerminated then (Err STATUS_THREAD_IS_TERMINATING, s, m)
       else (case detach (tr_process r) t s of (a, s1) \<Rightarrow> attempt a (s1, m) (\<lambda>_.
         (Ok (), s1, (mark_terminated t m)\<lparr>processes :=
            om_update (tr_process r) (\<lambda>q. q\<lparr>pr_threads := pr_threads q - {t}\<rparr>) (processes m)\<rparr>))))"

text \<open>The loop of \<open>terminate_process\<close> over the threads in ascending order.\<close>

fun detach_all :: "'s detach_op \<Rightarrow> nat \<Rightarrow> nat list \<Rightarrow> nat \<Rightarrow> 's \<Rightarrow> process_manager \<Rightarrow> nat res \<times> 's \<times> process_manager" where
  "detach_all detach p [] n s m = (Ok n, s, m)"
| "detach_all detach p (t # ts) n s m =
     (case detach p t s of (a, s1) \<Rightarrow> attempt a (s1, m) (\<lambda>_. detach_all detach p ts (n + 1) s1 (mark_terminated t m)))"

definition terminate_process :: "'s detach_op \<Rightarrow> process_manager \<Rightarrow> 's \<Rightarrow> nat \<Rightarrow> nat res \<times> 's \<times> process_manager" where
  "terminate_process detach m s p =
     attempt (ok_or (map_of (processes m) p) STATUS_INVALID_HANDLE) (s, m) (\<lambda>r.
       if pr_state r = Terminated then (Err STATUS_PROCESS_IS_TERMINATING, s, m)
       else (case detach_all detach p (sorted_list_of_set (pr_threads r)) 0 s m of (a, s1, m1) \<Rightarrow> attempt a (s1, m1) (\<lambda>n.
         let ps = om_update p (\<lambda>q. q\<lparr>pr_threads := {}, pr_state := Terminated, pr_exit_status := STATUS_PROCESS_IS_TERMINATING\<rparr>) (processes m1)
         in (Ok n, s1, m1\<lparr>processes := (case pr_parent r of None \<Rightarrow> ps
              | Some q \<Rightarrow> om_update q (\<lambda>q. q\<lparr>pr_children := pr_children q - {p}\<rparr>) ps)\<rparr>))))"

section \<open>Handles\<close>

definition require_owner :: "process_manager \<Rightarrow> nat \<Rightarrow> unit res" where
  "require_owner m owner = rbind (ok_or (map_of (processes m) owner) STATUS_INVALID_HANDLE) (\<lambda>r.
     if pr_state r = Terminated then Err STATUS_PROCESS_IS_TERMINATING else Ok ())"

definition lookup_process_handle :: "process_manager \<Rightarrow> nat \<Rightarrow> nat \<Rightarrow> process_handle_entry res" where
  "lookup_process_handle m owner h =
     (if h = 0 then Err STATUS_INVALID_HANDLE
      else case map_of (pm_handles m) h of
             None \<Rightarrow> Err STATUS_INVALID_HANDLE
           | Some e \<Rightarrow> if ph_owner e = owner then Ok e else Err STATUS_INVALID_HANDLE)"

definition insert_process_handle :: "process_manager \<Rightarrow> nat \<Rightarrow> handle_target \<Rightarrow> u32 \<Rightarrow> bool \<Rightarrow> nat res \<times> process_manager" where
  "insert_process_handle m owner target access inheritable =
     (let h = pm_next_handle m
      in (Ok h, m\<lparr>pm_next_handle := saturating_add32 h 4,
           pm_handles := om_insert h \<lparr>ph_owner = owner, ph_target = target, ph_access = access, ph_inheritable = inheritable\<rparr> (pm_handles m)\<rparr>))"

definition open_process :: "process_manager \<Rightarrow> nat \<Rightarrow> nat \<Rightarrow> u32 \<Rightarrow> bool \<Rightarrow> nat res \<times> process_manager" where
  "open_process m owner target access inheritable =
     attempt (require_owner m owner) m (\<lambda>_.
     attempt (ok_or (map_of (processes m) target) STATUS_INVALID_HANDLE) m (\<lambda>r.
       if pr_state r = Terminated then (Err STATUS_PROCESS_IS_TERMINATING, m)
       else if access = 0 \<or> access AND NOT PROCESS_ALL_ACCESS \<noteq> 0 then (Err STATUS_ACCESS_DENIED, m)
       else insert_process_handle m owner (ProcessTarget target) access inheritable))"

definition open_thread :: "process_manager \<Rightarrow> nat \<Rightarrow> nat \<Rightarrow> u32 \<Rightarrow> bool \<Rightarrow> nat res \<times> process_manager" where
  "open_thread m owner target access inheritable =
     attempt (require_owner m owner) m (\<lambda>_.
     attempt (ok_or (map_of (pm_threads m) target) STATUS_INVALID_HANDLE) m (\<lambda>r.
       if tr_state r = TsTerminated then (Err STATUS_THREAD_IS_TERMINATING, m)
       else if access = 0 \<or> access AND NOT THREAD_ALL_ACCESS \<noteq> 0 then (Err STATUS_ACCESS_DENIED, m)
       else insert_process_handle m owner (ThreadTarget target) access inheritable))"

definition duplicate_process_handle :: "process_manager \<Rightarrow> nat \<Rightarrow> nat \<Rightarrow> u32 \<Rightarrow> bool \<Rightarrow> nat res \<times> process_manager" where
  "duplicate_process_handle m owner source access inheritable =
     attempt (lookup_process_handle m owner source) m (\<lambda>e.
       let effective = (if access = 0 then ph_access e else access)
       in if effective AND NOT (ph_access e) \<noteq> 0 then (Err STATUS_ACCESS_DENIED, m)
          else insert_process_handle m owner (ph_target e) effective inheritable)"

fun inherit_all :: "nat \<Rightarrow> (handle_target \<times> u32) list \<Rightarrow> nat list \<Rightarrow> process_manager \<Rightarrow> nat list res \<times> process_manager" where
  "inherit_all child [] created m = (Ok created, m)"
| "inherit_all child ((target, access) # rest) created m =
     (case insert_process_handle m child target access True of (r, m1) \<Rightarrow>
        attempt r m1 (\<lambda>h. inherit_all child rest (created @ [h]) m1))"

definition inherit_process_handles :: "process_manager \<Rightarrow> nat \<Rightarrow> nat \<Rightarrow> nat list res \<times> process_manager" where
  "inherit_process_handles m parent child =
     attempt (require_owner m parent) m (\<lambda>_. attempt (require_owner m child) m (\<lambda>_.
       inherit_all child (map (\<lambda>e. (ph_target e, ph_access e))
         (filter (\<lambda>e. ph_owner e = parent \<and> ph_inheritable e) (map snd (pm_handles m)))) [] m))"

definition close_process_handle :: "process_manager \<Rightarrow> nat \<Rightarrow> nat \<Rightarrow> unit res \<times> process_manager" where
  "close_process_handle m owner h = attempt (lookup_process_handle m owner h) m (\<lambda>_.
     (Ok (), m\<lparr>pm_handles := om_remove h (pm_handles m)\<rparr>))"

definition close_process_handles :: "process_manager \<Rightarrow> nat \<Rightarrow> nat \<times> process_manager" where
  "close_process_handles m owner =
     (let hs = map fst (filter (\<lambda>(h, e). ph_owner e = owner) (pm_handles m))
      in (length hs, m\<lparr>pm_handles := fold om_remove hs (pm_handles m)\<rparr>))"

definition require_process_access :: "process_manager \<Rightarrow> nat \<Rightarrow> nat \<Rightarrow> u32 \<Rightarrow> nat res" where
  "require_process_access m owner h desired = rbind (lookup_process_handle m owner h) (\<lambda>e.
     case ph_target e of
       ProcessTarget t \<Rightarrow> if desired \<noteq> 0 \<and> desired AND NOT (ph_access e) \<noteq> 0 then Err STATUS_ACCESS_DENIED else Ok t
     | ThreadTarget _ \<Rightarrow> Err STATUS_OBJECT_TYPE_MISMATCH)"

definition require_thread_access :: "process_manager \<Rightarrow> nat \<Rightarrow> nat \<Rightarrow> u32 \<Rightarrow> nat res" where
  "require_thread_access m owner h desired = rbind (lookup_process_handle m owner h) (\<lambda>e.
     case ph_target e of
       ThreadTarget t \<Rightarrow> if desired \<noteq> 0 \<and> desired AND NOT (ph_access e) \<noteq> 0 then Err STATUS_ACCESS_DENIED else Ok t
     | ProcessTarget _ \<Rightarrow> Err STATUS_OBJECT_TYPE_MISMATCH)"

definition set_image_section :: "process_manager \<Rightarrow> nat \<Rightarrow> nat option \<Rightarrow> unit res \<times> process_manager" where
  "set_image_section m p section = attempt (ok_or (map_of (processes m) p) STATUS_INVALID_HANDLE) m (\<lambda>r.
     if pr_state r = Terminated then (Err STATUS_PROCESS_IS_TERMINATING, m)
     else (Ok (), m\<lparr>processes := om_insert p (r\<lparr>pr_image_section := section\<rparr>) (processes m)\<rparr>))"

definition set_token :: "process_manager \<Rightarrow> nat \<Rightarrow> nat option \<Rightarrow> unit res \<times> process_manager" where
  "set_token m p tok = attempt (ok_or (map_of (processes m) p) STATUS_INVALID_HANDLE) m (\<lambda>r.
     if pr_state r = Terminated then (Err STATUS_PROCESS_IS_TERMINATING, m)
     else (Ok (), m\<lparr>processes := om_insert p (r\<lparr>pr_token := tok\<rparr>) (processes m)\<rparr>))"

definition query_process :: "process_manager \<Rightarrow> nat \<Rightarrow> process_record res" where
  "query_process m p = ok_or (map_of (processes m) p) STATUS_INVALID_HANDLE"

definition query_thread :: "process_manager \<Rightarrow> nat \<Rightarrow> thread_record res" where
  "query_thread m t = ok_or (map_of (pm_threads m) t) STATUS_INVALID_HANDLE"

definition process_children :: "process_manager \<Rightarrow> nat \<Rightarrow> nat list res" where
  "process_children m p = rbind (query_process m p) (\<lambda>r. Ok (sorted_list_of_set (pr_children r)))"

definition process_threads :: "process_manager \<Rightarrow> nat \<Rightarrow> nat list res" where
  "process_threads m p = rbind (query_process m p) (\<lambda>r. Ok (sorted_list_of_set (pr_threads r)))"

definition process_count :: "process_manager \<Rightarrow> nat" where "process_count m = length (processes m)"

definition pm_thread_count :: "process_manager \<Rightarrow> nat" where "pm_thread_count m = length (pm_threads m)"

definition process_handle_count :: "process_manager \<Rightarrow> nat \<Rightarrow> nat" where
  "process_handle_count m owner = length (filter (\<lambda>e. ph_owner e = owner) (map snd (pm_handles m)))"

definition ph_entry_of :: "process_manager \<Rightarrow> nat \<Rightarrow> nat \<Rightarrow> (u32 \<times> bool) res" where
  "ph_entry_of m owner h = rbind (lookup_process_handle m owner h) (\<lambda>e. Ok (ph_access e, ph_inheritable e))"

section \<open>The invariant\<close>

definition active_child :: "(nat, process_record) omap \<Rightarrow> nat \<Rightarrow> nat \<Rightarrow> bool" where
  "active_child ps p c \<longleftrightarrow> (\<exists>r. map_of ps c = Some r \<and> pr_parent r = Some p \<and> pr_state r = Active)"

definition process_ok :: "(nat, process_record) omap \<Rightarrow> nat \<Rightarrow> process_record \<Rightarrow> bool" where
  "process_ok ps p r \<longleftrightarrow> pr_id r = p \<and> p \<noteq> 0 \<and> (\<forall>q. pr_parent r = Some q \<longrightarrow> q \<noteq> p \<and> map_of ps q \<noteq> None) \<and>
     (pr_state r = Terminated \<longrightarrow> pr_threads r = {}) \<and> pr_children r = {c. active_child ps p c}"

definition processes_ok :: "process_manager \<Rightarrow> bool" where
  "processes_ok m \<longleftrightarrow> fresh_ids (processes m) (next_process m) \<and> 0 < next_process m \<and>
     (\<forall>p r. map_of (processes m) p = Some r \<longrightarrow> process_ok (processes m) p r)"

definition threads_ok :: "process_manager \<Rightarrow> bool" where
  "threads_ok m \<longleftrightarrow> fresh_ids (pm_threads m) (next_thread m) \<and> 0 < next_thread m \<and>
     (\<forall>t r. map_of (pm_threads m) t = Some r \<longrightarrow> tr_id r = t \<and> t \<noteq> 0 \<and>
        (\<exists>q. map_of (processes m) (tr_process r) = Some q \<and> (is_live r \<longrightarrow> t \<in> pr_threads q))) \<and>
     (\<forall>p q t. map_of (processes m) p = Some q \<and> t \<in> pr_threads q \<longrightarrow> (\<exists>r. map_of (pm_threads m) t = Some r \<and> tr_process r = p))"

definition ph_entry_ok :: "process_manager \<Rightarrow> process_handle_entry \<Rightarrow> bool" where
  "ph_entry_ok m e \<longleftrightarrow> ph_access e \<noteq> 0 \<and> map_of (processes m) (ph_owner e) \<noteq> None \<and>
     (case ph_target e of
        ProcessTarget p \<Rightarrow> covers PROCESS_ALL_ACCESS (ph_access e) \<and> map_of (processes m) p \<noteq> None
      | ThreadTarget t \<Rightarrow> covers THREAD_ALL_ACCESS (ph_access e) \<and> map_of (pm_threads m) t \<noteq> None)"

definition handles_ok :: "process_manager \<Rightarrow> bool" where
  "handles_ok m \<longleftrightarrow> om_wf (pm_handles m) \<and> 0 < pm_next_handle m \<and> (\<forall>h e. map_of (pm_handles m) h = Some e \<longrightarrow> h \<noteq> 0 \<and> ph_entry_ok m e)"

definition proc_inv :: "process_manager \<Rightarrow> bool" where
  "proc_inv m \<longleftrightarrow> processes_ok m \<and> threads_ok m \<and> handles_ok m"

lemma proc_inv_new: "proc_inv process_manager_new"
  by (simp add: proc_inv_def processes_ok_def threads_ok_def handles_ok_def process_manager_new_def)

lemma proc_inv_dest:
  assumes "proc_inv m"
  shows "processes_ok m" "threads_ok m" "handles_ok m"
  using assms by (simp_all add: proc_inv_def)

lemma processes_ok_dest:
  assumes "processes_ok m"
  shows "fresh_ids (processes m) (next_process m)" "map_of (processes m) p = Some r \<Longrightarrow> process_ok (processes m) p r" "0 < next_process m"
  using assms by (simp_all add: processes_ok_def)

lemma threads_ok_dest:
  assumes "threads_ok m"
  shows "fresh_ids (pm_threads m) (next_thread m)" "0 < next_thread m"
    "map_of (pm_threads m) t = Some r \<Longrightarrow> tr_id r = t \<and> t \<noteq> 0 \<and>
        (\<exists>q. map_of (processes m) (tr_process r) = Some q \<and> (is_live r \<longrightarrow> t \<in> pr_threads q))"
    "map_of (processes m) p = Some q \<Longrightarrow> t \<in> pr_threads q \<Longrightarrow> \<exists>r. map_of (pm_threads m) t = Some r \<and> tr_process r = p"
  using assms unfolding threads_ok_def by blast+

lemma threads_okI:
  assumes "fresh_ids (pm_threads m) (next_thread m)" "0 < next_thread m"
    "\<And>t r. map_of (pm_threads m) t = Some r \<Longrightarrow> tr_id r = t \<and> t \<noteq> 0 \<and>
        (\<exists>q. map_of (processes m) (tr_process r) = Some q \<and> (is_live r \<longrightarrow> t \<in> pr_threads q))"
    "\<And>p q t. map_of (processes m) p = Some q \<Longrightarrow> t \<in> pr_threads q \<Longrightarrow> \<exists>r. map_of (pm_threads m) t = Some r \<and> tr_process r = p"
  shows "threads_ok m"
  using assms unfolding threads_ok_def by blast

text \<open>Handles survive every change that forgets no process and no thread.\<close>

lemma handles_ok_grow:
  assumes ok: "handles_ok m" and h: "pm_handles m' = pm_handles m" "pm_next_handle m' = pm_next_handle m"
    and p: "\<And>p. map_of (processes m) p \<noteq> None \<Longrightarrow> map_of (processes m') p \<noteq> None"
    and t: "\<And>t. map_of (pm_threads m) t \<noteq> None \<Longrightarrow> map_of (pm_threads m') t \<noteq> None"
  shows "handles_ok m'"
proof -
  have "ph_entry_ok m' e" if "ph_entry_ok m e" for e
    using that p t unfolding ph_entry_ok_def by (cases "ph_target e") simp_all
  then show ?thesis using ok h unfolding handles_ok_def by simp
qed

text \<open>A change of one process record that keeps its place in the tree.\<close>

lemma active_child_update:
  assumes "\<And>r. map_of ps p = Some r \<Longrightarrow> pr_parent (f r) = pr_parent r \<and> pr_state (f r) = pr_state r"
  shows "active_child (om_update p f ps) q c = active_child ps q c"
  using assms unfolding active_child_def by (cases "c = p"; cases "map_of ps p") auto

lemma processes_ok_update:
  assumes ok: "processes_ok m" and m': "processes m' = om_update p f (processes m)" "next_process m' = next_process m"
    and f: "\<And>r. map_of (processes m) p = Some r \<Longrightarrow> pr_id (f r) = pr_id r \<and> pr_parent (f r) = pr_parent r \<and> pr_state (f r) = pr_state r \<and>
       pr_children (f r) = pr_children r \<and> (pr_state r = Terminated \<longrightarrow> pr_threads (f r) = {})"
  shows "processes_ok m'"
proof -
  note d = processes_ok_dest [OF ok]
  have act: "active_child (om_update p f (processes m)) q c = active_child (processes m) q c" for q c
    by (rule active_child_update) (use f in blast)
  have "process_ok (processes m') q r" if r: "map_of (processes m') q = Some r" for q r
  proof (cases "q = p")
    case True
    then obtain r0 where "map_of (processes m) p = Some r0" "r = f r0" using r by (auto simp: m')
    then show ?thesis using d(2) [of p r0] f [of r0] True unfolding process_ok_def m' act by auto
  next
    case False
    then show ?thesis using r d(2) [of q r] unfolding process_ok_def m' act by auto
  qed
  then show ?thesis using d(1,3) by (simp add: processes_ok_def m')
qed

text \<open>Insertion of a new process below an existing parent.\<close>

lemma new_process_inv:
  assumes inv: "proc_inv m" and i: "map_of (processes m) i = None" "i \<noteq> 0" "i < n" "next_process m \<le> n"
    and parent: "\<And>q. parent = Some q \<Longrightarrow> map_of (processes m) q \<noteq> None"
  shows "proc_inv (m\<lparr>next_process := n, processes := adopt_child parent i (om_insert i (new_process_record i parent img section) (processes m))\<rparr>)"
    (is "proc_inv ?m")
proof -
  let ?new = "new_process_record i parent img section"
  note dm = proc_inv_dest [OF inv] note d = processes_ok_dest [OF dm(1)]
  define g :: "nat \<Rightarrow> process_record \<Rightarrow> process_record" where "g q r = (if parent = Some q then r\<lparr>pr_children := insert i (pr_children r)\<rparr> else r)" for q r
  have g: "pr_parent (g q r) = pr_parent r" "pr_state (g q r) = pr_state r" "pr_id (g q r) = pr_id r" "pr_threads (g q r) = pr_threads r" for q r
    by (simp_all add: g_def)
  have new: "pr_parent ?new = parent" "pr_state ?new = Active" "pr_id ?new = i" "pr_threads ?new = {}" "pr_children ?new = {}"
    by (simp_all add: new_process_record_def)
  have np: "parent \<noteq> Some i" using parent i(1) by blast
  have look: "map_of (processes ?m) q = (if q = i then Some ?new else map_option (g q) (map_of (processes m) q))" for q
    using np by (cases parent; cases "map_of (processes m) q") (auto simp: adopt_child_def g_def)
  have act: "active_child (processes ?m) q c \<longleftrightarrow> (if c = i then parent = Some q else active_child (processes m) q c)" for q c
    unfolding active_child_def look by (auto simp: g new)
  have iact: "\<not> active_child (processes m) q i" for q using i(1) by (simp add: active_child_def)
  have nochild: "\<not> active_child (processes m) i c" for c
    using d(2) i(1) unfolding active_child_def process_ok_def by blast
  have ok: "process_ok (processes ?m) q r" if r: "map_of (processes ?m) q = Some r" for q r
  proof (cases "q = i")
    case True
    have "map_of (processes ?m) p \<noteq> None" if "parent = Some p" for p using parent [OF that] unfolding look by simp
    then show ?thesis using r True np nochild i(2) new unfolding process_ok_def act look by auto
  next
    case False
    then obtain r0 where r0: "map_of (processes m) q = Some r0" "r = g q r0" using r unfolding look by auto
    have "map_of (processes ?m) p \<noteq> None" if "map_of (processes m) p \<noteq> None" for p using that unfolding look by simp
    moreover have "pr_children r = {c. active_child (processes ?m) q c}"
      using d(2) [OF r0(1)] iact unfolding act r0(2) process_ok_def g_def by auto
    ultimately show ?thesis using d(2) [OF r0(1)] unfolding process_ok_def r0(2) g by blast
  qed
  have fresh: "fresh_ids (processes ?m) n"
  proof -
    have "fresh_ids (om_insert i ?new (processes m)) n"
      using fresh_ids_mono [OF d(1) i(4)] i(3) unfolding fresh_ids_def by auto
    then show ?thesis by (cases parent) (auto simp: adopt_child_def)
  qed
  have "processes_ok ?m" using fresh ok d(3) i(4) by (simp add: processes_ok_def)
  moreover have "threads_ok ?m"
  proof -
    note t = threads_ok_dest [OF dm(2)]
    have 1: "tr_id r = x \<and> x \<noteq> 0 \<and> (\<exists>q. map_of (processes ?m) (tr_process r) = Some q \<and> (is_live r \<longrightarrow> x \<in> pr_threads q))"
      if "map_of (pm_threads m) x = Some r" for x r
      using t(3) [OF that] i(1) unfolding look by (auto simp: g)
    have 2: "\<exists>r. map_of (pm_threads m) x = Some r \<and> tr_process r = q" if "map_of (processes ?m) q = Some r'" "x \<in> pr_threads r'" for q r' x
      using that t(4) unfolding look by (auto simp: g new split: if_splits)
    show ?thesis using t(1,2) 1 2 unfolding threads_ok_def by simp
  qed
  moreover have grow: "map_of (processes ?m) q \<noteq> None" if "map_of (processes m) q \<noteq> None" for q using that unfolding look by simp
  have "handles_ok ?m" by (rule handles_ok_grow [OF dm(3)], simp, simp, erule grow, simp)
  ultimately show ?thesis by (simp add: proc_inv_def)
qed

lemma create_process_inv:
  assumes inv: "proc_inv m"
  shows "proc_inv (snd (create_process m parent img section))"
proof (cases "str_trim img = [] \<or> str_contains img (CHR 0x00)")
  case True
  then show ?thesis using inv by (auto simp: create_process_def)
next
  case False
  let ?check = "case parent of None \<Rightarrow> Ok ()
     | Some p \<Rightarrow> rbind (ok_or (map_of (processes m) p) STATUS_INVALID_HANDLE) (\<lambda>r.
         if pr_state r = Terminated then Err STATUS_PROCESS_IS_TERMINATING else Ok ())"
  note d = processes_ok_dest [OF proc_inv_dest(1) [OF inv]]
  have absent: "map_of (processes m) (next_process m) = None" by (rule fresh_ids_absent [OF d(1)]) simp
  have "proc_inv (m\<lparr>next_process := next_process m + 4,
      processes := adopt_child parent (next_process m) (om_insert (next_process m) (new_process_record (next_process m) parent img section) (processes m))\<rparr>)"
    if "?check = Ok ()"
  proof (rule new_process_inv [OF inv absent])
    show "map_of (processes m) q \<noteq> None" if "parent = Some q" for q
      using \<open>?check = Ok ()\<close> that by (cases "map_of (processes m) q") simp_all
  qed (use d(3) in simp_all)
  moreover have "create_process m parent img section = attempt ?check m (\<lambda>_. if next_process m + 4 > u32_max then (Panic, m)
      else (Ok (next_process m), m\<lparr>next_process := next_process m + 4,
      processes := adopt_child parent (next_process m) (om_insert (next_process m) (new_process_record (next_process m) parent img section) (processes m))\<rparr>))"
    using False by (simp add: create_process_def Let_def)
  ultimately show ?thesis using inv by (cases ?check) simp_all
qed

lemma ensure_process_inv:
  assumes inv: "proc_inv m"
  shows "proc_inv (snd (ensure_process m i img parent))"
proof (cases "i \<noteq> 0 \<and> map_of (processes m) i = None \<and> \<not> (case parent of None \<Rightarrow> False | Some p \<Rightarrow> map_of (processes m) p = None)")
  case True
  then have "proc_inv (m\<lparr>next_process := max (next_process m) (i + 4),
      processes := adopt_child parent i (om_insert i (new_process_record i parent img None) (processes m))\<rparr>)"
    by (intro new_process_inv [OF inv]) (auto split: option.splits)
  then show ?thesis using inv by (simp add: ensure_process_def)
next
  case False
  then have "snd (ensure_process m i img parent) = m" by (auto simp: ensure_process_def)
  then show ?thesis using inv by simp
qed

lemma threads_finite:
  assumes inv: "proc_inv m" and q: "map_of (processes m) p = Some q"
  shows "finite (pr_threads q)"
proof (rule finite_subset)
  show "pr_threads q \<subseteq> dom (map_of (pm_threads m))" using threads_ok_dest(4) [OF proc_inv_dest(2) [OF inv] q] by blast
qed (rule finite_dom_map_of)

lemma insert_thread_inv:
  assumes inv: "proc_inv m" and q: "map_of (processes m) p = Some q" "pr_state q = Active"
    and i: "map_of (pm_threads m) i = None" "i \<noteq> 0" "i < n" "next_thread m \<le> n"
  shows "proc_inv (insert_thread i p start st (m\<lparr>next_thread := n\<rparr>))" (is "proc_inv ?m")
proof -
  note dm = proc_inv_dest [OF inv] note t = threads_ok_dest [OF dm(2)]
  have "processes_ok ?m"
    by (rule processes_ok_update [OF dm(1), where p = p and f = "\<lambda>r. r\<lparr>pr_threads := insert i (pr_threads r)\<rparr>"])
      (use q in \<open>auto simp: insert_thread_def\<close>)
  moreover have "threads_ok ?m"
  proof -
    have look: "map_of (pm_threads ?m) x = (if x = i then Some \<lparr>tr_id = i, tr_process = p, tr_start_routine = start, tr_state = st\<rparr>
        else map_of (pm_threads m) x)" for x by (simp add: insert_thread_def)
    have ps: "map_of (processes ?m) u = (if u = p then Some (q\<lparr>pr_threads := insert i (pr_threads q)\<rparr>) else map_of (processes m) u)" for u
      using q(1) by (simp add: insert_thread_def)
    have "fresh_ids (pm_threads ?m) n"
      using fresh_ids_mono [OF t(1) i(4)] i(3) by (auto simp: insert_thread_def fresh_ids_def)
    moreover have "tr_id r = x \<and> x \<noteq> 0 \<and> (\<exists>u. map_of (processes ?m) (tr_process r) = Some u \<and> (is_live r \<longrightarrow> x \<in> pr_threads u))"
      if "map_of (pm_threads ?m) x = Some r" for x r
    proof (cases "x = i")
      case True
      then show ?thesis using that i(2) unfolding look ps by auto
    next
      case False
      then show ?thesis using that t(3) [of x r] q(1) unfolding look ps by auto
    qed
    moreover have "\<exists>r. map_of (pm_threads ?m) x = Some r \<and> tr_process r = u"
      if "map_of (processes ?m) u = Some r'" "x \<in> pr_threads r'" for u r' x
    proof (cases "x = i")
      case True
      have "u = p" using that True t(4) [of u r' i] i(1) unfolding ps by (auto split: if_splits)
      then show ?thesis using True unfolding look by simp
    next
      case False
      then show ?thesis using that t(4) [of u _ x] q(1) unfolding look ps by (auto split: if_splits)
    qed
    moreover have "next_thread ?m = n" by (simp add: insert_thread_def)
    ultimately show ?thesis using t(2) i(4) unfolding threads_ok_def by auto
  qed
  moreover have "handles_ok ?m" by (rule handles_ok_grow [OF dm(3)]) (auto simp: insert_thread_def)
  ultimately show ?thesis by (simp add: proc_inv_def)
qed

lemma next_thread_inv:
  assumes inv: "proc_inv m" and n: "next_thread m \<le> n"
  shows "proc_inv (m\<lparr>next_thread := n\<rparr>)"
proof -
  note dm = proc_inv_dest [OF inv] note t = threads_ok_dest [OF dm(2)]
  have "threads_ok (m\<lparr>next_thread := n\<rparr>)"
    using dm(2) n fresh_ids_mono [OF t(1) n] unfolding threads_ok_def by auto
  moreover have "processes_ok (m\<lparr>next_thread := n\<rparr>)" using dm(1) by (simp add: processes_ok_def)
  moreover have "handles_ok (m\<lparr>next_thread := n\<rparr>)" by (rule handles_ok_grow [OF dm(3)]) simp_all
  ultimately show ?thesis by (simp add: proc_inv_def)
qed

lemma create_thread_ex_inv:
  assumes inv: "proc_inv m"
  shows "proc_inv (snd (snd (create_thread_ex attach m s p start ctx base sz)))"
proof (cases "map_of (processes m) p")
  case None
  then show ?thesis using inv by (simp add: create_thread_ex_def)
next
  case (Some q)
  show ?thesis
  proof (cases "pr_state q = Terminated \<or> start = 0 \<or> next_thread m + 4 > u32_max")
    case True
    then show ?thesis using inv Some by (auto simp: create_thread_ex_def Let_def)
  next
    case False
    then have act: "pr_state q = Active" by (cases "pr_state q") auto
    obtain a s1 where at: "attach p (next_thread m) start ctx base sz s = (a, s1)" by fastforce
    note t = threads_ok_dest [OF proc_inv_dest(2) [OF inv]]
    have "map_of (pm_threads m) (next_thread m) = None" by (rule fresh_ids_absent [OF t(1)]) simp
    then have "proc_inv (insert_thread (next_thread m) p start TsReady (m\<lparr>next_thread := next_thread m + 4\<rparr>))"
      using t(2) by (intro insert_thread_inv [OF inv Some act]) simp_all
    then show ?thesis using False Some at next_thread_inv [OF inv, of "next_thread m + 4"]
      by (cases a) (simp_all add: create_thread_ex_def Let_def)
  qed
qed

lemma ensure_thread_inv:
  assumes inv: "proc_inv m"
  shows "proc_inv (snd (ensure_thread m p i start))"
proof (cases "map_of (processes m) p")
  case None
  then show ?thesis using inv by (simp add: ensure_thread_def)
next
  case (Some q)
  show ?thesis
  proof (cases "i \<noteq> 0 \<and> pr_state q = Active \<and> map_of (pm_threads m) i = None")
    case True
    then have "proc_inv (insert_thread i p start TsRunning (m\<lparr>next_thread := max (next_thread m) (i + 4)\<rparr>))"
      by (intro insert_thread_inv [OF inv Some]) simp_all
    then show ?thesis using inv Some by (simp add: ensure_thread_def)
  next
    case False
    then show ?thesis using inv Some by (cases "pr_state q") (auto simp: ensure_thread_def)
  qed
qed

text \<open>Changes of one thread record that do not revive it.\<close>

lemma thread_state_inv:
  assumes inv: "proc_inv m" and f: "\<And>r. tr_id (f r) = tr_id r \<and> tr_process (f r) = tr_process r \<and> (is_live (f r) \<longrightarrow> is_live r)"
  shows "proc_inv (m\<lparr>pm_threads := om_update t f (pm_threads m)\<rparr>)" (is "proc_inv ?m")
proof -
  note dm = proc_inv_dest [OF inv] note d = threads_ok_dest [OF dm(2)]
  have "threads_ok ?m"
  proof (rule threads_okI)
    show "fresh_ids (pm_threads ?m) (next_thread ?m)" "0 < next_thread ?m" using d(1,2) by simp_all
    fix x r assume x: "map_of (pm_threads ?m) x = Some r"
    show "tr_id r = x \<and> x \<noteq> 0 \<and> (\<exists>q. map_of (processes ?m) (tr_process r) = Some q \<and> (is_live r \<longrightarrow> x \<in> pr_threads q))"
    proof (cases "x = t")
      case True
      then obtain r0 where "map_of (pm_threads m) t = Some r0" "r = f r0" using x by auto
      then show ?thesis using d(3) [of t r0] f [of r0] True by auto
    qed (use x d(3) [of x r] in auto)
  next
    fix p q x assume px: "map_of (processes ?m) p = Some q" "x \<in> pr_threads q"
    then obtain r where "map_of (pm_threads m) x = Some r" "tr_process r = p" using d(4) [of p q x] by auto
    then show "\<exists>r. map_of (pm_threads ?m) x = Some r \<and> tr_process r = p" using f [of r] by (cases "x = t") simp_all
  qed
  moreover have "processes_ok ?m" using dm(1) by (simp add: processes_ok_def)
  moreover have "handles_ok ?m" by (rule handles_ok_grow [OF dm(3)]) auto
  ultimately show ?thesis by (simp add: proc_inv_def)
qed

lemma mark_terminated_inv: "proc_inv m \<Longrightarrow> proc_inv (mark_terminated t m)"
  unfolding mark_terminated_def by (rule thread_state_inv) (simp_all add: is_live_def)

lemma start_thread_inv:
  assumes inv: "proc_inv m"
  shows "proc_inv (snd (start_thread m t))"
proof (cases "\<exists>r. map_of (pm_threads m) t = Some r \<and> is_live r")
  case True
  then obtain r where r: "map_of (pm_threads m) t = Some r" "is_live r" by blast
  have "proc_inv (m\<lparr>pm_threads := om_update t (\<lambda>r. if is_live r then r\<lparr>tr_state := TsRunning\<rparr> else r) (pm_threads m)\<rparr>)"
    by (rule thread_state_inv [OF inv]) simp
  then show ?thesis using r inv by (simp add: start_thread_def om_update_def split: thread_state.split)
next
  case False
  then have "snd (start_thread m t) = m"
    by (cases "map_of (pm_threads m) t") (auto simp: start_thread_def is_live_def split: thread_state.split)
  then show ?thesis using inv by simp
qed

lemma forget_thread_inv:
  assumes inv: "proc_inv m" and t: "\<And>r. map_of (pm_threads m) t = Some r \<Longrightarrow> \<not> is_live r"
  shows "proc_inv (m\<lparr>processes := om_update p (\<lambda>q. q\<lparr>pr_threads := pr_threads q - {t}\<rparr>) (processes m)\<rparr>)" (is "proc_inv ?m")
proof -
  note dm = proc_inv_dest [OF inv] note d = threads_ok_dest [OF dm(2)] note pd = processes_ok_dest [OF dm(1)]
  have "processes_ok ?m"
    by (rule processes_ok_update [OF dm(1), where p = p and f = "\<lambda>q. q\<lparr>pr_threads := pr_threads q - {t}\<rparr>"])
      (use pd(2) in \<open>auto simp: process_ok_def\<close>)
  moreover have "threads_ok ?m"
  proof (rule threads_okI)
    show "fresh_ids (pm_threads ?m) (next_thread ?m)" "0 < next_thread ?m" using d(1,2) by simp_all
    fix x r assume "map_of (pm_threads ?m) x = Some r"
    then have x: "map_of (pm_threads m) x = Some r" by simp
    obtain q where q: "map_of (processes m) (tr_process r) = Some q" "is_live r \<longrightarrow> x \<in> pr_threads q" using d(3) [OF x] by blast
    have "x \<noteq> t" if "is_live r" using that t x by blast
    then show "tr_id r = x \<and> x \<noteq> 0 \<and> (\<exists>q. map_of (processes ?m) (tr_process r) = Some q \<and> (is_live r \<longrightarrow> x \<in> pr_threads q))"
      using q d(3) [OF x] by (cases "tr_process r = p") auto
  next
    fix u q x assume px: "map_of (processes ?m) u = Some q" "x \<in> pr_threads q"
    then obtain q0 where "map_of (processes m) u = Some q0" "x \<in> pr_threads q0" by (auto split: if_splits)
    then show "\<exists>r. map_of (pm_threads ?m) x = Some r \<and> tr_process r = u" using d(4) [of u q0 x] by simp
  qed
  moreover have "handles_ok ?m" by (rule handles_ok_grow [OF dm(3)]) auto
  ultimately show ?thesis by (simp add: proc_inv_def)
qed

lemma terminate_thread_inv:
  assumes inv: "proc_inv m"
  shows "proc_inv (snd (snd (terminate_thread detach m s t)))"
proof (cases "map_of (pm_threads m) t")
  case None
  then show ?thesis using inv by (simp add: terminate_thread_def)
next
  case (Some r)
  obtain a s1 where at: "detach (tr_process r) t s = (a, s1)" by fastforce
  have dead: "\<not> is_live r'" if "map_of (pm_threads (mark_terminated t m)) t = Some r'" for r'
    using that by (auto simp: mark_terminated_def is_live_def)
  have "proc_inv ((mark_terminated t m)\<lparr>processes := om_update (tr_process r) (\<lambda>q. q\<lparr>pr_threads := pr_threads q - {t}\<rparr>)
      (processes (mark_terminated t m))\<rparr>)"
    using dead by (rule forget_thread_inv [OF mark_terminated_inv [OF inv]])
  moreover have "processes (mark_terminated t m) = processes m" by (simp add: mark_terminated_def)
  ultimately show ?thesis using inv Some at by (cases a) (simp_all add: terminate_thread_def)
qed

text \<open>The loop only marks threads, and when it succeeds it has marked all of them.\<close>

lemma fold_mark_terminated:
  "processes (fold mark_terminated ts m) = processes m" "pm_handles (fold mark_terminated ts m) = pm_handles m"
  "next_process (fold mark_terminated ts m) = next_process m"
  "map_of (pm_threads (fold mark_terminated ts m)) t =
     (if t \<in> set ts then map_option (\<lambda>r. r\<lparr>tr_state := TsTerminated\<rparr>) (map_of (pm_threads m) t) else map_of (pm_threads m) t)"
  by (induction ts arbitrary: m) (auto simp: mark_terminated_def option.map_comp comp_def)

lemma fold_mark_terminated_inv: "proc_inv m \<Longrightarrow> proc_inv (fold mark_terminated ts m)"
  by (induction ts arbitrary: m) (auto intro: mark_terminated_inv)

lemma detach_all_marks: "\<exists>ts'. snd (snd (detach_all detach p ts n s m)) = fold mark_terminated ts' m"
proof (induction ts arbitrary: n s m)
  case Nil
  then show ?case by (auto intro: exI [of _ "[]"])
next
  case (Cons t ts)
  obtain a s1 where at: "detach p t s = (a, s1)" by fastforce
  obtain ts' where ts': "snd (snd (detach_all detach p ts (n + 1) s1 (mark_terminated t m))) = fold mark_terminated ts' (mark_terminated t m)"
    using Cons.IH by blast
  show ?case
  proof (cases a)
    case (Ok u)
    then show ?thesis using at ts' by (auto intro: exI [of _ "t # ts'"])
  qed (use at in \<open>auto intro: exI [of _ "[]"]\<close>)
qed

lemma detach_all_Ok:
  "detach_all detach p ts n s m = (Ok k, s1, m1) \<Longrightarrow> k = n + length ts \<and> m1 = fold mark_terminated ts m"
proof (induction ts arbitrary: n s m)
  case (Cons t ts)
  obtain a s2 where at: "detach p t s = (a, s2)" by fastforce
  show ?case using Cons at by (cases a) fastforce+
qed simp

text \<open>The last steps of a termination: every thread of the process is marked, the record is closed and
  leaves its parent's children.\<close>

definition close_record :: "nat \<Rightarrow> process_record \<Rightarrow> process_manager \<Rightarrow> process_manager" where
  "close_record p r m =
     (let ps = om_update p (\<lambda>q. q\<lparr>pr_threads := {}, pr_state := Terminated, pr_exit_status := STATUS_PROCESS_IS_TERMINATING\<rparr>) (processes m)
      in m\<lparr>processes := (case pr_parent r of None \<Rightarrow> ps | Some q \<Rightarrow> om_update q (\<lambda>q. q\<lparr>pr_children := pr_children q - {p}\<rparr>) ps)\<rparr>)"

lemma close_record_processes:
  assumes r: "map_of (processes m) p = Some r" and par: "pr_parent r \<noteq> Some p"
  shows "map_of (processes (close_record p r m)) q =
    (if q = p then Some (r\<lparr>pr_threads := {}, pr_state := Terminated, pr_exit_status := STATUS_PROCESS_IS_TERMINATING\<rparr>)
     else if pr_parent r = Some q then map_option (\<lambda>q. q\<lparr>pr_children := pr_children q - {p}\<rparr>) (map_of (processes m) q)
     else map_of (processes m) q)"
  using assms by (cases "pr_parent r") (auto simp: close_record_def Let_def)

lemma close_record_fields:
  "pm_threads (close_record p r m) = pm_threads m" "pm_handles (close_record p r m) = pm_handles m"
  "next_process (close_record p r m) = next_process m" "next_thread (close_record p r m) = next_thread m"
  "pm_next_handle (close_record p r m) = pm_next_handle m"
  by (simp_all add: close_record_def Let_def)

lemma close_record_inv:
  assumes inv: "proc_inv m" and r: "map_of (processes m) p = Some r"
    and dead: "\<And>t u. t \<in> pr_threads r \<Longrightarrow> map_of (pm_threads m) t = Some u \<Longrightarrow> \<not> is_live u"
  shows "proc_inv (close_record p r m)" (is "proc_inv ?m")
proof -
  note dm = proc_inv_dest [OF inv] note d = processes_ok_dest [OF dm(1)] note t = threads_ok_dest [OF dm(2)]
  have par: "pr_parent r \<noteq> Some p" using d(2) [OF r] by (auto simp: process_ok_def)
  note look = close_record_processes [OF r par]
  define g :: "nat \<Rightarrow> process_record \<Rightarrow> process_record" where "g q u = (if pr_parent r = Some q then u\<lparr>pr_children := pr_children u - {p}\<rparr> else u)" for q u
  have g: "pr_parent (g q u) = pr_parent u" "pr_state (g q u) = pr_state u" "pr_id (g q u) = pr_id u" "pr_threads (g q u) = pr_threads u" for q u
    by (simp_all add: g_def)
  have look': "map_of (processes ?m) q = map_option (g q) (map_of (processes m) q)" if "q \<noteq> p" for q
    using that unfolding look by (cases "map_of (processes m) q") (simp_all add: g_def)
  have act: "active_child (processes ?m) q c \<longleftrightarrow> active_child (processes m) q c \<and> c \<noteq> p" for q c
  proof (cases "c = p")
    case True
    then show ?thesis unfolding active_child_def look by simp
  next
    case False
    then show ?thesis unfolding active_child_def look' [OF False] by (auto simp: g)
  qed
  have keep: "map_of (processes ?m) q \<noteq> None" if "map_of (processes m) q \<noteq> None" for q using that r unfolding look by simp
  have "process_ok (processes ?m) q u" if u: "map_of (processes ?m) q = Some u" for q u
  proof (cases "q = p")
    case True
    have "\<not> active_child (processes m) p p" using par r by (simp add: active_child_def)
    then have "{c. active_child (processes m) p c \<and> c \<noteq> p} = {c. active_child (processes m) p c}" by blast
    then show ?thesis using u True d(2) [OF r] keep unfolding process_ok_def act look by auto
  next
    case False
    then obtain u0 where u0: "map_of (processes m) q = Some u0" "u = g q u0" using u unfolding look' [OF False] by auto
    have "\<not> active_child (processes m) q p" if "pr_parent r \<noteq> Some q" using that r by (simp add: active_child_def)
    then have "pr_children u = {c. active_child (processes m) q c \<and> c \<noteq> p}"
      using d(2) [OF u0(1)] unfolding u0(2) process_ok_def g_def by auto
    then show ?thesis using d(2) [OF u0(1)] keep unfolding process_ok_def act u0(2) g by blast
  qed
  moreover have "fresh_ids (processes ?m) (next_process m)"
    using d(1) by (cases "pr_parent r") (simp_all add: close_record_def Let_def)
  ultimately have "processes_ok ?m" using d(3) by (simp add: processes_ok_def close_record_fields)
  moreover have "threads_ok ?m"
  proof -
    have 1: "\<exists>q. map_of (processes ?m) (tr_process u) = Some q \<and> (is_live u \<longrightarrow> x \<in> pr_threads q)"
      if x: "map_of (pm_threads m) x = Some u" for x u
    proof -
      obtain q where q: "map_of (processes m) (tr_process u) = Some q" "is_live u \<longrightarrow> x \<in> pr_threads q" using t(3) [OF x] by blast
      have "\<not> is_live u" if "tr_process u = p" using that q r dead x by auto
      then show ?thesis using q keep [of p] r look' [of "tr_process u"] by (cases "tr_process u = p") (auto simp: g)
    qed
    have 2: "\<exists>u. map_of (pm_threads m) x = Some u \<and> tr_process u = q" if q: "map_of (processes ?m) q = Some u'" "x \<in> pr_threads u'" for q u' x
    proof -
      have "q \<noteq> p" using q unfolding look by auto
      then show ?thesis using q t(4) [of q] unfolding look' [OF \<open>q \<noteq> p\<close>] by (auto simp: g)
    qed
    show ?thesis using t(1,2,3) 1 2 unfolding threads_ok_def close_record_fields by blast
  qed
  moreover have "handles_ok ?m"
    by (rule handles_ok_grow [OF dm(3)], simp add: close_record_fields, simp add: close_record_fields, erule keep, simp add: close_record_fields)
  ultimately show ?thesis by (simp add: proc_inv_def)
qed

lemma terminate_process_cases:
  assumes inv: "proc_inv m" and r: "map_of (processes m) p = Some r" and act: "pr_state r = Active"
    and all: "detach_all detach p (sorted_list_of_set (pr_threads r)) 0 s m = (a, s1, m1)"
  shows "terminate_process detach m s p = (case a of Ok n \<Rightarrow> (Ok n, s1, close_record p r m1) | Err e \<Rightarrow> (Err e, s1, m1) | Panic \<Rightarrow> (Panic, s1, m1))"
  using r act all by (cases a) (simp_all add: terminate_process_def close_record_def Let_def)

lemma terminate_process_inv:
  assumes inv: "proc_inv m"
  shows "proc_inv (snd (snd (terminate_process detach m s p)))"
proof (cases "\<exists>r. map_of (processes m) p = Some r \<and> pr_state r = Active")
  case False
  have "pr_state r = Terminated" if "map_of (processes m) p = Some r" for r using False that by (cases "pr_state r") auto
  then have "snd (snd (terminate_process detach m s p)) = m"
    by (cases "map_of (processes m) p") (auto simp: terminate_process_def)
  then show ?thesis using inv by simp
next
  case True
  then obtain r where r: "map_of (processes m) p = Some r" "pr_state r = Active" by blast
  let ?ts = "sorted_list_of_set (pr_threads r)"
  obtain a s1 m1 where all: "detach_all detach p ?ts 0 s m = (a, s1, m1)" by (metis prod.exhaust)
  obtain ts' where m1: "m1 = fold mark_terminated ts' m" using detach_all_marks [of detach p ?ts 0 s m] all by auto
  have inv1: "proc_inv m1" unfolding m1 by (rule fold_mark_terminated_inv [OF inv])
  show ?thesis
  proof (cases a)
    case (Ok n)
    have m1: "m1 = fold mark_terminated ?ts m" using detach_all_Ok [OF all [unfolded Ok]] by blast
    have r1: "map_of (processes m1) p = Some r" using r(1) by (simp add: m1 fold_mark_terminated)
    have "proc_inv (close_record p r m1)"
    proof (rule close_record_inv [OF inv1 r1])
      fix t u assume "t \<in> pr_threads r" "map_of (pm_threads m1) t = Some u"
      then show "\<not> is_live u" using threads_finite [OF inv r(1)] by (auto simp: m1 fold_mark_terminated is_live_def)
    qed
    then show ?thesis using terminate_process_cases [OF inv r all] Ok by simp
  qed (use inv1 terminate_process_cases [OF inv r all] in simp_all)
qed

section \<open>The handle table\<close>

lemma lookup_process_handle_Ok:
  "lookup_process_handle m owner h = Ok e \<longleftrightarrow> h \<noteq> 0 \<and> map_of (pm_handles m) h = Some e \<and> ph_owner e = owner"
  by (auto simp: lookup_process_handle_def split: option.splits)

lemma require_owner_Ok: "require_owner m owner = Ok () \<longleftrightarrow> (\<exists>r. map_of (processes m) owner = Some r \<and> pr_state r = Active)"
proof (cases "map_of (processes m) owner")
  case (Some r)
  then show ?thesis by (cases "pr_state r") (simp_all add: require_owner_def)
qed (simp add: require_owner_def)

lemma handles_only_inv:
  assumes inv: "proc_inv m" and m': "processes m' = processes m" "pm_threads m' = pm_threads m" "next_process m' = next_process m"
      "next_thread m' = next_thread m" and h: "handles_ok m'"
  shows "proc_inv m'"
  using inv h unfolding proc_inv_def processes_ok_def threads_ok_def m' by blast

lemma ph_entry_ok_cong: "processes m' = processes m \<Longrightarrow> pm_threads m' = pm_threads m \<Longrightarrow> ph_entry_ok m' e = ph_entry_ok m e"
  by (cases "ph_target e") (simp_all add: ph_entry_ok_def)

lemma insert_process_handle_fields:
  "processes (snd (insert_process_handle m owner target access inh)) = processes m"
  "pm_threads (snd (insert_process_handle m owner target access inh)) = pm_threads m"
  "next_process (snd (insert_process_handle m owner target access inh)) = next_process m"
  "next_thread (snd (insert_process_handle m owner target access inh)) = next_thread m"
  "pm_next_handle (snd (insert_process_handle m owner target access inh)) = saturating_add32 (pm_next_handle m) 4"
  "pm_handles (snd (insert_process_handle m owner target access inh)) =
     om_insert (pm_next_handle m) \<lparr>ph_owner = owner, ph_target = target, ph_access = access, ph_inheritable = inh\<rparr> (pm_handles m)"
  by (simp_all add: insert_process_handle_def Let_def)

lemma insert_process_handle_Ok:
  "insert_process_handle m owner target access inh = (Ok (pm_next_handle m), snd (insert_process_handle m owner target access inh))"
  by (simp add: insert_process_handle_def Let_def)

lemma insert_process_handle_inv:
  assumes inv: "proc_inv m" and e: "ph_entry_ok m \<lparr>ph_owner = owner, ph_target = target, ph_access = access, ph_inheritable = inh\<rparr>"
  shows "proc_inv (snd (insert_process_handle m owner target access inh))" (is "proc_inv ?m")
proof -
  note f = insert_process_handle_fields [of m owner target access inh]
  have "ph_entry_ok ?m x = ph_entry_ok m x" for x by (rule ph_entry_ok_cong) (simp_all add: f)
  then have "handles_ok ?m" using proc_inv_dest(3) [OF inv] e by (auto simp: handles_ok_def f saturating_add32_def u32_max_def)
  then show ?thesis using f by (intro handles_only_inv [OF inv]) simp_all
qed

lemma open_process_inv:
  assumes inv: "proc_inv m"
  shows "proc_inv (snd (open_process m owner target access inh))"
proof (cases "require_owner m owner = Ok () \<and> map_of (processes m) target \<noteq> None \<and> access \<noteq> 0 \<and> access AND NOT PROCESS_ALL_ACCESS = 0")
  case True
  then have "ph_entry_ok m \<lparr>ph_owner = owner, ph_target = ProcessTarget target, ph_access = access, ph_inheritable = inh\<rparr>"
    by (auto simp: ph_entry_ok_def require_owner_Ok and_not_eq_0_covers)
  then show ?thesis using insert_process_handle_inv [OF inv] inv True by (auto simp: open_process_def)
next
  case False
  then have "snd (open_process m owner target access inh) = m"
    by (cases "require_owner m owner"; cases "map_of (processes m) target") (auto simp: open_process_def)
  then show ?thesis using inv by simp
qed

lemma open_thread_inv:
  assumes inv: "proc_inv m"
  shows "proc_inv (snd (open_thread m owner target access inh))"
proof (cases "require_owner m owner = Ok () \<and> map_of (pm_threads m) target \<noteq> None \<and> access \<noteq> 0 \<and> access AND NOT THREAD_ALL_ACCESS = 0")
  case True
  then have "ph_entry_ok m \<lparr>ph_owner = owner, ph_target = ThreadTarget target, ph_access = access, ph_inheritable = inh\<rparr>"
    by (auto simp: ph_entry_ok_def require_owner_Ok and_not_eq_0_covers)
  then show ?thesis using insert_process_handle_inv [OF inv] inv True by (auto simp: open_thread_def)
next
  case False
  then have "snd (open_thread m owner target access inh) = m"
    by (cases "require_owner m owner"; cases "map_of (pm_threads m) target") (auto simp: open_thread_def)
  then show ?thesis using inv by simp
qed

lemma ph_entry_ok_narrow:
  assumes e: "ph_entry_ok m e" and a: "covers (ph_access e) access" "access \<noteq> 0" and o: "map_of (processes m) owner \<noteq> None"
  shows "ph_entry_ok m \<lparr>ph_owner = owner, ph_target = ph_target e, ph_access = access, ph_inheritable = inh\<rparr>"
  using e a o by (cases "ph_target e") (auto simp: ph_entry_ok_def intro: covers_trans)

lemma ph_entry_ok_get: "proc_inv m \<Longrightarrow> map_of (pm_handles m) h = Some e \<Longrightarrow> ph_entry_ok m e"
  by (simp add: proc_inv_def handles_ok_def)

lemma duplicate_process_handle_inv:
  assumes inv: "proc_inv m"
  shows "proc_inv (snd (duplicate_process_handle m owner source access inh))"
proof (cases "lookup_process_handle m owner source")
  case (Ok e)
  let ?a = "if access = 0 then ph_access e else access"
  have e: "ph_entry_ok m e" using ph_entry_ok_get [OF inv, of source e] Ok by (simp add: lookup_process_handle_Ok)
  have own: "map_of (processes m) owner \<noteq> None" using e Ok by (auto simp: ph_entry_ok_def lookup_process_handle_Ok)
  have nz: "?a \<noteq> 0" using e by (simp add: ph_entry_ok_def)
  show ?thesis
  proof (cases "?a AND NOT (ph_access e) = 0")
    case True
    then have "ph_entry_ok m \<lparr>ph_owner = owner, ph_target = ph_target e, ph_access = ?a, ph_inheritable = inh\<rparr>"
      unfolding and_not_eq_0_covers by (rule ph_entry_ok_narrow [OF e _ nz own])
    then show ?thesis using insert_process_handle_inv [OF inv, of owner "ph_target e" ?a inh] Ok True
      unfolding duplicate_process_handle_def Ok attempt_simps Let_def by simp
  next
    case False
    then show ?thesis using inv unfolding duplicate_process_handle_def Ok attempt_simps Let_def by simp
  qed
qed (use inv in \<open>simp_all add: duplicate_process_handle_def\<close>)

lemma inherit_all_inv:
  "proc_inv m \<Longrightarrow> map_of (processes m) child \<noteq> None \<Longrightarrow>
   (\<And>t a. (t, a) \<in> set l \<Longrightarrow> ph_entry_ok m \<lparr>ph_owner = child, ph_target = t, ph_access = a, ph_inheritable = True\<rparr>) \<Longrightarrow>
   proc_inv (snd (inherit_all child l created m))"
proof (induction l arbitrary: created m)
  case (Cons x l)
  obtain t a where x: "x = (t, a)" by (cases x)
  let ?m = "snd (insert_process_handle m child t a True)"
  have ent: "ph_entry_ok ?m y = ph_entry_ok m y" for y by (rule ph_entry_ok_cong) (simp_all add: insert_process_handle_fields)
  have ps: "processes ?m = processes m" by (simp add: insert_process_handle_fields)
  have "proc_inv ?m" using Cons.prems x by (intro insert_process_handle_inv) auto
  then have "proc_inv (snd (inherit_all child l (created @ [pm_next_handle m]) ?m))"
    using Cons.prems by (intro Cons.IH) (simp_all add: ent ps)
  moreover have "inherit_all child (x # l) created m = inherit_all child l (created @ [pm_next_handle m]) ?m"
    unfolding x inherit_all.simps by (subst insert_process_handle_Ok) simp
  ultimately show ?case by simp
qed simp

lemma inherit_process_handles_inv:
  assumes inv: "proc_inv m"
  shows "proc_inv (snd (inherit_process_handles m parent child))"
proof (cases "require_owner m parent = Ok () \<and> require_owner m child = Ok ()")
  case True
  let ?l = "map (\<lambda>e. (ph_target e, ph_access e)) (filter (\<lambda>e. ph_owner e = parent \<and> ph_inheritable e) (map snd (pm_handles m)))"
  have child: "map_of (processes m) child \<noteq> None" using True by (auto simp: require_owner_Ok)
  have "proc_inv (snd (inherit_all child ?l [] m))"
  proof (rule inherit_all_inv [OF inv child])
    fix t a assume "(t, a) \<in> set ?l"
    then obtain h e where e: "(h, e) \<in> set (pm_handles m)" "t = ph_target e" "a = ph_access e" by auto
    show "ph_entry_ok m \<lparr>ph_owner = child, ph_target = t, ph_access = a, ph_inheritable = True\<rparr>"
    proof -
      have "map_of (pm_handles m) h = Some e" using proc_inv_dest(3) [OF inv] e(1) by (simp add: handles_ok_def om_get_iff)
      then have ok: "ph_entry_ok m e" by (rule ph_entry_ok_get [OF inv])
      then show ?thesis unfolding e(2,3) using child by (intro ph_entry_ok_narrow) (simp_all add: ph_entry_ok_def)
    qed
  qed
  then show ?thesis using True by (simp add: inherit_process_handles_def)
next
  case False
  then have "snd (inherit_process_handles m parent child) = m"
    by (cases "require_owner m parent"; cases "require_owner m child") (auto simp: inherit_process_handles_def)
  then show ?thesis using inv by simp
qed

lemma fold_om_remove_get: "map_of (fold om_remove hs m) h = (if h \<in> set hs then None else map_of m h)"
  by (induction hs arbitrary: m) auto

lemma fold_om_remove_wf: "om_wf m \<Longrightarrow> om_wf (fold om_remove hs m)"
  by (induction hs arbitrary: m) auto

lemma fewer_handles_inv:
  assumes inv: "proc_inv m" and wf: "om_wf hs" and sub: "\<And>h e. map_of hs h = Some e \<Longrightarrow> map_of (pm_handles m) h = Some e"
  shows "proc_inv (m\<lparr>pm_handles := hs\<rparr>)"
proof -
  have "ph_entry_ok (m\<lparr>pm_handles := hs\<rparr>) x = ph_entry_ok m x" for x by (rule ph_entry_ok_cong) simp_all
  then have "handles_ok (m\<lparr>pm_handles := hs\<rparr>)" using proc_inv_dest(3) [OF inv] wf unfolding handles_ok_def by (auto dest: sub)
  then show ?thesis by (intro handles_only_inv [OF inv]) simp_all
qed

lemma close_process_handle_inv:
  assumes inv: "proc_inv m"
  shows "proc_inv (snd (close_process_handle m owner h))" "proc_inv (snd (close_process_handles m owner))"
proof -
  have wf: "om_wf (pm_handles m)" using proc_inv_dest(3) [OF inv] by (simp add: handles_ok_def)
  have "proc_inv (m\<lparr>pm_handles := om_remove h (pm_handles m)\<rparr>)"
    by (rule fewer_handles_inv [OF inv]) (use wf in \<open>auto split: if_splits\<close>)
  then show "proc_inv (snd (close_process_handle m owner h))"
    using inv by (cases "lookup_process_handle m owner h") (simp_all add: close_process_handle_def)
  have "proc_inv (m\<lparr>pm_handles := fold om_remove hs (pm_handles m)\<rparr>)" for hs
    by (rule fewer_handles_inv [OF inv]) (use wf in \<open>auto simp: fold_om_remove_get fold_om_remove_wf split: if_splits\<close>)
  then show "proc_inv (snd (close_process_handles m owner))" by (simp add: close_process_handles_def Let_def)
qed

lemma set_record_inv:
  assumes inv: "proc_inv m" and f: "\<And>r. pr_id (f r) = pr_id r \<and> pr_parent (f r) = pr_parent r \<and> pr_state (f r) = pr_state r \<and>
       pr_children (f r) = pr_children r \<and> pr_threads (f r) = pr_threads r"
  shows "proc_inv (m\<lparr>processes := om_update p f (processes m)\<rparr>)" (is "proc_inv ?m")
proof -
  note dm = proc_inv_dest [OF inv] note d = threads_ok_dest [OF dm(2)] note pd = processes_ok_dest [OF dm(1)]
  have "processes_ok ?m"
    by (rule processes_ok_update [OF dm(1), where p = p and f = f]) (use pd(2) f in \<open>auto simp: process_ok_def\<close>)
  moreover have "threads_ok ?m"
  proof (rule threads_okI)
    show "fresh_ids (pm_threads ?m) (next_thread ?m)" "0 < next_thread ?m" using d(1,2) by simp_all
    fix x r assume "map_of (pm_threads ?m) x = Some r"
    then have x: "map_of (pm_threads m) x = Some r" by simp
    obtain q where q: "map_of (processes m) (tr_process r) = Some q" "is_live r \<longrightarrow> x \<in> pr_threads q" using d(3) [OF x] by blast
    then show "tr_id r = x \<and> x \<noteq> 0 \<and> (\<exists>q. map_of (processes ?m) (tr_process r) = Some q \<and> (is_live r \<longrightarrow> x \<in> pr_threads q))"
      using d(3) [OF x] f [of q] by (cases "tr_process r = p") auto
  next
    fix u q x assume px: "map_of (processes ?m) u = Some q" "x \<in> pr_threads q"
    then obtain q0 where "map_of (processes m) u = Some q0" "x \<in> pr_threads q0" using f by (auto split: if_splits)
    then show "\<exists>r. map_of (pm_threads ?m) x = Some r \<and> tr_process r = u" using d(4) [of u q0 x] by simp
  qed
  moreover have "handles_ok ?m" by (rule handles_ok_grow [OF dm(3)]) auto
  ultimately show ?thesis by (simp add: proc_inv_def)
qed

lemma set_record_ops_inv:
  assumes inv: "proc_inv m"
  shows "proc_inv (snd (set_image_section m p sec))" "proc_inv (snd (set_token m p tok))"
proof -
  have u: "m\<lparr>processes := om_insert p (f r) (processes m)\<rparr> = m\<lparr>processes := om_update p f (processes m)\<rparr>"
    if "map_of (processes m) p = Some r" for f r using that by (simp add: om_update_def)
  have "proc_inv (m\<lparr>processes := om_update p (\<lambda>r. r\<lparr>pr_image_section := sec\<rparr>) (processes m)\<rparr>)"
    "proc_inv (m\<lparr>processes := om_update p (\<lambda>r. r\<lparr>pr_token := tok\<rparr>) (processes m)\<rparr>)"
    by (rule set_record_inv [OF inv], simp)+
  then show "proc_inv (snd (set_image_section m p sec))" "proc_inv (snd (set_token m p tok))"
    using inv u [of _ "\<lambda>r. r\<lparr>pr_image_section := sec\<rparr>"] u [of _ "\<lambda>r. r\<lparr>pr_token := tok\<rparr>"]
    by (cases "map_of (processes m) p"; simp add: set_image_section_def set_token_def)+
qed

section \<open>The contract of a scheduler\<close>

text \<open>Every thread listed by a process belongs to the set \<open>K\<close>, in use the threads a scheduler knows.\<close>

definition attached :: "nat set \<Rightarrow> process_manager \<Rightarrow> bool" where
  "attached K m \<longleftrightarrow> (\<forall>p r. map_of (processes m) p = Some r \<longrightarrow> pr_threads r \<subseteq> K)"

lemma attachedD: "attached K m \<Longrightarrow> map_of (processes m) p = Some r \<Longrightarrow> t \<in> pr_threads r \<Longrightarrow> t \<in> K"
  unfolding attached_def by blast

lemma attachedI: "(\<And>p r t. map_of (processes m) p = Some r \<Longrightarrow> t \<in> pr_threads r \<Longrightarrow> t \<in> K) \<Longrightarrow> attached K m"
  unfolding attached_def by blast

lemma attached_insert_thread:
  "attached K m \<Longrightarrow> attached (insert i K) (insert_thread i p start st (m\<lparr>next_thread := n\<rparr>))"
  by (rule attachedI) (auto simp: insert_thread_def dest: attachedD split: if_splits)

lemma attached_mono: "attached K m \<Longrightarrow> K \<subseteq> K' \<Longrightarrow> attached K' m"
  unfolding attached_def by blast

lemma attached_marks: "attached K (fold mark_terminated ts m) = attached K m"
  by (simp add: attached_def fold_mark_terminated)

lemma attached_close_record:
  assumes "attached K m" "map_of (processes m) p = Some r" "pr_parent r \<noteq> Some p"
  shows "attached K (close_record p r m)"
proof (rule attachedI)
  fix q u t assume "map_of (processes (close_record p r m)) q = Some u" "t \<in> pr_threads u"
  then show "t \<in> K" unfolding close_record_processes [OF assms(2,3)] by (auto split: if_splits dest: attachedD [OF assms(1)])
qed

locale thread_scheduler =
  fixes attach :: "'s attach_op" and detach :: "'s detach_op" and known :: "'s \<Rightarrow> nat set" and runnable :: "'s \<Rightarrow> nat set"
  assumes attach_Ok: "attach p t start ctx base sz s = (Ok (), s') \<Longrightarrow> known s' = insert t (known s) \<and> runnable s' = insert t (runnable s)"
    and attach_Err: "attach p t start ctx base sz s = (Err e, s') \<Longrightarrow> known s' = known s \<and> runnable s' = runnable s"
    and attach_no_panic: "fst (attach p t start ctx base sz s) \<noteq> Panic"
    and detach_Ok: "t \<in> known s \<Longrightarrow> fst (detach p t s) = Ok () \<and> runnable (snd (detach p t s)) = runnable s - {t}"
    and detach_known: "known (snd (detach p t s)) = known s"
begin

lemma detach_all_total:
  "set ts \<subseteq> known s \<Longrightarrow> \<exists>s1. detach_all detach p ts n s m = (Ok (n + length ts), s1, fold mark_terminated ts m) \<and>
     known s1 = known s \<and> runnable s1 = runnable s - set ts"
proof (induction ts arbitrary: n s m)
  case (Cons t ts)
  obtain s2 where s2: "detach p t s = (Ok (), s2)" using detach_Ok [of t s p] Cons.prems by (cases "detach p t s") auto
  then have k: "known s2 = known s" "runnable s2 = runnable s - {t}" using detach_known [of p t s] detach_Ok [of t s p] Cons.prems by simp_all
  then obtain s1 where "detach_all detach p ts (n + 1) s2 (mark_terminated t m) =
      (Ok (n + 1 + length ts), s1, fold mark_terminated ts (mark_terminated t m))" "known s1 = known s2" "runnable s1 = runnable s2 - set ts"
    using Cons.IH [of s2 "n + 1" "mark_terminated t m"] Cons.prems by auto
  then show ?case using s2 k by (auto simp: Diff_insert2 [symmetric] insert_commute)
qed simp

lemma terminate_process_total:
  assumes inv: "proc_inv m" and r: "map_of (processes m) p = Some r" "pr_state r = Active" and K: "pr_threads r \<subseteq> known s"
  shows "\<exists>s1 m1. terminate_process detach m s p = (Ok (card (pr_threads r)), s1, m1) \<and> known s1 = known s \<and>
     runnable s1 = runnable s - pr_threads r \<and> m1 = close_record p r (fold mark_terminated (sorted_list_of_set (pr_threads r)) m)"
proof -
  have fin: "finite (pr_threads r)" by (rule threads_finite [OF inv r(1)])
  then obtain s1 where s1: "detach_all detach p (sorted_list_of_set (pr_threads r)) 0 s m =
      (Ok (card (pr_threads r)), s1, fold mark_terminated (sorted_list_of_set (pr_threads r)) m)"
      "known s1 = known s" "runnable s1 = runnable s - pr_threads r"
    using detach_all_total [of "sorted_list_of_set (pr_threads r)" s p 0 m] K by auto
  show ?thesis using terminate_process_cases [OF inv r s1(1)] s1 by simp
qed

lemma create_thread_ex_attached:
  assumes att: "attached (known s) m" and c: "create_thread_ex attach m s p start ctx base sz = (a, s1, m1)"
  shows "attached (known s1) m1"
proof (cases "map_of (processes m) p")
  case None
  then show ?thesis using att c by (simp add: create_thread_ex_def)
next
  case (Some r)
  show ?thesis
  proof (cases "pr_state r = Terminated \<or> start = 0 \<or> next_thread m + 4 > u32_max")
    case True
    then have "snd (create_thread_ex attach m s p start ctx base sz) = (s, m)" using Some by (auto simp: create_thread_ex_def Let_def)
    then show ?thesis using att c by simp
  next
    case False
    obtain b s2 where b: "attach p (next_thread m) start ctx base sz s = (b, s2)" by fastforce
    have keep: "attached K (m\<lparr>next_thread := n\<rparr>) = attached K m" for K n by (simp add: attached_def)
    have c': "create_thread_ex attach m s p start ctx base sz = attempt b (s2, m\<lparr>next_thread := next_thread m + 4\<rparr>)
        (\<lambda>_. (Ok (next_thread m), s2, insert_thread (next_thread m) p start TsReady (m\<lparr>next_thread := next_thread m + 4\<rparr>)))"
      using False Some b by (simp add: create_thread_ex_def Let_def)
    show ?thesis
    proof (cases b)
      case (Ok u)
      then have "known s2 = insert (next_thread m) (known s)" using attach_Ok [of p "next_thread m" start ctx base sz s s2] b by simp
      then show ?thesis using c c' Ok attached_insert_thread [OF att] by auto
    next
      case (Err e)
      then show ?thesis using c c' attach_Err [of p "next_thread m" start ctx base sz s e s2] b att keep by auto
    qed (use attach_no_panic [of p "next_thread m" start ctx base sz s] b in simp)
  qed
qed

lemma terminate_thread_attached:
  assumes att: "attached (known s) m" and c: "terminate_thread detach m s t = (a, s1, m1)"
  shows "attached (known s1) m1"
proof (cases "map_of (pm_threads m) t")
  case None
  then show ?thesis using att c by (simp add: terminate_thread_def)
next
  case (Some r)
  obtain b s2 where b: "detach (tr_process r) t s = (b, s2)" by fastforce
  have k: "known s2 = known s" using detach_known [of "tr_process r" t s] b by simp
  have "attached K ((mark_terminated t m)\<lparr>processes := om_update (tr_process r) (\<lambda>q. q\<lparr>pr_threads := pr_threads q - {t}\<rparr>) (processes m)\<rparr>)"
    if K: "attached K m" for K by (rule attachedI) (auto simp: mark_terminated_def dest: attachedD [OF K] split: if_splits)
  then show ?thesis using att c Some b k by (cases "tr_state r = TsTerminated"; cases b) (auto simp: terminate_thread_def)
qed

lemma terminate_process_attached:
  assumes inv: "proc_inv m" and att: "attached (known s) m" and c: "terminate_process detach m s p = (a, s1, m1)"
  shows "attached (known s1) m1"
proof (cases "\<exists>r. map_of (processes m) p = Some r \<and> pr_state r = Active")
  case False
  have "pr_state r = Terminated" if "map_of (processes m) p = Some r" for r using False that by (cases "pr_state r") auto
  then show ?thesis using att c by (cases "map_of (processes m) p") (auto simp: terminate_process_def)
next
  case True
  then obtain r where r: "map_of (processes m) p = Some r" "pr_state r = Active" by blast
  have "pr_threads r \<subseteq> known s" using att r by (simp add: attached_def)
  from terminate_process_total [OF inv r this] c have k: "known s1 = known s"
    and m1: "m1 = close_record p r (fold mark_terminated (sorted_list_of_set (pr_threads r)) m)" by auto
  have "pr_parent r \<noteq> Some p" using processes_ok_dest(2) [OF proc_inv_dest(1) [OF inv] r(1)] by (auto simp: process_ok_def)
  then show ?thesis unfolding k m1 using att r by (intro attached_close_record) (simp_all add: attached_marks fold_mark_terminated)
qed

end

end
