(* ===== verification/System_Threads.thy ===== *)
theory System_Threads
  imports Process_Manager
begin

text \<open>
  The cooperative kernel thread scheduler of \<open>src/src/casak/threads.rs\<close>. It implements the trait
  \<open>ThreadScheduler\<close> of the process manager; the interpretation of \<open>thread_scheduler\<close> shows that it keeps the contract.
  Instants are natural numbers. The lemmas show that the ready queue holds exactly the ready threads, each once, that it is
  served in turn, and that terminating a process succeeds exactly when the scheduler knows its threads.
\<close>

section \<open>Threads\<close>

datatype kernel_thread_state = KReady | KRunning | KWaiting | KTerminated

datatype wait_target = EventTarget nat | ThreadWait nat

record system_wait =
  sw_target :: wait_target
  sw_deadline :: "nat option"
  sw_alertable :: bool

record system_apc =
  apc_id :: nat
  apc_routine :: nat
  apc_context :: nat

record kernel_thread =
  kt_id :: nat
  kt_process :: nat
  kt_start_routine :: nat
  kt_context :: nat
  kt_stack_base :: nat
  kt_stack_size :: nat
  kt_state :: kernel_thread_state
  kt_exit_status :: nt_status
  kt_irql :: u8
  kt_termination_requested :: "nt_status option"
  kt_apcs :: "system_apc list"
  kt_wait :: "system_wait option"
  kt_pending_wake_status :: "nt_status option"

definition is_terminated :: "kernel_thread \<Rightarrow> bool" where
  "is_terminated t \<longleftrightarrow> kt_state t = KTerminated"

record runnable_thread =
  rt_id :: nat
  rt_process :: nat
  rt_start_routine :: nat
  rt_context :: nat
  rt_stack_base :: nat
  rt_stack_size :: nat

record created_thread =
  ct_id :: nat
  ct_handle :: nat

record pending_attachment =
  pa_handle :: nat
  pa_context :: nat
  pa_stack_base :: nat
  pa_stack_size :: nat

record system_thread_manager =
  kthreads :: "(nat, kernel_thread) omap"
  st_handles :: "(nat, nat) omap"
  ready :: "nat list"
  running :: "nat option"
  pending_attach :: "pending_attachment option"
  st_next_handle :: nat
  next_apc :: nat
  st_created :: nat
  st_started :: nat
  st_completed :: nat
  st_terminated :: nat

definition system_thread_manager_new :: system_thread_manager where
  "system_thread_manager_new = \<lparr>kthreads = [], st_handles = [], ready = [], running = None, pending_attach = None,
     st_next_handle = 0x100, next_apc = 1, st_created = 0, st_started = 0, st_completed = 0, st_terminated = 0\<rparr>"

section \<open>The scheduler trait\<close>

definition attach_thread :: "system_thread_manager attach_op" where
  "attach_thread p t start ctx base sz s =
     (case pending_attach s of
        None \<Rightarrow> (Err STATUS_INVALID_PARAMETER, s)
      | Some pa \<Rightarrow>
          let s1 = s\<lparr>pending_attach := None\<rparr>
          in if map_of (kthreads s) t \<noteq> None then (Err STATUS_INVALID_PARAMETER, s1)
             else (Ok (), s1\<lparr>st_handles := om_insert (pa_handle pa) t (st_handles s),
                    kthreads := om_insert t \<lparr>kt_id = t, kt_process = p, kt_start_routine = start, kt_context = pa_context pa,
                      kt_stack_base = pa_stack_base pa, kt_stack_size = pa_stack_size pa, kt_state = KReady, kt_exit_status = 0,
                      kt_irql = 0, kt_termination_requested = None, kt_apcs = [], kt_wait = None, kt_pending_wake_status = None\<rparr> (kthreads s),
                    ready := ready s @ [t]\<rparr>))"

definition detach_thread :: "system_thread_manager detach_op" where
  "detach_thread p t s =
     (case map_of (kthreads s) t of
        None \<Rightarrow> (Err STATUS_INVALID_HANDLE, s)
      | Some r \<Rightarrow>
          let s1 = (if kt_state r \<noteq> KTerminated
                    then s\<lparr>kthreads := om_insert t (r\<lparr>kt_state := KTerminated, kt_exit_status := STATUS_UNSUCCESSFUL\<rparr>) (kthreads s),
                           st_terminated := st_terminated s + 1\<rparr>
                    else s)
          in (Ok (), s1\<lparr>ready := filter (\<lambda>c. c \<noteq> t) (ready s1)\<rparr>))"

section \<open>Operations\<close>

definition st_create :: "system_thread_manager \<Rightarrow> process_manager \<Rightarrow> nat \<Rightarrow> nat \<Rightarrow> nat \<Rightarrow> nat \<Rightarrow> nat \<Rightarrow>
    created_thread res \<times> system_thread_manager \<times> process_manager" where
  "st_create s m p start ctx base sz =
     (if sz < 0x1000 \<or> base mod 16 \<noteq> 0 \<or> checked_add64 base sz = None then (Err STATUS_INVALID_PARAMETER, s, m)
      else if pending_attach s \<noteq> None then (Err STATUS_INVALID_PARAMETER, s, m)
      else let h = st_next_handle s;
               s1 = s\<lparr>st_next_handle := saturating_add64 h 4,
                      pending_attach := Some \<lparr>pa_handle = h, pa_context = ctx, pa_stack_base = base, pa_stack_size = sz\<rparr>\<rparr>
           in (case create_thread_ex attach_thread m s1 p start ctx base sz of (r, s2, m2) \<Rightarrow>
                 (case r of
                    Ok i \<Rightarrow> (Ok \<lparr>ct_id = i, ct_handle = h\<rparr>, s2\<lparr>st_created := st_created s2 + 1\<rparr>, m2)
                  | Err e \<Rightarrow> (Err e, s2\<lparr>pending_attach := None\<rparr>, m2)
                  | Panic \<Rightarrow> (Panic, s2, m2))))"

definition adopt_thread :: "system_thread_manager \<Rightarrow> nat \<Rightarrow> nat \<Rightarrow> unit res \<times> system_thread_manager" where
  "adopt_thread s p t =
     (if map_of (kthreads s) t \<noteq> None then (Ok (), s)
      else (Ok (), s\<lparr>kthreads := om_insert t \<lparr>kt_id = t, kt_process = p, kt_start_routine = 0, kt_context = 0,
             kt_stack_base = 0, kt_stack_size = 0, kt_state = KRunning, kt_exit_status = 0, kt_irql = 0,
             kt_termination_requested = None, kt_apcs = [], kt_wait = None, kt_pending_wake_status = None\<rparr> (kthreads s)\<rparr>))"

text \<open>The loop of \<open>take_next\<close> pops the queue until it finds a ready thread.\<close>

fun take_ready :: "nat list \<Rightarrow> system_thread_manager \<Rightarrow> runnable_thread option \<times> system_thread_manager" where
  "take_ready [] s = (None, s\<lparr>ready := []\<rparr>)"
| "take_ready (t # q) s =
     (case map_of (kthreads s) t of
        None \<Rightarrow> take_ready q s
      | Some r \<Rightarrow>
          if kt_state r \<noteq> KReady then take_ready q s
          else (Some \<lparr>rt_id = t, rt_process = kt_process r, rt_start_routine = kt_start_routine r, rt_context = kt_context r,
                  rt_stack_base = kt_stack_base r, rt_stack_size = kt_stack_size r\<rparr>,
                s\<lparr>ready := q, kthreads := om_insert t (r\<lparr>kt_state := KRunning\<rparr>) (kthreads s), running := Some t,
                  st_started := st_started s + 1\<rparr>))"

definition take_next :: "system_thread_manager \<Rightarrow> runnable_thread option \<times> system_thread_manager" where
  "take_next s = (if running s \<noteq> None then (None, s) else take_ready (ready s) s)"

definition finish_current :: "system_thread_manager \<Rightarrow> nt_status \<Rightarrow> nat res \<times> system_thread_manager" where
  "finish_current s st = attempt (ok_or (running s) STATUS_INVALID_HANDLE) s (\<lambda>i.
     case map_of (kthreads s) i of
       None \<Rightarrow> (Err STATUS_INVALID_HANDLE, s\<lparr>running := None\<rparr>)
     | Some r \<Rightarrow>
         (Ok i, s\<lparr>kthreads := om_insert i (r\<lparr>kt_state := KTerminated, kt_irql := 0,
                    kt_exit_status := (case kt_termination_requested r of None \<Rightarrow> st | Some e \<Rightarrow> e),
                    kt_wait := None, kt_pending_wake_status := None\<rparr>) (kthreads s),
                  running := None, st_completed := st_completed s + 1,
                  st_terminated := (if kt_termination_requested r \<noteq> None then st_terminated s + 1 else st_terminated s)\<rparr>))"

definition thread_of :: "system_thread_manager \<Rightarrow> nat \<Rightarrow> nat res" where
  "thread_of s h = ok_or (map_of (st_handles s) h) STATUS_INVALID_HANDLE"

definition request_terminate :: "system_thread_manager \<Rightarrow> nat \<Rightarrow> nt_status \<Rightarrow> (nat \<times> bool) res \<times> system_thread_manager" where
  "request_terminate s h st =
     attempt (thread_of s h) s (\<lambda>i.
     attempt (ok_or (map_of (kthreads s) i) STATUS_INVALID_HANDLE) s (\<lambda>r.
       case kt_state r of
         KTerminated \<Rightarrow> (Err STATUS_THREAD_IS_TERMINATING, s)
       | KRunning \<Rightarrow> (Ok (i, False), s\<lparr>kthreads := om_insert i (r\<lparr>kt_termination_requested := Some st\<rparr>) (kthreads s)\<rparr>)
       | _ \<Rightarrow> (Ok (i, True), s\<lparr>kthreads := om_insert i (r\<lparr>kt_state := KTerminated, kt_exit_status := st,
                  kt_termination_requested := Some st, kt_wait := None, kt_pending_wake_status := None\<rparr>) (kthreads s),
                ready := filter (\<lambda>c. c \<noteq> i) (ready s), st_completed := st_completed s + 1, st_terminated := st_terminated s + 1\<rparr>)))"

definition request_terminate_current :: "system_thread_manager \<Rightarrow> nt_status \<Rightarrow> nat res \<times> system_thread_manager" where
  "request_terminate_current s st = attempt (ok_or (running s) STATUS_INVALID_HANDLE) s (\<lambda>i.
     case map_of (kthreads s) i of
       Some r \<Rightarrow> (Ok i, s\<lparr>kthreads := om_insert i (r\<lparr>kt_termination_requested := Some st\<rparr>) (kthreads s)\<rparr>)
     | None \<Rightarrow> (Err STATUS_INVALID_HANDLE, s\<lparr>running := None\<rparr>))"

definition queue_apc :: "system_thread_manager \<Rightarrow> nat \<Rightarrow> nat \<Rightarrow> nat \<Rightarrow> nat res \<times> system_thread_manager" where
  "queue_apc s h routine ctx =
     (if routine = 0 then (Err STATUS_INVALID_PARAMETER, s)
      else attempt (thread_of s h) s (\<lambda>i.
           attempt (ok_or (map_of (kthreads s) i) STATUS_INVALID_HANDLE) s (\<lambda>r.
             if is_terminated r then (Err STATUS_THREAD_IS_TERMINATING, s)
             else let a = next_apc s;
                      r1 = r\<lparr>kt_apcs := kt_apcs r @ [\<lparr>apc_id = a, apc_routine = routine, apc_context = ctx\<rparr>]\<rparr>
                  in if kt_state r = KWaiting \<and> (case kt_wait r of None \<Rightarrow> False | Some w \<Rightarrow> sw_alertable w)
                     then (Ok a, s\<lparr>next_apc := a + 1,
                            kthreads := om_insert i (r1\<lparr>kt_state := KReady, kt_wait := None, kt_pending_wake_status := Some STATUS_USER_APC\<rparr>) (kthreads s),
                            ready := ready s @ [i]\<rparr>)
                     else (Ok a, s\<lparr>next_apc := a + 1, kthreads := om_insert i r1 (kthreads s)\<rparr>))))"

definition take_apcs_by_thread :: "system_thread_manager \<Rightarrow> nat \<Rightarrow> system_apc list res \<times> system_thread_manager" where
  "take_apcs_by_thread s t = attempt (ok_or (map_of (kthreads s) t) STATUS_INVALID_HANDLE) s (\<lambda>r.
     (Ok (kt_apcs r), s\<lparr>kthreads := om_insert t (r\<lparr>kt_apcs := []\<rparr>) (kthreads s)\<rparr>))"

definition take_apcs :: "system_thread_manager \<Rightarrow> nat \<Rightarrow> system_apc list res \<times> system_thread_manager" where
  "take_apcs s h = attempt (thread_of s h) s (\<lambda>i. attempt (ok_or (map_of (kthreads s) i) STATUS_INVALID_HANDLE) s (\<lambda>r.
     (Ok (kt_apcs r), s\<lparr>kthreads := om_insert i (r\<lparr>kt_apcs := []\<rparr>) (kthreads s)\<rparr>)))"

fun remove_apc :: "nat \<Rightarrow> system_apc list \<Rightarrow> system_apc list option" where
  "remove_apc a [] = None"
| "remove_apc a (x # xs) = (if apc_id x = a then Some xs else map_option (\<lambda>ys. x # ys) (remove_apc a xs))"

definition cancel_apc :: "system_thread_manager \<Rightarrow> nat \<Rightarrow> nat \<Rightarrow> unit res \<times> system_thread_manager" where
  "cancel_apc s h a = attempt (thread_of s h) s (\<lambda>i. attempt (ok_or (map_of (kthreads s) i) STATUS_INVALID_HANDLE) s (\<lambda>r.
     attempt (ok_or (remove_apc a (kt_apcs r)) STATUS_NOT_FOUND) s (\<lambda>l.
       (Ok (), s\<lparr>kthreads := om_insert i (r\<lparr>kt_apcs := l\<rparr>) (kthreads s)\<rparr>))))"

definition st_close_handle :: "system_thread_manager \<Rightarrow> nat \<Rightarrow> unit res \<times> system_thread_manager" where
  "st_close_handle s h = (case map_of (st_handles s) h of
      None \<Rightarrow> (Err STATUS_INVALID_HANDLE, s)
    | Some _ \<Rightarrow> (Ok (), s\<lparr>st_handles := om_remove h (st_handles s)\<rparr>))"

definition st_exit_status :: "system_thread_manager \<Rightarrow> nat \<Rightarrow> nt_status option res" where
  "st_exit_status s h = rbind (thread_of s h) (\<lambda>i. rbind (ok_or (map_of (kthreads s) i) STATUS_INVALID_HANDLE) (\<lambda>r.
     Ok (if is_terminated r then Some (kt_exit_status r) else None)))"

definition st_query :: "system_thread_manager \<Rightarrow> nat \<Rightarrow> kernel_thread res" where
  "st_query s h = rbind (thread_of s h) (\<lambda>i. ok_or (map_of (kthreads s) i) STATUS_INVALID_HANDLE)"

definition handle_for :: "system_thread_manager \<Rightarrow> nat \<Rightarrow> nat option" where
  "handle_for s t = map_option fst (find (\<lambda>(h, i). i = t) (st_handles s))"

definition set_irql :: "system_thread_manager \<Rightarrow> nat \<Rightarrow> u8 \<Rightarrow> unit res \<times> system_thread_manager" where
  "set_irql s t irql = attempt (ok_or (map_of (kthreads s) t) STATUS_INVALID_HANDLE) s (\<lambda>r.
     (Ok (), s\<lparr>kthreads := om_insert t (r\<lparr>kt_irql := irql\<rparr>) (kthreads s)\<rparr>))"

text \<open>\<open>requeue_current\<close> expects a record for the running thread; its absence is a panic.\<close>

definition requeue_current :: "system_thread_manager \<Rightarrow> nat option res \<times> system_thread_manager" where
  "requeue_current s = (case running s of
      None \<Rightarrow> (Ok None, s)
    | Some i \<Rightarrow> (case map_of (kthreads s) i of
          None \<Rightarrow> (Panic, s\<lparr>running := None\<rparr>)
        | Some r \<Rightarrow>
            (Ok (Some i), if kt_state r = KRunning
               then s\<lparr>running := None, kthreads := om_insert i (r\<lparr>kt_state := KReady\<rparr>) (kthreads s), ready := ready s @ [i]\<rparr>
               else s\<lparr>running := None\<rparr>)))"

definition wait_current :: "system_thread_manager \<Rightarrow> system_wait \<Rightarrow> nat res \<times> system_thread_manager" where
  "wait_current s w = attempt (ok_or (running s) STATUS_INVALID_HANDLE) s (\<lambda>i.
     let s1 = s\<lparr>running := None\<rparr>
     in attempt (ok_or (map_of (kthreads s) i) STATUS_INVALID_HANDLE) s1 (\<lambda>r.
          (Ok i, s1\<lparr>kthreads := om_insert i (r\<lparr>kt_state := KWaiting, kt_wait := Some w\<rparr>) (kthreads s)\<rparr>)))"

definition wake :: "system_thread_manager \<Rightarrow> nat \<Rightarrow> nt_status \<Rightarrow> unit res \<times> system_thread_manager" where
  "wake s t st = attempt (ok_or (map_of (kthreads s) t) STATUS_INVALID_HANDLE) s (\<lambda>r.
     if kt_state r \<noteq> KWaiting then (Err STATUS_INVALID_PARAMETER, s)
     else (Ok (), s\<lparr>kthreads := om_insert t (r\<lparr>kt_state := KReady, kt_wait := None, kt_pending_wake_status := Some st\<rparr>) (kthreads s),
            ready := ready s @ [t]\<rparr>))"

definition cancel_wait :: "system_thread_manager \<Rightarrow> nat \<Rightarrow> nt_status \<Rightarrow> nat res \<times> system_thread_manager" where
  "cancel_wait s h st = attempt (thread_of s h) s (\<lambda>i. case wake s i st of (r, s1) \<Rightarrow> attempt r s1 (\<lambda>_. (Ok i, s1)))"

definition thread_state_of :: "system_thread_manager \<Rightarrow> nat \<Rightarrow> kernel_thread_state option" where
  "thread_state_of s t = map_option kt_state (map_of (kthreads s) t)"

definition wait_of :: "system_thread_manager \<Rightarrow> nat \<Rightarrow> system_wait option" where
  "wait_of s t = (case map_of (kthreads s) t of None \<Rightarrow> None | Some r \<Rightarrow> kt_wait r)"

definition waiting_threads :: "system_thread_manager \<Rightarrow> (nat \<times> system_wait) list" where
  "waiting_threads s = List.map_filter (\<lambda>(i, r). map_option (\<lambda>w. (i, w)) (kt_wait r)) (kthreads s)"

definition has_waiting_threads :: "system_thread_manager \<Rightarrow> bool" where
  "has_waiting_threads s = list_ex (\<lambda>(i, r). kt_state r = KWaiting) (kthreads s)"

definition apc_pending :: "system_thread_manager \<Rightarrow> nat \<Rightarrow> bool" where
  "apc_pending s t = (case map_of (kthreads s) t of None \<Rightarrow> False | Some r \<Rightarrow> kt_apcs r \<noteq> [])"

definition set_pending_wake_status :: "system_thread_manager \<Rightarrow> nat \<Rightarrow> nt_status \<Rightarrow> unit res \<times> system_thread_manager" where
  "set_pending_wake_status s t st = attempt (ok_or (map_of (kthreads s) t) STATUS_INVALID_HANDLE) s (\<lambda>r.
     (Ok (), s\<lparr>kthreads := om_insert t (r\<lparr>kt_pending_wake_status := Some st\<rparr>) (kthreads s)\<rparr>))"

definition take_wake_status :: "system_thread_manager \<Rightarrow> nat \<Rightarrow> nt_status option \<times> system_thread_manager" where
  "take_wake_status s t = (case map_of (kthreads s) t of
      None \<Rightarrow> (None, s)
    | Some r \<Rightarrow> (kt_pending_wake_status r, s\<lparr>kthreads := om_insert t (r\<lparr>kt_pending_wake_status := None\<rparr>) (kthreads s)\<rparr>))"

definition exit_status_by_id :: "system_thread_manager \<Rightarrow> nat \<Rightarrow> nt_status option res" where
  "exit_status_by_id s t = rbind (ok_or (map_of (kthreads s) t) STATUS_INVALID_HANDLE) (\<lambda>r.
     Ok (if is_terminated r then Some (kt_exit_status r) else None))"

definition next_wait_deadline :: "system_thread_manager \<Rightarrow> nat option" where
  "next_wait_deadline s =
     (let ds = List.map_filter (\<lambda>(i, r). case kt_wait r of None \<Rightarrow> None | Some w \<Rightarrow> sw_deadline w) (kthreads s)
      in if ds = [] then None else Some (Min (set ds)))"

definition release_running_for_wait :: "system_thread_manager \<Rightarrow> nat option \<times> system_thread_manager" where
  "release_running_for_wait s = (running s, s\<lparr>running := None\<rparr>)"

definition restore_running :: "system_thread_manager \<Rightarrow> nat \<Rightarrow> system_thread_manager" where
  "restore_running s t = s\<lparr>running := Some t\<rparr>"

definition fail_current :: "system_thread_manager \<Rightarrow> nat res \<times> system_thread_manager" where
  "fail_current s = attempt (ok_or (running s) STATUS_INVALID_HANDLE) s (\<lambda>i.
     case finish_current s STATUS_UNSUCCESSFUL of (r, s1) \<Rightarrow> attempt r s1 (\<lambda>_. (Ok i, s1)))"

section \<open>The contract of the scheduler\<close>

definition st_known :: "system_thread_manager \<Rightarrow> nat set" where "st_known s = dom (map_of (kthreads s))"

definition st_runnable :: "system_thread_manager \<Rightarrow> nat set" where "st_runnable s = set (ready s)"

interpretation sched: thread_scheduler attach_thread detach_thread st_known st_runnable
proof
  fix p t start ctx base sz s s' e
  show "attach_thread p t start ctx base sz s = (Ok (), s') \<Longrightarrow> st_known s' = insert t (st_known s) \<and> st_runnable s' = insert t (st_runnable s)"
    "attach_thread p t start ctx base sz s = (Err e, s') \<Longrightarrow> st_known s' = st_known s \<and> st_runnable s' = st_runnable s"
    "fst (attach_thread p t start ctx base sz s) \<noteq> Panic"
    by (auto simp: attach_thread_def st_known_def st_runnable_def Let_def split: option.splits if_splits)
  show "t \<in> st_known s \<Longrightarrow> fst (detach_thread p t s) = Ok () \<and> st_runnable (snd (detach_thread p t s)) = st_runnable s - {t}"
    "st_known (snd (detach_thread p t s)) = st_known s"
    by (auto simp: detach_thread_def st_known_def st_runnable_def Let_def split: option.splits if_splits)
qed

section \<open>The invariant of the scheduler\<close>

definition slot_state :: "kernel_thread_state \<Rightarrow> bool" where
  "slot_state st \<longleftrightarrow> st = KRunning \<or> st = KTerminated"

definition sched_inv :: "system_thread_manager \<Rightarrow> bool" where
  "sched_inv s \<longleftrightarrow> om_wf (kthreads s) \<and> (\<forall>t r. map_of (kthreads s) t = Some r \<longrightarrow> kt_id r = t) \<and> distinct (ready s) \<and>
     (\<forall>t. t \<in> set (ready s) \<longleftrightarrow> thread_state_of s t = Some KReady) \<and>
     (\<forall>t. running s = Some t \<longrightarrow> (\<exists>st. thread_state_of s t = Some st \<and> slot_state st)) \<and>
     (\<forall>h t. map_of (st_handles s) h = Some t \<longrightarrow> map_of (kthreads s) t \<noteq> None)"

lemma sched_inv_new: "sched_inv system_thread_manager_new"
  by (simp add: sched_inv_def system_thread_manager_new_def thread_state_of_def)

lemma sched_inv_dest:
  assumes "sched_inv s"
  shows "om_wf (kthreads s)" "map_of (kthreads s) t = Some r \<Longrightarrow> kt_id r = t" "distinct (ready s)"
    "t \<in> set (ready s) \<longleftrightarrow> thread_state_of s t = Some KReady"
    "running s = Some t \<Longrightarrow> \<exists>st. thread_state_of s t = Some st \<and> slot_state st"
    "map_of (st_handles s) h = Some t \<Longrightarrow> map_of (kthreads s) t \<noteq> None"
  using assms unfolding sched_inv_def by blast+

text \<open>One rule for all operations: the record of one thread changes, and the queue and the slot follow.\<close>

lemma sched_put:
  assumes inv: "sched_inv s" and k: "kthreads s' = om_insert t r (kthreads s)" and i: "kt_id r = t"
    and q: "distinct (ready s')" "set (ready s') = (if kt_state r = KReady then insert t (set (ready s)) else set (ready s) - {t})"
    and run: "\<And>u. running s' = Some u \<Longrightarrow> (if u = t then slot_state (kt_state r) else running s = Some u)"
    and h: "\<And>h u. map_of (st_handles s') h = Some u \<Longrightarrow> u = t \<or> map_of (st_handles s) h = Some u"
  shows "sched_inv s'"
proof -
  note d = sched_inv_dest [OF inv]
  have st: "thread_state_of s' u = (if u = t then Some (kt_state r) else thread_state_of s u)" for u
    by (simp add: thread_state_of_def k)
  have 1: "om_wf (kthreads s')" using d(1) by (simp add: k)
  have 2: "\<forall>u x. map_of (kthreads s') u = Some x \<longrightarrow> kt_id x = u" using d(2) i by (simp add: k)
  have 3: "\<forall>u. u \<in> set (ready s') \<longleftrightarrow> thread_state_of s' u = Some KReady" using d(4) unfolding q(2) st by auto
  have 4: "\<forall>u. running s' = Some u \<longrightarrow> (\<exists>x. thread_state_of s' u = Some x \<and> slot_state x)"
    using run d(5) unfolding st by (auto split: if_splits)
  have 5: "map_of (kthreads s') u \<noteq> None" if x: "map_of (st_handles s') x = Some u" for x u
    using h [OF x] d(6) [of x u] by (auto simp: k)
  show ?thesis unfolding sched_inv_def using 1 2 q(1) 3 4 5 by blast
qed

text \<open>Changes that leave the state of a thread alone.\<close>

lemma sched_touch:
  assumes inv: "sched_inv s" and x: "map_of (kthreads s) t = Some x" and r: "kt_id r = kt_id x" "kt_state r = kt_state x"
    and s': "kthreads s' = om_insert t r (kthreads s)" "ready s' = ready s" "running s' = running s" "st_handles s' = st_handles s"
  shows "sched_inv s'"
proof (rule sched_put [OF inv s'(1)])
  note d = sched_inv_dest [OF inv]
  show "kt_id r = t" using d(2) [OF x] r by simp
  show "distinct (ready s')" using d(3) by (simp add: s')
  have "t \<in> set (ready s) \<longleftrightarrow> kt_state r = KReady" using d(4) [of t] x r(2) by (simp add: thread_state_of_def)
  then show "set (ready s') = (if kt_state r = KReady then insert t (set (ready s)) else set (ready s) - {t})" by (auto simp: s'(2))
  show "if u = t then slot_state (kt_state r) else running s = Some u" if "running s' = Some u" for u
    using that d(5) [of u] x r(2) by (auto simp: s' thread_state_of_def)
  show "u = t \<or> map_of (st_handles s) h = Some u" if "map_of (st_handles s') h = Some u" for h u using that by (simp add: s')
qed

text \<open>A thread that is put at the end of the queue.\<close>

lemma sched_enqueue:
  assumes inv: "sched_inv s" and x: "thread_state_of s t \<noteq> Some KReady" and r: "kt_id r = t" "kt_state r = KReady"
    and s': "kthreads s' = om_insert t r (kthreads s)" "ready s' = ready s @ [t]" and run: "running s' = None \<or> running s' = running s \<and> running s \<noteq> Some t"
    and h: "\<And>h u. map_of (st_handles s') h = Some u \<Longrightarrow> u = t \<or> map_of (st_handles s) h = Some u"
  shows "sched_inv s'"
proof (rule sched_put [OF inv s'(1) r(1) _ _ _ h])
  note d = sched_inv_dest [OF inv]
  show "distinct (ready s')" using d(3) d(4) [of t] x by (simp add: s')
  show "set (ready s') = (if kt_state r = KReady then insert t (set (ready s)) else set (ready s) - {t})" using r(2) by (simp add: s')
  show "if u = t then slot_state (kt_state r) else running s = Some u" if "running s' = Some u" for u using that run by auto
qed

text \<open>A thread that leaves the queue, if it was there.\<close>

lemma sched_dequeue:
  assumes inv: "sched_inv s" and r: "kt_id r = t" "kt_state r \<noteq> KReady"
    and s': "kthreads s' = om_insert t r (kthreads s)" "ready s' = filter (\<lambda>c. c \<noteq> t) (ready s)" "st_handles s' = st_handles s"
    and run: "\<And>u. running s' = Some u \<Longrightarrow> (if u = t then slot_state (kt_state r) else running s = Some u)"
  shows "sched_inv s'"
proof (rule sched_put [OF inv s'(1) r(1) _ _ run])
  note d = sched_inv_dest [OF inv]
  show "distinct (ready s')" using d(3) by (simp add: s')
  show "set (ready s') = (if kt_state r = KReady then insert t (set (ready s)) else set (ready s) - {t})" using r(2) by (auto simp: s')
  show "u = t \<or> map_of (st_handles s) h = Some u" if "map_of (st_handles s') h = Some u" for h u using that by (simp add: s')
qed

lemma not_ready_filter: "sched_inv s \<Longrightarrow> thread_state_of s t \<noteq> Some KReady \<Longrightarrow> filter (\<lambda>c. c \<noteq> t) (ready s) = ready s"
  using sched_inv_dest(4) [of s t] by (auto simp: filter_id_conv)

lemma sched_unslot: "sched_inv s \<Longrightarrow> sched_inv (s\<lparr>running := None\<rparr>)"
  unfolding sched_inv_def thread_state_of_def by simp

section \<open>Every operation keeps the invariant\<close>

lemma attach_thread_inv:
  assumes inv: "sched_inv s"
  shows "sched_inv (snd (attach_thread p t start ctx base sz s))"
proof (cases "pending_attach s")
  case None
  then show ?thesis using inv by (simp add: attach_thread_def)
next
  case (Some pa)
  have clear: "sched_inv (s\<lparr>pending_attach := None\<rparr>)" using inv unfolding sched_inv_def thread_state_of_def by simp
  show ?thesis
  proof (cases "map_of (kthreads s) t")
    case None
    show ?thesis unfolding attach_thread_def Some option.case Let_def
      using None by simp (rule sched_enqueue [OF inv, where t = t]; auto simp: thread_state_of_def dest: sched_inv_dest(5) [OF inv] split: if_splits)
  next
    case (Some r)
    then show ?thesis using clear \<open>pending_attach s = Some pa\<close> by (simp add: attach_thread_def)
  qed
qed

lemma detach_thread_inv:
  assumes inv: "sched_inv s"
  shows "sched_inv (snd (detach_thread p t s))"
proof (cases "map_of (kthreads s) t")
  case None
  then show ?thesis using inv by (simp add: detach_thread_def)
next
  case (Some r)
  note d = sched_inv_dest [OF inv]
  show ?thesis
  proof (cases "kt_state r = KTerminated")
    case True
    then have "filter (\<lambda>c. c \<noteq> t) (ready s) = ready s" using Some by (intro not_ready_filter [OF inv]) (simp add: thread_state_of_def)
    then have "snd (detach_thread p t s) = s" using Some True by (simp add: detach_thread_def)
    then show ?thesis using inv by simp
  next
    case False
    then show ?thesis unfolding detach_thread_def Some option.case Let_def
      by (intro sched_dequeue [OF inv, where t = t and r = "r\<lparr>kt_state := KTerminated, kt_exit_status := STATUS_UNSUCCESSFUL\<rparr>"])
        (simp_all add: d(2) [OF Some] slot_state_def)
  qed
qed

lemma adopt_thread_inv:
  assumes inv: "sched_inv s"
  shows "sched_inv (snd (adopt_thread s p t))"
proof (cases "map_of (kthreads s) t")
  case None
  then have f: "filter (\<lambda>c. c \<noteq> t) (ready s) = ready s" by (intro not_ready_filter [OF inv]) (simp add: thread_state_of_def)
  have "running s \<noteq> Some t" using sched_inv_dest(5) [OF inv, of t] None by (auto simp: thread_state_of_def)
  then show ?thesis unfolding adopt_thread_def using None f
    by (simp, intro sched_dequeue [OF inv, where t = t]) simp_all
next
  case (Some r)
  then show ?thesis using inv by (simp add: adopt_thread_def)
qed

lemma take_ready_eq:
  assumes inv: "sched_inv s"
  shows "ready s = [] \<Longrightarrow> take_ready (ready s) s = (None, s)"
    and "ready s = t # q \<Longrightarrow> \<exists>r. map_of (kthreads s) t = Some r \<and> kt_state r = KReady \<and>
      take_ready (ready s) s = (Some \<lparr>rt_id = t, rt_process = kt_process r, rt_start_routine = kt_start_routine r, rt_context = kt_context r,
                  rt_stack_base = kt_stack_base r, rt_stack_size = kt_stack_size r\<rparr>,
                s\<lparr>ready := q, kthreads := om_insert t (r\<lparr>kt_state := KRunning\<rparr>) (kthreads s), running := Some t,
                  st_started := st_started s + 1\<rparr>)"
proof -
  show "take_ready (ready s) s = (None, s)" if "ready s = []"
  proof -
    have "s\<lparr>ready := []\<rparr> = s" using that by (cases s) simp
    then show ?thesis using that by simp
  qed
  assume q: "ready s = t # q"
  then have "thread_state_of s t = Some KReady" using sched_inv_dest(4) [OF inv, of t] by simp
  then obtain r where "map_of (kthreads s) t = Some r" "kt_state r = KReady" by (auto simp: thread_state_of_def)
  then show "\<exists>r. map_of (kthreads s) t = Some r \<and> kt_state r = KReady \<and>
      take_ready (ready s) s = (Some \<lparr>rt_id = t, rt_process = kt_process r, rt_start_routine = kt_start_routine r, rt_context = kt_context r,
                  rt_stack_base = kt_stack_base r, rt_stack_size = kt_stack_size r\<rparr>,
                s\<lparr>ready := q, kthreads := om_insert t (r\<lparr>kt_state := KRunning\<rparr>) (kthreads s), running := Some t,
                  st_started := st_started s + 1\<rparr>)" using q by simp
qed

lemma take_next_inv:
  assumes inv: "sched_inv s"
  shows "sched_inv (snd (take_next s))"
proof (cases "running s = None \<and> ready s \<noteq> []")
  case False
  then show ?thesis using inv take_ready_eq(1) [OF inv] by (auto simp: take_next_def simp del: take_ready.simps)
next
  case True
  then obtain t q where q: "ready s = t # q" by (cases "ready s") auto
  note d = sched_inv_dest [OF inv]
  obtain r where r: "map_of (kthreads s) t = Some r"
    "snd (take_ready (ready s) s) = s\<lparr>ready := q, kthreads := om_insert t (r\<lparr>kt_state := KRunning\<rparr>) (kthreads s), running := Some t,
                  st_started := st_started s + 1\<rparr>" using take_ready_eq(2) [OF inv q] by auto
  have "filter (\<lambda>c. c \<noteq> t) q = q" using d(3) q by (auto simp: filter_id_conv)
  then have "sched_inv (snd (take_ready (ready s) s))"
    unfolding r(2) using d(2) [OF r(1)]
    by (intro sched_dequeue [OF inv, where t = t and r = "r\<lparr>kt_state := KRunning\<rparr>"]) (simp_all add: q slot_state_def)
  then show ?thesis using True by (simp add: take_next_def)
qed

lemma slot_not_ready: "sched_inv s \<Longrightarrow> running s = Some i \<Longrightarrow> filter (\<lambda>c. c \<noteq> i) (ready s) = ready s"
  using sched_inv_dest(5) [of s i] by (intro not_ready_filter) (auto simp: slot_state_def)

lemma slot_known: "sched_inv s \<Longrightarrow> running s = Some i \<Longrightarrow> \<exists>r. map_of (kthreads s) i = Some r \<and> kt_id r = i \<and> slot_state (kt_state r)"
  using sched_inv_dest(5) [of s i] sched_inv_dest(2) [of s i] by (auto simp: thread_state_of_def)

lemma finish_current_inv:
  assumes inv: "sched_inv s"
  shows "sched_inv (snd (finish_current s st))"
proof (cases "running s")
  case None
  then show ?thesis using inv by (simp add: finish_current_def)
next
  case (Some i)
  obtain r where r: "map_of (kthreads s) i = Some r" "kt_id r = i" using slot_known [OF inv Some] by blast
  let ?r = "r\<lparr>kt_state := KTerminated, kt_irql := 0, kt_exit_status := (case kt_termination_requested r of None \<Rightarrow> st | Some e \<Rightarrow> e),
                    kt_wait := None, kt_pending_wake_status := None\<rparr>"
  have "snd (finish_current s st) = s\<lparr>kthreads := om_insert i ?r (kthreads s), running := None, st_completed := st_completed s + 1,
                  st_terminated := (if kt_termination_requested r \<noteq> None then st_terminated s + 1 else st_terminated s)\<rparr>"
    using Some r by (simp add: finish_current_def)
  then show ?thesis using slot_not_ready [OF inv Some] r(2)
    by (intro sched_dequeue [OF inv, where t = i and r = ?r]) simp_all
qed

lemma fail_current_inv:
  assumes "sched_inv s"
  shows "sched_inv (snd (fail_current s))"
proof (cases "running s")
  case (Some i)
  obtain r s1 where f: "finish_current s STATUS_UNSUCCESSFUL = (r, s1)" by fastforce
  then show ?thesis using Some finish_current_inv [OF assms, of STATUS_UNSUCCESSFUL] by (cases r) (simp_all add: fail_current_def)
qed (use assms in \<open>simp add: fail_current_def\<close>)

lemma requeue_current_inv:
  assumes inv: "sched_inv s"
  shows "sched_inv (snd (requeue_current s)) \<and> fst (requeue_current s) \<noteq> Panic"
proof (cases "running s")
  case None
  then show ?thesis using inv by (simp add: requeue_current_def)
next
  case (Some i)
  obtain r where r: "map_of (kthreads s) i = Some r" "kt_id r = i" "slot_state (kt_state r)" using slot_known [OF inv Some] by blast
  have "sched_inv (s\<lparr>running := None, kthreads := om_insert i (r\<lparr>kt_state := KReady\<rparr>) (kthreads s), ready := ready s @ [i]\<rparr>)"
    using r by (intro sched_enqueue [OF inv, where t = i and r = "r\<lparr>kt_state := KReady\<rparr>"]) (auto simp: thread_state_of_def slot_state_def)
  then show ?thesis using Some r sched_unslot [OF inv] by (simp add: requeue_current_def)
qed

lemma wait_current_inv:
  assumes inv: "sched_inv s"
  shows "sched_inv (snd (wait_current s w))"
proof (cases "running s")
  case None
  then show ?thesis using inv by (simp add: wait_current_def)
next
  case (Some i)
  obtain r where r: "map_of (kthreads s) i = Some r" "kt_id r = i" using slot_known [OF inv Some] by blast
  have "snd (wait_current s w) = s\<lparr>running := None, kthreads := om_insert i (r\<lparr>kt_state := KWaiting, kt_wait := Some w\<rparr>) (kthreads s)\<rparr>"
    using Some r by (simp add: wait_current_def Let_def)
  then show ?thesis using slot_not_ready [OF inv Some] r(2)
    by (intro sched_dequeue [OF inv, where t = i and r = "r\<lparr>kt_state := KWaiting, kt_wait := Some w\<rparr>"]) simp_all
qed

lemma wake_inv:
  assumes inv: "sched_inv s"
  shows "sched_inv (snd (wake s t st))"
proof (cases "\<exists>r. map_of (kthreads s) t = Some r \<and> kt_state r = KWaiting")
  case False
  then have "snd (wake s t st) = s" by (cases "map_of (kthreads s) t") (auto simp: wake_def)
  then show ?thesis using inv by simp
next
  case True
  then obtain r where r: "map_of (kthreads s) t = Some r" "kt_state r = KWaiting" by blast
  let ?r = "r\<lparr>kt_state := KReady, kt_wait := None, kt_pending_wake_status := Some st\<rparr>"
  have "running s \<noteq> Some t" using slot_known [OF inv, of t] r by (auto simp: slot_state_def)
  then have "sched_inv (s\<lparr>kthreads := om_insert t ?r (kthreads s), ready := ready s @ [t]\<rparr>)"
    using r sched_inv_dest(2) [OF inv r(1)] by (intro sched_enqueue [OF inv, where t = t and r = ?r]) (simp_all add: thread_state_of_def)
  then show ?thesis using r by (simp add: wake_def)
qed

lemma cancel_wait_inv:
  assumes "sched_inv s"
  shows "sched_inv (snd (cancel_wait s h st))"
proof (cases "thread_of s h")
  case (Ok i)
  obtain r s1 where w: "wake s i st = (r, s1)" by fastforce
  then show ?thesis using Ok wake_inv [OF assms, of i st] by (cases r) (simp_all add: cancel_wait_def)
qed (use assms in \<open>simp_all add: cancel_wait_def\<close>)

lemma thread_of_known: "sched_inv s \<Longrightarrow> thread_of s h = Ok i \<Longrightarrow> \<exists>r. map_of (kthreads s) i = Some r \<and> kt_id r = i"
  using sched_inv_dest(6) [of s h i] sched_inv_dest(2) [of s i]
  by (cases "map_of (st_handles s) h") (auto simp: thread_of_def)

lemma request_terminate_inv:
  assumes inv: "sched_inv s"
  shows "sched_inv (snd (request_terminate s h st))"
proof (cases "thread_of s h")
  case (Ok i)
  obtain r where r: "map_of (kthreads s) i = Some r" "kt_id r = i" using thread_of_known [OF inv Ok] by blast
  have run: "running s \<noteq> Some i" if "kt_state r = KReady \<or> kt_state r = KWaiting"
    using slot_known [OF inv, of i] r that by (auto simp: slot_state_def)
  let ?r = "r\<lparr>kt_state := KTerminated, kt_exit_status := st, kt_termination_requested := Some st, kt_wait := None, kt_pending_wake_status := None\<rparr>"
  let ?s = "s\<lparr>kthreads := om_insert i ?r (kthreads s), ready := filter (\<lambda>c. c \<noteq> i) (ready s), st_completed := st_completed s + 1,
      st_terminated := st_terminated s + 1\<rparr>"
  have gone: "sched_inv ?s" using r
    by (intro sched_dequeue [OF inv, where t = i and r = ?r]) (simp_all add: slot_state_def)
  have mark: "sched_inv (s\<lparr>kthreads := om_insert i (r\<lparr>kt_termination_requested := Some st\<rparr>) (kthreads s)\<rparr>)"
    by (rule sched_touch [OF inv r(1), where r = "r\<lparr>kt_termination_requested := Some st\<rparr>"]) simp_all
  show ?thesis using inv Ok r gone mark by (simp add: request_terminate_def split: kernel_thread_state.split)
qed (use inv in \<open>simp_all add: request_terminate_def\<close>)

lemma request_terminate_current_inv:
  assumes inv: "sched_inv s"
  shows "sched_inv (snd (request_terminate_current s st))"
proof (cases "running s")
  case (Some i)
  obtain r where r: "map_of (kthreads s) i = Some r" using slot_known [OF inv Some] by blast
  have "sched_inv (s\<lparr>kthreads := om_insert i (r\<lparr>kt_termination_requested := Some st\<rparr>) (kthreads s)\<rparr>)"
    by (rule sched_touch [OF inv r, where r = "r\<lparr>kt_termination_requested := Some st\<rparr>"]) simp_all
  then show ?thesis using Some r by (simp add: request_terminate_current_def)
qed (use inv in \<open>simp add: request_terminate_current_def\<close>)

lemma queue_apc_inv:
  assumes inv: "sched_inv s"
  shows "sched_inv (snd (queue_apc s h routine ctx))"
proof (cases "thread_of s h")
  case (Ok i)
  obtain r where r: "map_of (kthreads s) i = Some r" "kt_id r = i" using thread_of_known [OF inv Ok] by blast
  let ?r1 = "r\<lparr>kt_apcs := kt_apcs r @ [\<lparr>apc_id = next_apc s, apc_routine = routine, apc_context = ctx\<rparr>]\<rparr>"
  let ?r2 = "?r1\<lparr>kt_state := KReady, kt_wait := None, kt_pending_wake_status := Some STATUS_USER_APC\<rparr>"
  have touch: "sched_inv (s\<lparr>next_apc := next_apc s + 1, kthreads := om_insert i ?r1 (kthreads s)\<rparr>)"
    by (rule sched_touch [OF inv r(1), where r = ?r1]) simp_all
  have wakes: "sched_inv (s\<lparr>next_apc := next_apc s + 1, kthreads := om_insert i ?r2 (kthreads s), ready := ready s @ [i]\<rparr>)" if "kt_state r = KWaiting"
  proof -
    have "running s \<noteq> Some i" using slot_known [OF inv, of i] r that by (auto simp: slot_state_def)
    then show ?thesis using r that by (intro sched_enqueue [OF inv, where t = i and r = ?r2]) (simp_all add: thread_state_of_def)
  qed
  show ?thesis using inv Ok r touch wakes unfolding queue_apc_def Let_def by simp
qed (use inv in \<open>simp_all add: queue_apc_def\<close>)

lemma touch_op_inv:
  assumes inv: "sched_inv s" and f: "\<And>r. kt_id (f r) = kt_id r \<and> kt_state (f r) = kt_state r" and r: "map_of (kthreads s) t = Some r"
  shows "sched_inv (s\<lparr>kthreads := om_insert t (f r) (kthreads s)\<rparr>)"
  by (rule sched_touch [OF inv r, where r = "f r"]) (simp_all add: f)

lemma apc_ops_inv:
  assumes inv: "sched_inv s"
  shows "sched_inv (snd (take_apcs_by_thread s t))" "sched_inv (snd (take_apcs s h))" "sched_inv (snd (cancel_apc s h a))"
proof -
  have clear: "sched_inv (s\<lparr>kthreads := om_insert t (r\<lparr>kt_apcs := l\<rparr>) (kthreads s)\<rparr>)" if "map_of (kthreads s) t = Some r" for t r l
    by (rule touch_op_inv [OF inv _ that, where f = "\<lambda>r. r\<lparr>kt_apcs := l\<rparr>"]) simp
  show "sched_inv (snd (take_apcs_by_thread s t))"
    using inv clear [of t _ "[]"] by (cases "map_of (kthreads s) t") (simp_all add: take_apcs_by_thread_def)
  show "sched_inv (snd (take_apcs s h))"
  proof (cases "thread_of s h")
    case (Ok i)
    then show ?thesis using inv clear [of i _ "[]"] by (cases "map_of (kthreads s) i") (simp_all add: take_apcs_def)
  qed (use inv in \<open>simp_all add: take_apcs_def\<close>)
  show "sched_inv (snd (cancel_apc s h a))"
  proof (cases "thread_of s h")
    case (Ok i)
    show ?thesis
    proof (cases "map_of (kthreads s) i")
      case (Some r)
      then show ?thesis using Ok inv clear [of i r] by (cases "remove_apc a (kt_apcs r)") (simp_all add: cancel_apc_def)
    qed (use Ok inv in \<open>simp add: cancel_apc_def\<close>)
  qed (use inv in \<open>simp_all add: cancel_apc_def\<close>)
qed

lemma field_ops_inv:
  assumes inv: "sched_inv s"
  shows "sched_inv (snd (set_irql s t irql))" "sched_inv (snd (set_pending_wake_status s t st))" "sched_inv (snd (take_wake_status s t))"
proof -
  have irql: "sched_inv (s\<lparr>kthreads := om_insert t (r\<lparr>kt_irql := irql\<rparr>) (kthreads s)\<rparr>)" if "map_of (kthreads s) t = Some r" for r
    by (rule touch_op_inv [OF inv _ that, where f = "\<lambda>r. r\<lparr>kt_irql := irql\<rparr>"]) simp
  have status: "sched_inv (s\<lparr>kthreads := om_insert t (r\<lparr>kt_pending_wake_status := x\<rparr>) (kthreads s)\<rparr>)" if "map_of (kthreads s) t = Some r" for r x
    by (rule touch_op_inv [OF inv _ that, where f = "\<lambda>r. r\<lparr>kt_pending_wake_status := x\<rparr>"]) simp
  show "sched_inv (snd (set_irql s t irql))" "sched_inv (snd (set_pending_wake_status s t st))" "sched_inv (snd (take_wake_status s t))"
    using inv irql status by (cases "map_of (kthreads s) t"; simp add: set_irql_def set_pending_wake_status_def take_wake_status_def)+
qed

lemma st_close_handle_inv:
  assumes "sched_inv s"
  shows "sched_inv (snd (st_close_handle s h))"
proof -
  have "sched_inv (s\<lparr>st_handles := om_remove h (st_handles s)\<rparr>)"
    using assms unfolding sched_inv_def thread_state_of_def by simp
  then show ?thesis using assms by (simp add: st_close_handle_def split: option.split)
qed

lemma restore_running_inv:
  assumes "sched_inv s" "thread_state_of s t = Some st" "slot_state st"
  shows "sched_inv (restore_running s t)"
  using assms unfolding sched_inv_def restore_running_def thread_state_of_def by auto

section \<open>The processes and their scheduler together\<close>

text \<open>The calls of the scheduler alone, except \<open>restore_running\<close>, which the relations below treat in different ways.\<close>

inductive sched_call :: "system_thread_manager \<Rightarrow> system_thread_manager \<Rightarrow> bool" where
  "sched_call s (snd (take_next s))"
| "sched_call s (snd (finish_current s st))"
| "sched_call s (snd (fail_current s))"
| "sched_call s (snd (request_terminate s h st))"
| "sched_call s (snd (request_terminate_current s st))"
| "sched_call s (snd (queue_apc s h routine ctx))"
| "sched_call s (snd (take_apcs_by_thread s t))"
| "sched_call s (snd (take_apcs s h))"
| "sched_call s (snd (cancel_apc s h a))"
| "sched_call s (snd (st_close_handle s h))"
| "sched_call s (snd (set_irql s t irql))"
| "sched_call s (snd (requeue_current s))"
| "sched_call s (snd (wait_current s w))"
| "sched_call s (snd (wake s t st))"
| "sched_call s (snd (cancel_wait s h st))"
| "sched_call s (snd (set_pending_wake_status s t st))"
| "sched_call s (snd (take_wake_status s t))"
| "sched_call s (snd (release_running_for_wait s))"
| "sched_call s (snd (adopt_thread s p t))"
| "sched_call s (snd (attach_thread p t start ctx base sz s))"
| "sched_call s (snd (detach_thread p t s))"

text \<open>The calls of the process manager alone, except \<open>ensure_thread\<close>.\<close>

inductive proc_step :: "process_manager \<Rightarrow> process_manager \<Rightarrow> bool" where
  "proc_step m (snd (create_process m parent img sec))"
| "proc_step m (snd (ensure_process m i img parent))"
| "proc_step m (snd (start_thread m t))"
| "proc_step m (snd (open_process m owner target access inh))"
| "proc_step m (snd (open_thread m owner target access inh))"
| "proc_step m (snd (duplicate_process_handle m owner source access inh))"
| "proc_step m (snd (inherit_process_handles m parent' child))"
| "proc_step m (snd (close_process_handle m owner h))"
| "proc_step m (snd (close_process_handles m owner))"
| "proc_step m (snd (set_image_section m p sec))"
| "proc_step m (snd (set_token m p tok))"

text \<open>Both managers: calls of one of them, and the calls of each that go through the other.\<close>

inductive island_call :: "system_thread_manager \<times> process_manager \<Rightarrow> system_thread_manager \<times> process_manager \<Rightarrow> bool" where
  scheduler: "sched_call s s' \<Longrightarrow> island_call (s, m) (s', m)"
| executive: "proc_step m m' \<Longrightarrow> island_call (s, m) (s, m')"
| create: "island_call (s, m) (snd (st_create s m p start ctx base sz))"
| create_ex: "island_call (s, m) (snd (create_thread_ex attach_thread m s p start ctx base sz))"
| terminate_thread: "island_call (s, m) (snd (terminate_thread detach_thread m s t))"
| terminate_process: "island_call (s, m) (snd (terminate_process detach_thread m s p))"

text \<open>Any sequence of calls: \<open>ensure_thread\<close> may register a thread the scheduler has never heard of, and
  \<open>restore_running\<close> puts any identifier into the slot.\<close>

inductive island_step :: "system_thread_manager \<times> process_manager \<Rightarrow> system_thread_manager \<times> process_manager \<Rightarrow> bool" where
  call: "island_call x y \<Longrightarrow> island_step x y"
| ensure: "island_step (s, m) (s, snd (ensure_thread m p t start))"
| restore: "island_step (s, m) (restore_running s t, m)"

text \<open>The same with \<open>restore_running\<close> called only for a thread whose record is running or terminated.\<close>

inductive orderly_step :: "system_thread_manager \<times> process_manager \<Rightarrow> system_thread_manager \<times> process_manager \<Rightarrow> bool" where
  call: "island_call x y \<Longrightarrow> orderly_step x y"
| ensure: "orderly_step (s, m) (s, snd (ensure_thread m p t start))"
| restore: "thread_state_of s t = Some st \<Longrightarrow> slot_state st \<Longrightarrow> orderly_step (s, m) (restore_running s t, m)"

text \<open>
  The documented use of the slot. The first component holds the threads that \<open>release_running_for_wait\<close> has handed out
  and that are not restored yet; \<open>restore_running\<close> is called for one of them only. Nothing is required of the state of its record.
\<close>

type_synonym nested_state = "nat set \<times> system_thread_manager \<times> process_manager"

inductive nested_step :: "nested_state \<Rightarrow> nested_state \<Rightarrow> bool" where
  call: "island_call (s, m) (s', m') \<Longrightarrow> nested_step (R, s, m) (R, s', m')"
| ensure: "nested_step (R, s, m) (R, s, snd (ensure_thread m p t start))"
| release: "release_running_for_wait s = (Some t, s') \<Longrightarrow> nested_step (R, s, m) (insert t R, s', m)"
| restore: "t \<in> R \<Longrightarrow> nested_step (R, s, m) (R - {t}, restore_running s t, m)"

text \<open>A thread of the host is registered with both managers, as \<open>src/src/driver_island/driver_object.rs\<close> does for
  the current thread.\<close>

inductive host_step :: "system_thread_manager \<times> process_manager \<Rightarrow> system_thread_manager \<times> process_manager \<Rightarrow> bool" where
  call: "island_call x y \<Longrightarrow> host_step x y"
| register: "ensure_thread m p t start = (Ok (), m') \<Longrightarrow> host_step (s, m) (snd (adopt_thread s p t), m')"
| restore: "host_step (s, m) (restore_running s t, m)"

definition island_new :: "system_thread_manager \<times> process_manager" where
  "island_new = (system_thread_manager_new, process_manager_new)"

section \<open>What the calls keep\<close>

text \<open>A predicate of the scheduler that its own calls keep is kept by the calls that reach it through the process manager.\<close>

locale sched_predicate =
  fixes P :: "system_thread_manager \<Rightarrow> bool"
  assumes kept: "sched_call s s' \<Longrightarrow> P s \<Longrightarrow> P s'"
    and fields: "P (s\<lparr>st_created := n\<rparr>) = P s" "P (s\<lparr>pending_attach := a\<rparr>) = P s" "P (s\<lparr>st_next_handle := k\<rparr>) = P s"
begin

lemma detach_all_keeps: "P s \<Longrightarrow> P (fst (snd (detach_all detach_thread p ts n s m)))"
proof (induction ts arbitrary: n s m)
  case (Cons t ts)
  obtain a s1 where d: "detach_thread p t s = (a, s1)" by fastforce
  have "P s1" using kept [OF sched_call.intros(21) [of s p t] Cons.prems] d by simp
  then show ?case using d Cons.IH [of s1] by (cases a) simp_all
qed simp

lemma terminate_thread_keeps:
  assumes "P s"
  shows "P (fst (snd (terminate_thread detach_thread m s t)))"
proof (cases "map_of (pm_threads m) t")
  case (Some r)
  obtain a s1 where d: "detach_thread (tr_process r) t s = (a, s1)" by fastforce
  have "P s1" using kept [OF sched_call.intros(21) [of s "tr_process r" t] assms] d by simp
  then show ?thesis using Some d assms by (cases a) (simp_all add: terminate_thread_def)
qed (use assms in \<open>simp add: terminate_thread_def\<close>)

lemma terminate_process_keeps:
  assumes "P s"
  shows "P (fst (snd (terminate_process detach_thread m s p)))"
proof (cases "map_of (processes m) p")
  case (Some r)
  obtain a s1 m1 where d: "detach_all detach_thread p (sorted_list_of_set (pr_threads r)) 0 s m = (a, s1, m1)" by (metis prod.exhaust)
  have "P s1" using detach_all_keeps [OF assms, of p "sorted_list_of_set (pr_threads r)" 0 m] d by simp
  then show ?thesis using Some d assms by (cases a) (simp_all add: terminate_process_def Let_def)
qed (use assms in \<open>simp add: terminate_process_def\<close>)

lemma create_thread_ex_keeps:
  assumes "P s"
  shows "P (fst (snd (create_thread_ex attach_thread m s p start ctx base sz)))"
proof -
  obtain a s1 where a: "attach_thread p (next_thread m) start ctx base sz s = (a, s1)" by fastforce
  have "P s1" using kept [OF sched_call.intros(20) [of s p "next_thread m" start ctx base sz] assms] a by simp
  moreover have "fst (snd (create_thread_ex attach_thread m s p start ctx base sz)) \<in> {s, s1}"
    using a by (cases "map_of (processes m) p"; cases a) (auto simp: create_thread_ex_def Let_def)
  ultimately show ?thesis using assms by auto
qed

lemma st_create_keeps:
  assumes "P s"
  shows "P (fst (snd (st_create s m p start ctx base sz)))"
proof (cases "sz < 0x1000 \<or> base mod 16 \<noteq> 0 \<or> checked_add64 base sz = None \<or> pending_attach s \<noteq> None")
  case True
  then show ?thesis using assms by (auto simp: st_create_def)
next
  case False
  let ?s1 = "s\<lparr>st_next_handle := saturating_add64 (st_next_handle s) 4,
      pending_attach := Some \<lparr>pa_handle = st_next_handle s, pa_context = ctx, pa_stack_base = base, pa_stack_size = sz\<rparr>\<rparr>"
  obtain r s2 m2 where c: "create_thread_ex attach_thread m ?s1 p start ctx base sz = (r, s2, m2)" by (metis prod.exhaust)
  have "P ?s1" using assms by (simp only: fields)
  then have "P s2" using create_thread_ex_keeps [of ?s1 m p start ctx base sz] c by simp
  moreover have "fst (snd (st_create s m p start ctx base sz)) \<in> {s2\<lparr>st_created := st_created s2 + 1\<rparr>, s2\<lparr>pending_attach := None\<rparr>, s2}"
    using False c by (cases r) (simp_all add: st_create_def Let_def)
  ultimately show ?thesis by (auto simp only: fields insert_iff empty_iff)
qed

lemma island_call_keeps: "island_call x y \<Longrightarrow> P (fst x) \<Longrightarrow> P (fst y)"
  by (induction rule: island_call.induct)
    (auto intro: kept st_create_keeps create_thread_ex_keeps terminate_thread_keeps terminate_process_keeps)

end

lemma sched_call_inv: "sched_call s s' \<Longrightarrow> sched_inv s \<Longrightarrow> sched_inv s'"
  by (induction rule: sched_call.induct)
    (simp_all add: take_next_inv finish_current_inv fail_current_inv request_terminate_inv request_terminate_current_inv queue_apc_inv
      apc_ops_inv st_close_handle_inv field_ops_inv requeue_current_inv wait_current_inv wake_inv cancel_wait_inv
      release_running_for_wait_def sched_unslot adopt_thread_inv attach_thread_inv detach_thread_inv)

interpretation queue: sched_predicate sched_inv
proof
  show "sched_inv s'" if "sched_call s s'" "sched_inv s" for s s' using that by (rule sched_call_inv)
qed (simp_all add: sched_inv_def thread_state_of_def)

text \<open>A thread that holds the processor outside the slot stays so until it is restored.\<close>

definition parked :: "nat \<Rightarrow> system_thread_manager \<Rightarrow> bool" where
  "parked t s \<longleftrightarrow> running s \<noteq> Some t \<and> (\<exists>st. thread_state_of s t = Some st \<and> slot_state st)"

lemma take_ready_parked: "parked t s \<Longrightarrow> parked t (snd (take_ready q s))"
  by (induction q s rule: take_ready.induct) (auto simp: parked_def thread_state_of_def slot_state_def split: option.split)

lemma sched_call_parked: "sched_call s s' \<Longrightarrow> parked t s \<Longrightarrow> parked t s'"
proof (induction rule: sched_call.induct)
  case (1 s)
  then show ?case using take_ready_parked [of t s "ready s"] by (simp add: take_next_def)
next
  case (3 s)
  then show ?case
    by (cases "running s")
      (auto simp: fail_current_def finish_current_def parked_def thread_state_of_def slot_state_def split: option.splits)
next
  case (4 s h st)
  then show ?case
    by (cases "thread_of s h")
      (auto simp: request_terminate_def parked_def thread_state_of_def slot_state_def attempt_def ok_or_def split: option.splits kernel_thread_state.splits)
next
  case (6 s h routine ctx)
  then show ?case
    by (cases "thread_of s h")
      (auto simp: queue_apc_def parked_def thread_state_of_def slot_state_def Let_def attempt_def ok_or_def split: option.splits)
next
  case (15 s h st)
  then show ?case
    by (cases "thread_of s h")
      (auto simp: cancel_wait_def wake_def parked_def thread_state_of_def slot_state_def attempt_def ok_or_def split: option.splits)
qed (auto simp: parked_def thread_state_of_def slot_state_def finish_current_def request_terminate_current_def take_apcs_by_thread_def
    take_apcs_def cancel_apc_def st_close_handle_def set_irql_def requeue_current_def wait_current_def wake_def adopt_thread_def attach_thread_def
    detach_thread_def set_pending_wake_status_def take_wake_status_def release_running_for_wait_def attempt_def ok_or_def Let_def
    thread_of_def split: option.splits res.splits)

interpretation park: sched_predicate "parked t" for t
proof
  show "parked t s'" if "sched_call s s'" "parked t s" for s s' using that by (rule sched_call_parked)
qed (simp_all add: parked_def thread_state_of_def)

text \<open>No call forgets a thread.\<close>

lemma take_ready_known: "st_known s \<subseteq> st_known (snd (take_ready q s))"
  by (induction q s rule: take_ready.induct) (auto simp: st_known_def split: option.split)

lemma sched_call_known: "sched_call s s' \<Longrightarrow> st_known s \<subseteq> st_known s'"
proof (induction rule: sched_call.induct)
  case (1 s)
  then show ?case using take_ready_known [of s "ready s"] by (simp add: take_next_def)
next
  case (3 s)
  then show ?case
    by (cases "running s")
      (auto simp: fail_current_def finish_current_def st_known_def split: option.splits)
next
  case (4 s h st)
  then show ?case
    by (cases "thread_of s h") (auto simp: request_terminate_def st_known_def attempt_def ok_or_def split: option.splits kernel_thread_state.splits)
next
  case (6 s h routine ctx)
  then show ?case
    by (cases "thread_of s h") (auto simp: queue_apc_def st_known_def Let_def attempt_def ok_or_def split: option.splits)
next
  case (15 s h st)
  then show ?case
    by (cases "thread_of s h") (auto simp: cancel_wait_def wake_def st_known_def attempt_def ok_or_def split: option.splits)
qed (auto simp: finish_current_def request_terminate_current_def take_apcs_by_thread_def
    take_apcs_def cancel_apc_def st_close_handle_def set_irql_def requeue_current_def wait_current_def wake_def adopt_thread_def attach_thread_def
    detach_thread_def set_pending_wake_status_def take_wake_status_def release_running_for_wait_def st_known_def attempt_def ok_or_def Let_def
    thread_of_def split: option.splits res.splits)

lemma proc_step_inv: "proc_step m m' \<Longrightarrow> proc_inv m \<Longrightarrow> proc_inv m'"
  by (induction rule: proc_step.induct)
    (simp_all add: create_process_inv ensure_process_inv start_thread_inv open_process_inv open_thread_inv duplicate_process_handle_inv
      inherit_process_handles_inv close_process_handle_inv set_record_ops_inv)

lemma inherit_all_processes: "processes (snd (inherit_all child l created m)) = processes m"
proof (induction l arbitrary: created m)
  case (Cons x l)
  have "inherit_all child (x # l) created m =
      inherit_all child l (created @ [pm_next_handle m]) (snd (insert_process_handle m child (fst x) (snd x) True))"
    by (cases x) (simp add: insert_process_handle_def Let_def)
  then show ?case by (simp add: Cons insert_process_handle_fields)
qed simp

lemma attached_same: "attached K m \<Longrightarrow> processes m' = processes m \<Longrightarrow> attached K m'"
  by (simp add: attached_def)

lemma attached_new_process:
  assumes att: "attached K m" and m': "processes m' = adopt_child parent i (om_insert i (new_process_record i parent img sec) (processes m))"
  shows "attached K m'"
proof (rule attachedI)
  fix p r t assume "map_of (processes m') p = Some r" "t \<in> pr_threads r"
  then show "t \<in> K"
    unfolding m' by (cases parent) (auto simp: adopt_child_def new_process_record_def dest: attachedD [OF att] split: if_splits)
qed

lemma proc_step_attached:
  assumes "proc_step m m'" and att: "attached K m"
  shows "attached K m'"
  using assms
proof (induction rule: proc_step.induct)
  case (1 m parent img sec)
  show ?case
  proof (cases "snd (create_process m parent img sec) = m")
    case False
    then have "processes (snd (create_process m parent img sec)) =
        adopt_child parent (next_process m) (om_insert (next_process m) (new_process_record (next_process m) parent img sec) (processes m))"
      by (auto simp: create_process_def Let_def attempt_def split: res.splits if_splits)
    then show ?thesis by (rule attached_new_process [OF 1])
  qed (use 1 in simp)
next
  case (2 m i img parent)
  show ?case
  proof (cases "snd (ensure_process m i img parent) = m")
    case False
    then have "processes (snd (ensure_process m i img parent)) = adopt_child parent i (om_insert i (new_process_record i parent img None) (processes m))"
      by (auto simp: ensure_process_def split: if_splits)
    then show ?thesis by (rule attached_new_process [OF 2])
  qed (use 2 in simp)
next
  case (3 m t)
  then show ?case by (rule attached_same) (auto simp: start_thread_def attempt_def split: res.splits thread_state.splits)
next
  case (4 m owner target access inh)
  then show ?case
    by (rule attached_same) (auto simp: open_process_def insert_process_handle_def Let_def attempt_def split: res.splits)
next
  case (5 m owner target access inh)
  then show ?case
    by (rule attached_same) (auto simp: open_thread_def insert_process_handle_def Let_def attempt_def split: res.splits)
next
  case (6 m owner source access inh)
  then show ?case
    by (rule attached_same) (auto simp: duplicate_process_handle_def insert_process_handle_def Let_def attempt_def split: res.splits)
next
  case (7 m parent' child)
  then show ?case by (rule attached_same) (auto simp: inherit_process_handles_def inherit_all_processes attempt_def split: res.splits)
next
  case (8 m owner h)
  then show ?case by (rule attached_same) (auto simp: close_process_handle_def attempt_def split: res.splits)
next
  case (9 m owner)
  then show ?case by (rule attached_same) (simp add: close_process_handles_def Let_def)
next
  case (10 m p sec)
  show ?case
    by (rule attachedI) (auto simp: set_image_section_def attempt_def ok_or_def dest: attachedD [OF 10] split: res.splits if_splits option.splits)
next
  case (11 m p tok)
  show ?case
    by (rule attachedI) (auto simp: set_token_def attempt_def ok_or_def dest: attachedD [OF 11] split: res.splits if_splits option.splits)
qed

text \<open>Creating a thread reaches the process manager only through \<open>create_thread_ex\<close>.\<close>

lemma st_create_process:
  obtains "snd (st_create s m p start ctx base sz) = (s, m)"
  | n b a s2 m2 where "create_thread_ex attach_thread m (s\<lparr>st_next_handle := n, pending_attach := b\<rparr>) p start ctx base sz = (a, s2, m2)"
    "snd (snd (st_create s m p start ctx base sz)) = m2" "st_known (fst (snd (st_create s m p start ctx base sz))) = st_known s2"
proof (cases "sz < 0x1000 \<or> base mod 16 \<noteq> 0 \<or> checked_add64 base sz = None \<or> pending_attach s \<noteq> None")
  case True
  then have "snd (st_create s m p start ctx base sz) = (s, m)" by (auto simp: st_create_def)
  then show ?thesis by (rule that(1))
next
  case False
  let ?s = "s\<lparr>st_next_handle := saturating_add64 (st_next_handle s) 4,
    pending_attach := Some \<lparr>pa_handle = st_next_handle s, pa_context = ctx, pa_stack_base = base, pa_stack_size = sz\<rparr>\<rparr>"
  obtain a s2 m2 where e: "create_thread_ex attach_thread m ?s p start ctx base sz = (a, s2, m2)" by (metis prod.exhaust)
  then have "snd (snd (st_create s m p start ctx base sz)) = m2" "st_known (fst (snd (st_create s m p start ctx base sz))) = st_known s2"
    using False by (cases a; auto simp: st_create_def Let_def st_known_def)+
  then show ?thesis by (rule that(2) [OF e])
qed

lemma island_call_proc: "island_call x y \<Longrightarrow> proc_inv (snd x) \<Longrightarrow> proc_inv (snd y)"
proof (induction rule: island_call.induct)
  case (create s m p start ctx base sz)
  show ?case
  proof (rule st_create_process [of s m p start ctx base sz])
    fix n b a s2 m2
    assume "create_thread_ex attach_thread m (s\<lparr>st_next_handle := n, pending_attach := b\<rparr>) p start ctx base sz = (a, s2, m2)"
      "snd (snd (st_create s m p start ctx base sz)) = m2"
    then show ?thesis
      using create_thread_ex_inv [of m attach_thread "s\<lparr>st_next_handle := n, pending_attach := b\<rparr>" p start ctx base sz] create by simp
  qed (use create in simp)
qed (auto intro: proc_step_inv create_thread_ex_inv terminate_thread_inv terminate_process_inv)

lemma island_call_attached:
  "island_call x y \<Longrightarrow> proc_inv (snd x) \<Longrightarrow> attached (st_known (fst x)) (snd x) \<Longrightarrow> attached (st_known (fst y)) (snd y)"
proof (induction rule: island_call.induct)
  case (scheduler s s' m)
  then show ?case using sched_call_known [of s s'] attached_mono by auto
next
  case (executive m m' s)
  then show ?case using proc_step_attached [of m m'] by simp
next
  case (create s m p start ctx base sz)
  show ?case
  proof (rule st_create_process [of s m p start ctx base sz])
    fix n b a s2 m2
    assume e: "create_thread_ex attach_thread m (s\<lparr>st_next_handle := n, pending_attach := b\<rparr>) p start ctx base sz = (a, s2, m2)"
      and k: "snd (snd (st_create s m p start ctx base sz)) = m2" "st_known (fst (snd (st_create s m p start ctx base sz))) = st_known s2"
    have "attached (st_known (s\<lparr>st_next_handle := n, pending_attach := b\<rparr>)) m" using create by (simp add: st_known_def)
    then show ?thesis using e unfolding k by (rule sched.create_thread_ex_attached)
  qed (use create in simp)
next
  case (create_ex s m p start ctx base sz)
  obtain r s' m' where c: "create_thread_ex attach_thread m s p start ctx base sz = (r, s', m')" by (metis prod.exhaust)
  then show ?case using create_ex sched.create_thread_ex_attached [of s m p start ctx base sz r s' m'] by simp
next
  case (terminate_thread s m t)
  obtain r s' m' where c: "terminate_thread detach_thread m s t = (r, s', m')" by (metis prod.exhaust)
  then show ?case using terminate_thread sched.terminate_thread_attached [of s m t r s' m'] by simp
next
  case (terminate_process s m p)
  obtain r s' m' where c: "terminate_process detach_thread m s p = (r, s', m')" by (metis prod.exhaust)
  then show ?case using terminate_process sched.terminate_process_attached [of m s p r s' m'] by simp
qed

section \<open>The invariants of the runs\<close>

lemma island_step_proc: "island_step x y \<Longrightarrow> proc_inv (snd x) \<Longrightarrow> proc_inv (snd y)"
  by (induction rule: island_step.induct) (simp_all add: island_call_proc ensure_thread_inv)

interpretation island: invariant_system "\<lambda>x. x = island_new" island_step "\<lambda>x. proc_inv (snd x)"
  by unfold_locales (auto simp: island_new_def proc_inv_new intro: island_step_proc)

lemma orderly_step_inv: "orderly_step x y \<Longrightarrow> sched_inv (fst x) \<Longrightarrow> sched_inv (fst y)"
  by (induction rule: orderly_step.induct) (simp_all add: queue.island_call_keeps restore_running_inv)

interpretation orderly: invariant_system "\<lambda>x. x = island_new" orderly_step "\<lambda>x. sched_inv (fst x)"
  by unfold_locales (auto simp: island_new_def sched_inv_new intro: orderly_step_inv)

definition nested_inv :: "nested_state \<Rightarrow> bool" where
  "nested_inv x \<longleftrightarrow> sched_inv (fst (snd x)) \<and> (\<forall>t \<in> fst x. parked t (fst (snd x)))"

lemma nested_step_inv: "nested_step x y \<Longrightarrow> nested_inv x \<Longrightarrow> nested_inv y"
proof (induction rule: nested_step.induct)
  case (call s m s' m' R)
  then show ?case using queue.island_call_keeps [OF call(1)] park.island_call_keeps [OF call(1)] by (simp add: nested_inv_def)
next
  case (release s t s' R m)
  then have s': "running s = Some t" "s' = s\<lparr>running := None\<rparr>" by (simp_all add: release_running_for_wait_def)
  have "parked t s'" using sched_inv_dest(5) [of s t] release s' by (auto simp: nested_inv_def parked_def thread_state_of_def)
  then show ?case using release s' sched_unslot [of s] by (auto simp: nested_inv_def parked_def thread_state_of_def)
next
  case (restore t R s m)
  then have t: "sched_inv s" "parked t s" "\<And>u. u \<in> R \<Longrightarrow> parked u s" by (simp_all add: nested_inv_def)
  have "sched_inv (restore_running s t)" using t(1,2) restore_running_inv [of s t] by (auto simp: parked_def)
  then show ?case using t(3) by (auto simp: nested_inv_def parked_def restore_running_def thread_state_of_def)
qed (simp add: nested_inv_def)

interpretation nested: invariant_system "\<lambda>x. x = ({}, island_new)" nested_step nested_inv
proof
  show "nested_inv x" if "x = ({}, island_new)" for x using that by (simp add: nested_inv_def island_new_def sched_inv_new)
qed (rule nested_step_inv)

lemma host_step_inv:
  "host_step x y \<Longrightarrow> proc_inv (snd x) \<and> attached (st_known (fst x)) (snd x) \<Longrightarrow> proc_inv (snd y) \<and> attached (st_known (fst y)) (snd y)"
proof (induction rule: host_step.induct)
  case (call x y)
  then show ?case using island_call_proc [of x y] island_call_attached [of x y] by blast
next
  case (register m p t start m' s)
  have e: "snd (ensure_thread m p t start) = m'" using register by simp
  have inv: "proc_inv m'" using ensure_thread_inv [of m p t start] register e by simp
  have k: "st_known (snd (adopt_thread s p t)) = insert t (st_known s)"
    by (auto simp: adopt_thread_def st_known_def)
  have "attached (insert t (st_known s)) m'"
  proof (rule attachedI)
    fix q r x assume "map_of (processes m') q = Some r" "x \<in> pr_threads r"
    then show "x \<in> insert t (st_known s)" using register attachedD [of "st_known s" m]
      by (auto simp: e [symmetric] ensure_thread_def insert_thread_def attempt_def ok_or_def split: if_splits option.splits res.splits)
  qed
  then show ?case using inv by (simp add: k)
qed (simp add: restore_running_def st_known_def)

interpretation host: invariant_system "\<lambda>x. x = island_new" host_step "\<lambda>x. proc_inv (snd x) \<and> attached (st_known (fst x)) (snd x)"
proof
  show "proc_inv (snd x) \<and> attached (st_known (fst x)) (snd x)" if "x = island_new" for x
    using that proc_inv_new by (simp add: island_new_def attached_def process_manager_new_def)
qed (rule host_step_inv)

text \<open>When the threads of the host are registered with both managers, the scheduler knows every thread of every process.\<close>

lemma host_threads_known:
  assumes "host_step\<^sup>*\<^sup>* island_new (s, m)" "query_process m p = Ok r" "t \<in> pr_threads r"
  shows "thread_state_of s t \<noteq> None"
proof -
  have "attached (st_known s) m" using host.reachable_inv [OF refl assms(1)] by simp
  moreover have "map_of (processes m) p = Some r" using assms(2) by (cases "map_of (processes m) p") (simp_all add: query_process_def)
  ultimately have "t \<in> st_known s" using assms(3) by (rule attachedD)
  then show ?thesis by (auto simp: st_known_def thread_state_of_def)
qed

text \<open>What a completed loop of detachments leaves behind.\<close>

lemma detach_thread_states:
  assumes "t \<in> st_known s"
  shows "\<exists>s2. detach_thread p t s = (Ok (), s2) \<and> (\<forall>u. thread_state_of s2 u = (if u = t then Some KTerminated else thread_state_of s u)) \<and>
     ready s2 = filter (\<lambda>c. c \<noteq> t) (ready s) \<and> st_known s2 = st_known s"
  using assms by (auto simp: st_known_def detach_thread_def thread_state_of_def Let_def)

lemma detach_all_states:
  "set ts \<subseteq> st_known s \<Longrightarrow> detach_all detach_thread p ts n s m = (Ok k, s1, m1) \<Longrightarrow>
     (\<forall>t. thread_state_of s1 t = (if t \<in> set ts then Some KTerminated else thread_state_of s t)) \<and>
     ready s1 = filter (\<lambda>t. t \<notin> set ts) (ready s)"
proof (induction ts arbitrary: n s m)
  case (Cons x ts)
  obtain s2 where d: "detach_thread p x s = (Ok (), s2)" "\<forall>u. thread_state_of s2 u = (if u = x then Some KTerminated else thread_state_of s u)"
      "ready s2 = filter (\<lambda>c. c \<noteq> x) (ready s)" "st_known s2 = st_known s" using detach_thread_states [of x s p] Cons.prems(1) by auto
  have "detach_all detach_thread p ts (n + 1) s2 (mark_terminated x m) = (Ok k, s1, m1)" using Cons.prems(2) d(1) by simp
  from Cons.IH [OF _ this] show ?case using Cons.prems(1) d by (auto intro: filter_cong)
qed simp

text \<open>The two outcomes of the termination of an active process.\<close>

lemma detach_all_unknown:
  "\<not> set ts \<subseteq> st_known s \<Longrightarrow> \<exists>s1 m1. detach_all detach_thread p ts n s m = (Err STATUS_INVALID_HANDLE, s1, m1) \<and> processes m1 = processes m"
proof (induction ts arbitrary: n s m)
  case (Cons t ts)
  show ?case
  proof (cases "t \<in> st_known s")
    case True
    then obtain s2 where d: "detach_thread p t s = (Ok (), s2)" "st_known s2 = st_known s" using detach_thread_states [of t s p] by blast
    have "\<not> set ts \<subseteq> st_known s2" using Cons.prems True d(2) by auto
    from Cons.IH [OF this, of "n + 1" "mark_terminated t m"] show ?thesis using d(1) by (auto simp: mark_terminated_def)
  next
    case False
    then have "detach_thread p t s = (Err STATUS_INVALID_HANDLE, s)" by (auto simp: detach_thread_def st_known_def split: option.split)
    then show ?thesis by simp
  qed
qed simp

lemma terminate_unknown:
  assumes inv: "proc_inv m" and r: "map_of (processes m) p = Some r" "pr_state r = Active" and K: "\<not> pr_threads r \<subseteq> st_known s"
  shows "\<exists>s1 m1. terminate_process detach_thread m s p = (Err STATUS_INVALID_HANDLE, s1, m1) \<and> query_process m1 p = Ok r"
proof -
  have "\<not> set (sorted_list_of_set (pr_threads r)) \<subseteq> st_known s" using K threads_finite [OF inv r(1)] by simp
  from detach_all_unknown [OF this, of p 0 m] obtain s1 m1
    where d: "detach_all detach_thread p (sorted_list_of_set (pr_threads r)) 0 s m = (Err STATUS_INVALID_HANDLE, s1, m1)"
      and m1: "processes m1 = processes m" by blast
  show ?thesis using terminate_process_cases [OF inv r d] r m1 by (simp add: query_process_def)
qed

lemma terminate_known:
  assumes inv: "proc_inv m" and r: "map_of (processes m) p = Some r" and act: "pr_state r = Active" and K: "pr_threads r \<subseteq> st_known s"
  shows "\<exists>s1 m1. terminate_process detach_thread m s p = (Ok (card (pr_threads r)), s1, m1) \<and>
     (\<forall>t \<in> pr_threads r. thread_state_of s1 t = Some KTerminated \<and> (\<exists>u. query_thread m1 t = Ok u \<and> \<not> is_live u)) \<and>
     ready s1 = filter (\<lambda>t. t \<notin> pr_threads r) (ready s) \<and>
     (\<exists>r1. query_process m1 p = Ok r1 \<and> pr_state r1 = Terminated \<and> pr_threads r1 = {}) \<and>
     (\<forall>q u. pr_parent r = Some q \<and> query_process m1 q = Ok u \<longrightarrow> p \<notin> pr_children u) \<and>
     terminate_process detach_thread m1 s1 p = (Err STATUS_PROCESS_IS_TERMINATING, s1, m1)"
proof -
  have fin: "finite (pr_threads r)" by (rule threads_finite [OF inv r])
  obtain s1 m1 where t: "terminate_process detach_thread m s p = (Ok (card (pr_threads r)), s1, m1)"
    and m1: "m1 = close_record p r (fold mark_terminated (sorted_list_of_set (pr_threads r)) m)"
    using sched.terminate_process_total [OF inv r act K] by blast
  have np: "pr_parent r \<noteq> Some p" using processes_ok_dest(2) [OF proc_inv_dest(1) [OF inv] r] by (auto simp: process_ok_def)
  let ?f = "fold mark_terminated (sorted_list_of_set (pr_threads r)) m"
  have rf: "map_of (processes ?f) p = Some r" using r by (simp add: fold_mark_terminated)
  have ps: "map_of (processes m1) x =
      (if x = p then Some (r\<lparr>pr_threads := {}, pr_state := Terminated, pr_exit_status := STATUS_PROCESS_IS_TERMINATING\<rparr>)
       else if pr_parent r = Some x then map_option (\<lambda>q. q\<lparr>pr_children := pr_children q - {p}\<rparr>) (map_of (processes m) x)
       else map_of (processes m) x)" for x
    unfolding m1 close_record_processes [OF rf np] by (simp add: fold_mark_terminated)
  have dead: "\<exists>u. query_thread m1 x = Ok u \<and> \<not> is_live u" if x: "x \<in> pr_threads r" for x
  proof -
    obtain u where "map_of (pm_threads m) x = Some u" using threads_ok_dest(4) [OF proc_inv_dest(2) [OF inv] r x] by blast
    then show ?thesis using x fin by (simp add: query_thread_def m1 close_record_fields fold_mark_terminated is_live_def)
  qed
  obtain s1' where d: "detach_all detach_thread p (sorted_list_of_set (pr_threads r)) 0 s m = (Ok (card (pr_threads r)), s1', ?f)"
    using sched.detach_all_total [of "sorted_list_of_set (pr_threads r)" s p 0 m] K fin by auto
  have "s1' = s1" using terminate_process_cases [OF inv r act d] t by simp
  then have st: "\<forall>x \<in> pr_threads r. thread_state_of s1 x = Some KTerminated" and rd: "ready s1 = filter (\<lambda>t. t \<notin> pr_threads r) (ready s)"
    using detach_all_states [OF _ d] K fin by simp_all
  have "terminate_process detach_thread m1 s1 p = (Err STATUS_PROCESS_IS_TERMINATING, s1, m1)" by (simp add: terminate_process_def ps)
  moreover have "p \<notin> pr_children u" if "pr_parent r = Some x" "query_process m1 x = Ok u" for x u
    using that np by (cases "map_of (processes m) x") (auto simp: query_process_def ps)
  moreover have "query_process m1 p = Ok (r\<lparr>pr_threads := {}, pr_state := Terminated, pr_exit_status := STATUS_PROCESS_IS_TERMINATING\<rparr>)"
    by (simp add: query_process_def ps)
  ultimately show ?thesis using t dead st rd by (intro exI [of _ s1] exI [of _ m1]) auto
qed

section \<open>Serving the queue in turn\<close>

text \<open>\<open>n\<close> slices that each end with their quantum.\<close>

fun run_slices :: "nat \<Rightarrow> system_thread_manager \<Rightarrow> system_thread_manager" where
  "run_slices 0 s = s"
| "run_slices (Suc n) s = run_slices n (snd (requeue_current (snd (take_next s))))"

lemma one_slice:
  assumes inv: "sched_inv s" and free: "running s = None" and q: "ready s = t # q"
  shows "ready (snd (requeue_current (snd (take_next s)))) = q @ [t]" "running (snd (requeue_current (snd (take_next s)))) = None"
    "sched_inv (snd (requeue_current (snd (take_next s))))" "\<exists>r. fst (take_next s) = Some r \<and> rt_id r = t"
proof -
  obtain r where r: "map_of (kthreads s) t = Some r" "kt_state r = KReady"
    and take: "take_ready (ready s) s = (Some \<lparr>rt_id = t, rt_process = kt_process r, rt_start_routine = kt_start_routine r, rt_context = kt_context r,
                  rt_stack_base = kt_stack_base r, rt_stack_size = kt_stack_size r\<rparr>,
                s\<lparr>ready := q, kthreads := om_insert t (r\<lparr>kt_state := KRunning\<rparr>) (kthreads s), running := Some t,
                  st_started := st_started s + 1\<rparr>)" using take_ready_eq(2) [OF inv q] by blast
  have next_eq: "take_next s = take_ready (ready s) s" using free by (simp add: take_next_def)
  show "ready (snd (requeue_current (snd (take_next s)))) = q @ [t]" "running (snd (requeue_current (snd (take_next s)))) = None"
    unfolding next_eq take by (simp_all add: requeue_current_def)
  show "sched_inv (snd (requeue_current (snd (take_next s))))" using requeue_current_inv [OF take_next_inv [OF inv]] by blast
  show "\<exists>r. fst (take_next s) = Some r \<and> rt_id r = t" unfolding next_eq take by simp
qed

lemma run_slices_rotate:
  "sched_inv s \<Longrightarrow> running s = None \<Longrightarrow>
     ready (run_slices n s) = rotate n (ready s) \<and> running (run_slices n s) = None \<and> sched_inv (run_slices n s)"
proof (induction n arbitrary: s)
  case (Suc n)
  let ?s = "snd (requeue_current (snd (take_next s)))"
  show ?case
  proof (cases "ready s")
    case Nil
    then have "take_next s = (None, s)" using Suc.prems take_ready_eq(1) [OF Suc.prems(1)] by (simp add: take_next_def del: take_ready.simps)
    then have "?s = s" using Suc.prems by (simp add: requeue_current_def)
    then show ?thesis using Suc Nil by simp
  next
    case (Cons t q)
    note o = one_slice [OF Suc.prems Cons]
    have "rotate (Suc n) (ready s) = rotate n (q @ [t])" using Cons by (simp add: rotate1_rotate_swap)
    then show ?thesis using Suc.IH [OF o(3,2)] o(1) by simp
  qed
qed simp

section \<open>Properties\<close>

definition demo_island0 :: "system_thread_manager \<times> process_manager" where
  "demo_island0 = (system_thread_manager_new, snd (create_process process_manager_new None ''sys'' None))"

definition demo_island1 :: "system_thread_manager \<times> process_manager" where
  "demo_island1 = snd (st_create (fst demo_island0) (snd demo_island0) 4 0x1000 7 0x10000 0x1000)"

definition demo_island2 :: "system_thread_manager \<times> process_manager" where
  "demo_island2 = snd (st_create (fst demo_island1) (snd demo_island1) 4 0x1000 9 0x20000 0x1000)"

lemma demo_island0_eq:
  "demo_island0 = (system_thread_manager_new, \<lparr>processes = [(4, new_process_record 4 None ''sys'' None)], pm_threads = [], pm_handles = [],
     next_process = 8, next_thread = 4, pm_next_handle = 4\<rparr>)"
  by (simp add: demo_island0_def create_process_def process_manager_new_def str_trim_def is_whitespace_def str_contains_def
      adopt_child_def u32_max_def)

definition demo_kthread :: kernel_thread where
  "demo_kthread = \<lparr>kt_id = 4, kt_process = 4, kt_start_routine = 0x1000, kt_context = 7,
     kt_stack_base = 0x10000, kt_stack_size = 0x1000, kt_state = KReady, kt_exit_status = 0,
     kt_irql = 0, kt_termination_requested = None, kt_apcs = [], kt_wait = None, kt_pending_wake_status = None\<rparr>"

lemma demo_island1_eq:
  "demo_island1 = (system_thread_manager_new\<lparr>kthreads := [(4, demo_kthread)], st_handles := [(0x100, 4)], ready := [4],
      st_next_handle := 0x104, st_created := 1\<rparr>,
     \<lparr>processes = [(4, (new_process_record 4 None ''sys'' None)\<lparr>pr_threads := {4}\<rparr>)],
      pm_threads = [(4, \<lparr>tr_id = 4, tr_process = 4, tr_start_routine = 0x1000, tr_state = TsReady\<rparr>)], pm_handles = [],
      next_process = 8, next_thread = 8, pm_next_handle = 4\<rparr>)"
  by (simp add: demo_island1_def demo_island0_eq st_create_def create_thread_ex_def attach_thread_def insert_thread_def om_update_def
      system_thread_manager_new_def new_process_record_def demo_kthread_def checked_add64_def saturating_add64_def u32_max_def u64_max_def Let_def)

lemma demo_island2_eq:
  "demo_island2 = (system_thread_manager_new\<lparr>kthreads := [(4, demo_kthread), (8, demo_kthread\<lparr>kt_id := 8, kt_context := 9, kt_stack_base := 0x20000\<rparr>)],
      st_handles := [(0x100, 4), (0x104, 8)], ready := [4, 8], st_next_handle := 0x108, st_created := 2\<rparr>,
     \<lparr>processes = [(4, (new_process_record 4 None ''sys'' None)\<lparr>pr_threads := {4, 8}\<rparr>)],
      pm_threads = [(4, \<lparr>tr_id = 4, tr_process = 4, tr_start_routine = 0x1000, tr_state = TsReady\<rparr>),
        (8, \<lparr>tr_id = 8, tr_process = 4, tr_start_routine = 0x1000, tr_state = TsReady\<rparr>)], pm_handles = [],
      next_process = 8, next_thread = 12, pm_next_handle = 4\<rparr>)"
  by (simp add: demo_island2_def demo_island1_eq st_create_def create_thread_ex_def attach_thread_def insert_thread_def om_update_def
      system_thread_manager_new_def new_process_record_def demo_kthread_def checked_add64_def saturating_add64_def u32_max_def u64_max_def Let_def
      insert_commute)

lemma demo_calls: "island_call island_new demo_island0" "island_call demo_island0 demo_island1" "island_call demo_island1 demo_island2"
proof -
  show "island_call island_new demo_island0" unfolding demo_island0_def island_new_def by (intro island_call.executive proc_step.intros)
  show "island_call demo_island0 demo_island1"
    unfolding demo_island1_def using island_call.create [of "fst demo_island0" "snd demo_island0"] by simp
  show "island_call demo_island1 demo_island2"
    unfolding demo_island2_def using island_call.create [of "fst demo_island1" "snd demo_island1"] by simp
qed

lemma demo_island_reachable: "island_step\<^sup>*\<^sup>* island_new demo_island1" "orderly_step\<^sup>*\<^sup>* island_new demo_island2"
  using demo_calls by (meson island_step.call orderly_step.call rtranclp.rtrancl_into_rtrancl rtranclp.rtrancl_refl)+

text \<open>A thread registered with the process manager alone, and a thread released for a nested wait.\<close>

definition demo_ensured :: "system_thread_manager \<times> process_manager" where
  "demo_ensured = (fst demo_island0, snd (ensure_thread (snd demo_island0) 4 20 0x3000))"

lemma demo_ensured_eq:
  "demo_ensured = (system_thread_manager_new, \<lparr>processes = [(4, (new_process_record 4 None ''sys'' None)\<lparr>pr_threads := {20}\<rparr>)],
     pm_threads = [(20, \<lparr>tr_id = 20, tr_process = 4, tr_start_routine = 0x3000, tr_state = TsRunning\<rparr>)], pm_handles = [],
     next_process = 8, next_thread = 24, pm_next_handle = 4\<rparr>)"
  by (simp add: demo_ensured_def demo_island0_eq ensure_thread_def insert_thread_def new_process_record_def om_update_def u32_max_def)

lemma demo_ensured_reachable: "island_step\<^sup>*\<^sup>* island_new demo_ensured"
proof -
  have "island_step demo_island0 demo_ensured"
    unfolding demo_ensured_def using island_step.ensure [of "fst demo_island0" "snd demo_island0"] by simp
  then show ?thesis using demo_calls(1) by (meson island_step.call rtranclp.rtrancl_into_rtrancl rtranclp.rtrancl_refl)
qed

definition demo_nested :: system_thread_manager where
  "demo_nested = snd (release_running_for_wait (snd (take_next (fst demo_island2))))"

lemma demo_nested_eq:
  "demo_nested = system_thread_manager_new\<lparr>kthreads := [(4, demo_kthread\<lparr>kt_state := KRunning\<rparr>),
      (8, demo_kthread\<lparr>kt_id := 8, kt_context := 9, kt_stack_base := 0x20000\<rparr>)],
      st_handles := [(0x100, 4), (0x104, 8)], ready := [8], st_next_handle := 0x108, st_created := 2, st_started := 1\<rparr>"
  by (simp add: demo_nested_def demo_island2_eq take_next_def release_running_for_wait_def demo_kthread_def system_thread_manager_new_def)

lemma demo_nested_reachable: "nested_step\<^sup>*\<^sup>* ({}, island_new) ({4}, demo_nested, snd demo_island2)"
proof -
  have step: "nested_step ({}, x) ({}, y)" if "island_call x y" for x y using nested_step.call [of "fst x" "snd x" "fst y" "snd y" "{}"] that by simp
  have "nested_step\<^sup>*\<^sup>* ({}, island_new) ({}, demo_island2)"
    using demo_calls step by (meson rtranclp.rtrancl_into_rtrancl rtranclp.rtrancl_refl)
  moreover have "island_call demo_island2 (snd (take_next (fst demo_island2)), snd demo_island2)"
    using island_call.scheduler [OF sched_call.intros(1) [of "fst demo_island2"], of "snd demo_island2"] by simp
  ultimately have r: "nested_step\<^sup>*\<^sup>* ({}, island_new) ({}, snd (take_next (fst demo_island2)), snd demo_island2)"
    by (meson rtranclp.rtrancl_into_rtrancl step)
  have "release_running_for_wait (snd (take_next (fst demo_island2))) = (Some 4, demo_nested)"
    by (simp add: demo_nested_def release_running_for_wait_def demo_island2_eq take_next_def system_thread_manager_new_def demo_kthread_def)
  from rtranclp.rtrancl_into_rtrancl [OF r nested_step.release [OF this]] show ?thesis by simp
qed

text \<open>\<open>restore_running\<close> accepts a thread without a record; the next \<open>requeue_current\<close> then panics.\<close>

theorem restore_unknown_panics:
  "thread_state_of s t = None \<Longrightarrow> fst (requeue_current (restore_running s t)) = Panic"
  by (auto simp: requeue_current_def restore_running_def thread_state_of_def)

text \<open>
  C20. In every reachable state of the two managers the records of processes, threads and handles agree: the child set of a process
  holds exactly the active processes that name it as parent, and parents exist; a thread that is not terminated
  belongs to an active process that lists it; and every handle refers to an existing process or thread with a nonzero
  access mask within the rights defined for that kind of object.
\<close>
theorem process_tree_consistent:
  assumes "island_step\<^sup>*\<^sup>* island_new (s, m)"
  shows "(\<forall>p r. query_process m p = Ok r \<longrightarrow>
        pr_children r = {c. \<exists>q. query_process m c = Ok q \<and> pr_parent q = Some p \<and> pr_state q = Active} \<and>
        (\<forall>q. pr_parent r = Some q \<longrightarrow> q \<noteq> p \<and> (\<exists>u. query_process m q = Ok u))) \<and>
     (\<forall>t r. query_thread m t = Ok r \<and> is_live r \<longrightarrow>
        (\<exists>q. query_process m (tr_process r) = Ok q \<and> pr_state q = Active \<and> t \<in> pr_threads q)) \<and>
     (\<forall>owner h e. lookup_process_handle m owner h = Ok e \<longrightarrow> ph_access e \<noteq> 0 \<and>
        (case ph_target e of
           ProcessTarget p \<Rightarrow> covers PROCESS_ALL_ACCESS (ph_access e) \<and> (\<exists>r. query_process m p = Ok r)
         | ThreadTarget t \<Rightarrow> covers THREAD_ALL_ACCESS (ph_access e) \<and> (\<exists>r. query_thread m t = Ok r)))"
proof -
  have inv: "proc_inv m" using island.reachable_inv [OF refl assms] by simp
  note dm = proc_inv_dest [OF inv]
  have qp: "query_process m p = Ok r \<longleftrightarrow> map_of (processes m) p = Some r" for p r
    by (cases "map_of (processes m) p") (simp_all add: query_process_def)
  have qt: "query_thread m t = Ok r \<longleftrightarrow> map_of (pm_threads m) t = Some r" for t r
    by (cases "map_of (pm_threads m) t") (simp_all add: query_thread_def)
  have 1: "pr_children r = {c. active_child (processes m) p c} \<and> (\<forall>q. pr_parent r = Some q \<longrightarrow> q \<noteq> p \<and> (\<exists>u. map_of (processes m) q = Some u))"
    if "map_of (processes m) p = Some r" for p r
    using processes_ok_dest(2) [OF dm(1) that] unfolding process_ok_def by blast
  have 2: "\<exists>q. map_of (processes m) (tr_process r) = Some q \<and> pr_state q = Active \<and> t \<in> pr_threads q"
    if r: "map_of (pm_threads m) t = Some r" "is_live r" for t r
  proof -
    obtain q where q: "map_of (processes m) (tr_process r) = Some q" "t \<in> pr_threads q" using threads_ok_dest(3) [OF dm(2) r(1)] r(2) by blast
    then have "pr_state q \<noteq> Terminated" using processes_ok_dest(2) [OF dm(1) q(1)] by (auto simp: process_ok_def)
    then show ?thesis using q by (cases "pr_state q") auto
  qed
  have 3: "ph_access e \<noteq> 0 \<and> (case ph_target e of
           ProcessTarget p \<Rightarrow> covers PROCESS_ALL_ACCESS (ph_access e) \<and> (\<exists>r. map_of (processes m) p = Some r)
         | ThreadTarget t \<Rightarrow> covers THREAD_ALL_ACCESS (ph_access e) \<and> (\<exists>r. map_of (pm_threads m) t = Some r))"
    if "lookup_process_handle m owner h = Ok e" for owner h e
    using ph_entry_ok_get [OF inv, of h e] that by (cases "ph_target e") (auto simp: lookup_process_handle_Ok ph_entry_ok_def)
  show ?thesis unfolding qp qt using 1 2 3 unfolding active_child_def by blast
qed

theorem process_tree_consistent_witness:
  "query_thread (snd demo_island1) 4 = Ok \<lparr>tr_id = 4, tr_process = 4, tr_start_routine = 0x1000, tr_state = TsReady\<rparr> \<and>
   (\<exists>q. query_process (snd demo_island1) 4 = Ok q \<and> pr_state q = Active \<and> 4 \<in> pr_threads q)"
proof -
  let ?t = "\<lparr>tr_id = 4, tr_process = 4, tr_start_routine = 0x1000, tr_state = TsReady\<rparr>"
  have r: "island_step\<^sup>*\<^sup>* island_new (fst demo_island1, snd demo_island1)" using demo_island_reachable(1) by simp
  have q: "query_thread (snd demo_island1) 4 = Ok ?t" by (simp add: query_thread_def demo_island1_eq)
  moreover have "is_live ?t" by (simp add: is_live_def)
  ultimately have "\<exists>q. query_process (snd demo_island1) (tr_process ?t) = Ok q \<and> pr_state q = Active \<and> 4 \<in> pr_threads q"
    using process_tree_consistent [OF r] by blast
  then show ?thesis using q by simp
qed

text \<open>
  C21. Terminating an active process completes exactly when the scheduler knows all of its threads. This holds after any sequence of calls of the two managers,
  with no condition on \<open>ensure_thread\<close>, which can list a thread the scheduler has never heard of, or on \<open>restore_running\<close>. When
  all threads of the process are known, the termination succeeds and reports the number of its threads: all of them are terminated, for the process manager and for the
  scheduler, and none is left in the ready queue; the process has no threads any more, leaves the children of its parent, and cannot be terminated
  again; and the ready threads of other processes stay ready in their order. When some thread is unknown, the termination
  fails with the invalid handle status and the process keeps its record: it stays active, with all of its threads listed.
\<close>
theorem process_termination_completes:
  assumes reach: "island_step\<^sup>*\<^sup>* island_new (s, m)" and q: "query_process m p = Ok r" "pr_state r = Active"
  shows "if \<forall>t \<in> pr_threads r. thread_state_of s t \<noteq> None
     then \<exists>s1 m1. terminate_process detach_thread m s p = (Ok (card (pr_threads r)), s1, m1) \<and>
       (\<forall>t \<in> pr_threads r. thread_state_of s1 t = Some KTerminated \<and> (\<exists>u. query_thread m1 t = Ok u \<and> \<not> is_live u)) \<and>
       ready s1 = filter (\<lambda>t. t \<notin> pr_threads r) (ready s) \<and>
       (\<exists>r1. query_process m1 p = Ok r1 \<and> pr_state r1 = Terminated \<and> pr_threads r1 = {}) \<and>
       (\<forall>q u. pr_parent r = Some q \<and> query_process m1 q = Ok u \<longrightarrow> p \<notin> pr_children u) \<and>
       terminate_process detach_thread m1 s1 p = (Err STATUS_PROCESS_IS_TERMINATING, s1, m1)
     else \<exists>s1 m1. terminate_process detach_thread m s p = (Err STATUS_INVALID_HANDLE, s1, m1) \<and> query_process m1 p = Ok r"
proof -
  have inv: "proc_inv m" using island.reachable_inv [OF refl reach] by simp
  have r: "map_of (processes m) p = Some r" using q by (cases "map_of (processes m) p") (simp_all add: query_process_def)
  have K: "(\<forall>t \<in> pr_threads r. thread_state_of s t \<noteq> None) \<longleftrightarrow> pr_threads r \<subseteq> st_known s"
    by (auto simp: st_known_def thread_state_of_def)
  show ?thesis unfolding K using terminate_known [OF inv r q(2)] terminate_unknown [OF inv r q(2)] by simp
qed

theorem process_termination_completes_witness:
  "(\<exists>s1 m1. terminate_process detach_thread (snd demo_island1) (fst demo_island1) 4 = (Ok 1, s1, m1) \<and> ready s1 = [] \<and>
     thread_state_of s1 4 = Some KTerminated) \<and>
   fst (terminate_process detach_thread (snd demo_ensured) (fst demo_ensured) 4) = Err STATUS_INVALID_HANDLE"
proof
  let ?r = "(new_process_record 4 None ''sys'' None)\<lparr>pr_threads := {4}\<rparr>"
  have r: "island_step\<^sup>*\<^sup>* island_new (fst demo_island1, snd demo_island1)" using demo_island_reachable(1) by simp
  have q: "query_process (snd demo_island1) 4 = Ok ?r" by (simp add: query_process_def demo_island1_eq)
  have a: "pr_state ?r = Active" "pr_threads ?r = {4}" by (simp_all add: new_process_record_def)
  have "\<forall>t \<in> pr_threads ?r. thread_state_of (fst demo_island1) t \<noteq> None" by (simp add: a thread_state_of_def demo_island1_eq)
  with process_termination_completes [OF r q a(1)]
  show "\<exists>s1 m1. terminate_process detach_thread (snd demo_island1) (fst demo_island1) 4 = (Ok 1, s1, m1) \<and> ready s1 = [] \<and>
     thread_state_of s1 4 = Some KTerminated" unfolding a(2) by (auto simp: demo_island1_eq)
  let ?e = "(new_process_record 4 None ''sys'' None)\<lparr>pr_threads := {20}\<rparr>"
  have r: "island_step\<^sup>*\<^sup>* island_new (fst demo_ensured, snd demo_ensured)" using demo_ensured_reachable by simp
  have q: "query_process (snd demo_ensured) 4 = Ok ?e" by (simp add: query_process_def demo_ensured_eq)
  have a: "pr_state ?e = Active" "pr_threads ?e = {20}" by (simp_all add: new_process_record_def)
  have "\<not> (\<forall>t \<in> pr_threads ?e. thread_state_of (fst demo_ensured) t \<noteq> None)"
    by (simp add: a thread_state_of_def demo_ensured_eq system_thread_manager_new_def)
  with process_termination_completes [OF r q a(1)]
  show "fst (terminate_process detach_thread (snd demo_ensured) (fst demo_ensured) 4) = Err STATUS_INVALID_HANDLE" by auto
qed

text \<open>
  C22. The method \<open>restore_running\<close> checks nothing. If it is only called with a thread that an earlier \<open>release_running_for_wait\<close> returned
  and that has not been restored since, then after any sequence of calls of the two managers
  the ready queue of the scheduler holds exactly the threads in the ready state, each once; the
  thread in the running slot is not among them and is running or terminated; every released thread is still out of the slot and the queue; every open handle leads
  to the record of its thread; and requeueing the running thread never panics.
\<close>
theorem ready_queue_exact:
  assumes "nested_step\<^sup>*\<^sup>* ({}, island_new) (R, s, m)"
  shows "distinct (ready s) \<and> (\<forall>t. t \<in> set (ready s) \<longleftrightarrow> thread_state_of s t = Some KReady) \<and>
     (\<forall>t. running s = Some t \<longrightarrow> t \<notin> set (ready s) \<and> thread_state_of s t \<in> {Some KRunning, Some KTerminated}) \<and>
     (\<forall>t \<in> R. running s \<noteq> Some t \<and> t \<notin> set (ready s) \<and> thread_state_of s t \<in> {Some KRunning, Some KTerminated}) \<and>
     (\<forall>h t. map_of (st_handles s) h = Some t \<longrightarrow> (\<exists>r. st_query s h = Ok r \<and> kt_id r = t)) \<and>
     fst (requeue_current s) \<noteq> Panic"
proof -
  have inv: "sched_inv s" and R: "\<forall>t \<in> R. parked t s" using nested.reachable_inv [OF refl assms] by (simp_all add: nested_inv_def)
  note d = sched_inv_dest [OF inv]
  have slot: "t \<notin> set (ready s) \<and> thread_state_of s t \<in> {Some KRunning, Some KTerminated}" if "thread_state_of s t = Some st" "slot_state st" for t st
    using that d(4) [of t] by (auto simp: slot_state_def)
  have "t \<notin> set (ready s) \<and> thread_state_of s t \<in> {Some KRunning, Some KTerminated}" if "running s = Some t" for t
    using d(5) [OF that] slot by blast
  moreover have "running s \<noteq> Some t \<and> t \<notin> set (ready s) \<and> thread_state_of s t \<in> {Some KRunning, Some KTerminated}" if "t \<in> R" for t
    using R that slot unfolding parked_def by blast
  moreover have "\<exists>r. st_query s h = Ok r \<and> kt_id r = t" if h: "map_of (st_handles s) h = Some t" for h t
    using d(6) [OF h] d(2) [of t] h by (auto simp: st_query_def thread_of_def)
  ultimately show ?thesis using d(3,4) requeue_current_inv [OF inv] by blast
qed

theorem ready_queue_exact_witness:
  "ready demo_nested = [8] \<and> thread_state_of demo_nested 8 = Some KReady \<and>
   thread_state_of demo_nested 4 \<in> {Some KRunning, Some KTerminated} \<and> (\<exists>r. st_query demo_nested 0x104 = Ok r \<and> kt_id r = 8)"
proof -
  have q: "ready demo_nested = [8]" "map_of (st_handles demo_nested) 0x104 = Some 8" by (simp_all add: demo_nested_eq)
  then have "8 \<in> set (ready demo_nested)" by simp
  then show ?thesis using ready_queue_exact [OF demo_nested_reachable] q by blast
qed

text \<open>
  C23. The scheduler serves its threads in turn. After any sequence of calls in which \<open>restore_running\<close> is only called for a thread whose record is running or
  terminated: if no thread occupies the slot, then after \<open>k\<close> slices that each end with their quantum
  the thread that was at position \<open>k\<close> of the ready queue is the next to run; so every ready
  thread runs within one round, and a round leaves the queue as it was.
\<close>
theorem scheduler_round_robin:
  assumes "orderly_step\<^sup>*\<^sup>* island_new (s, m)" and free: "running s = None" and k: "k < length (ready s)"
  shows "(\<exists>r. fst (take_next (run_slices k s)) = Some r \<and> rt_id r = ready s ! k) \<and>
     ready (run_slices (length (ready s)) s) = ready s"
proof -
  have inv: "sched_inv s" using orderly.reachable_inv [OF refl assms(1)] by simp
  note r = run_slices_rotate [OF inv free]
  have hd: "rotate k (ready s) = ready s ! k # tl (rotate k (ready s))"
    using k hd_rotate_conv_nth [of "ready s" k] by (metis length_rotate list.collapse list.size(3) mod_less not_less_zero)
  then have "\<exists>x. fst (take_next (run_slices k s)) = Some x \<and> rt_id x = ready s ! k"
    using one_slice(4) [of "run_slices k s" "ready s ! k" "tl (rotate k (ready s))"] r [of k] by simp
  then show ?thesis using r [of "length (ready s)"] by simp
qed

theorem scheduler_round_robin_witness:
  "\<exists>r. fst (take_next (run_slices 1 (fst demo_island2))) = Some r \<and> rt_id r = 8"
proof -
  have r: "orderly_step\<^sup>*\<^sup>* island_new (fst demo_island2, snd demo_island2)" using demo_island_reachable(2) by simp
  have q: "running (fst demo_island2) = None" "ready (fst demo_island2) = [4, 8]" by (simp_all add: demo_island2_eq system_thread_manager_new_def)
  have "1 < length (ready (fst demo_island2))" by (simp add: q)
  from scheduler_round_robin [OF r q(1) this] show ?thesis by (simp add: q(2) del: run_slices.simps)
qed

text \<open>
  C24. A terminated thread can run again. If the thread in the running slot is terminated through the process manager
  and then blocks, its record leaves the terminated state; waking it puts it back into the ready queue, although the process
  manager keeps reporting it as terminated.
\<close>
theorem terminated_thread_resumes:
  assumes reach: "island_step\<^sup>*\<^sup>* island_new (s, m)" and run: "running s = Some t"
    and trm: "terminate_thread detach_thread m s t = (Ok (), s1, m1)"
  shows "thread_state_of s1 t = Some KTerminated \<and> (\<exists>u. query_thread m1 t = Ok u \<and> \<not> is_live u) \<and>
     fst (wait_current s1 w) = Ok t \<and> thread_state_of (snd (wait_current s1 w)) t = Some KWaiting \<and>
     fst (wake (snd (wait_current s1 w)) t st) = Ok () \<and> t \<in> set (ready (snd (wake (snd (wait_current s1 w)) t st)))"
proof -
  obtain u where u: "map_of (pm_threads m) t = Some u" "tr_state u \<noteq> TsTerminated"
    using trm by (cases "map_of (pm_threads m) t") (auto simp: terminate_thread_def split: if_splits)
  obtain r where r: "map_of (kthreads s) t = Some r"
    using trm u by (cases "map_of (kthreads s) t") (auto simp: terminate_thread_def detach_thread_def)
  then have K: "t \<in> st_known s" by (simp add: st_known_def dom_def)
  obtain s2 where d: "detach_thread (tr_process u) t s = (Ok (), s2)" "thread_state_of s2 t = Some KTerminated"
    using detach_thread_states [OF K, of "tr_process u"] by auto
  have run2: "running s2 = Some t" using d(1) r run by (auto simp: detach_thread_def Let_def)
  have s1: "s1 = s2" "m1 = (mark_terminated t m)\<lparr>processes :=
            om_update (tr_process u) (\<lambda>q. q\<lparr>pr_threads := pr_threads q - {t}\<rparr>) (processes m)\<rparr>"
    using trm u d(1) by (simp_all add: terminate_thread_def)
  obtain x where x: "map_of (kthreads s2) t = Some x" using d(2) by (auto simp: thread_state_of_def)
  have "query_thread m1 t = Ok (u\<lparr>tr_state := TsTerminated\<rparr>)" using u by (simp add: s1 query_thread_def mark_terminated_def)
  moreover have "wait_current s2 w = (Ok t, s2\<lparr>running := None, kthreads := om_insert t (x\<lparr>kt_state := KWaiting, kt_wait := Some w\<rparr>) (kthreads s2)\<rparr>)"
    using run2 x by (simp add: wait_current_def Let_def)
  ultimately show ?thesis using d(2) unfolding s1(1) by (simp add: thread_state_of_def wake_def is_live_def)
qed

theorem terminated_thread_resumes_witness:
  "\<exists>s1 m1 s2 s3. terminate_thread detach_thread (snd demo_island1) (snd (take_next (fst demo_island1))) 4 = (Ok (), s1, m1) \<and>
     wait_current s1 \<lparr>sw_target = EventTarget 1, sw_deadline = None, sw_alertable = False\<rparr> = (Ok 4, s2) \<and>
     wake s2 4 STATUS_SUCCESS = (Ok (), s3) \<and> 4 \<in> set (ready s3)"
proof -
  let ?s = "snd (take_next (fst demo_island1))" let ?w = "\<lparr>sw_target = EventTarget 1, sw_deadline = None, sw_alertable = False\<rparr>"
  have "island_step demo_island1 (?s, snd demo_island1)"
    using island_step.call [OF island_call.scheduler [OF sched_call.intros(1) [of "fst demo_island1"], of "snd demo_island1"]] by simp
  then have reach: "island_step\<^sup>*\<^sup>* island_new (?s, snd demo_island1)"
    using demo_island_reachable(1) by (rule rtranclp.rtrancl_into_rtrancl [rotated])
  have s: "?s = (fst demo_island1)\<lparr>ready := [], kthreads := [(4, demo_kthread\<lparr>kt_state := KRunning\<rparr>)], running := Some 4, st_started := 1\<rparr>"
    by (simp add: take_next_def demo_island1_eq system_thread_manager_new_def demo_kthread_def)
  then have run: "running ?s = Some 4" by simp
  obtain s1 m1 where t: "terminate_thread detach_thread (snd demo_island1) ?s 4 = (Ok (), s1, m1)"
    unfolding s by (simp add: terminate_thread_def detach_thread_def demo_island1_eq demo_kthread_def Let_def)
  from terminated_thread_resumes [OF reach run t, of ?w STATUS_SUCCESS] t show ?thesis
    by (cases "wait_current s1 ?w"; cases "wake (snd (wait_current s1 ?w)) 4 STATUS_SUCCESS") auto
qed

end
