(* ===== verification/Config.thy ===== *)
theory Config
  imports Object_Manager
begin

text \<open>
  The configuration manager of \<open>src/src/casak/config.rs\<close>: a registry of keys with typed values, links between keys,
  notifications, transactions and volatile keys. Paths are canonical strings. Following links and missing
  parents is a loop with a limit of 32 hops that calls itself on parents; the recursion as a whole has no bound, so
  \<open>resolve_loop\<close> is a partial function whose result \<open>None\<close> means that it does not return, and the operations that resolve a
  path have optional results.
\<close>

section \<open>Values, keys and paths\<close>

definition MAX_VALUE_BYTES :: nat where "MAX_VALUE_BYTES = 1024 * 1024"

definition MACHINE_ROOT :: string where "MACHINE_ROOT = backslash # ''registry'' @ backslash # ''machine''"

definition USER_ROOT :: string where "USER_ROOT = backslash # ''registry'' @ backslash # ''user''"

datatype registry_value = RegString string | RegDword u32 | RegQword "64 word" | RegBinary "u8 list" | RegMultiString "string list"

fun type_name :: "registry_value \<Rightarrow> string" where
  "type_name (RegString _) = ''REG_SZ''"
| "type_name (RegDword _) = ''REG_DWORD''"
| "type_name (RegQword _) = ''REG_QWORD''"
| "type_name (RegBinary _) = ''REG_BINARY''"
| "type_name (RegMultiString _) = ''REG_MULTI_SZ''"

fun byte_len :: "registry_value \<Rightarrow> nat" where
  "byte_len (RegString v) = length v"
| "byte_len (RegDword _) = 4"
| "byte_len (RegQword _) = 8"
| "byte_len (RegBinary v) = length v"
| "byte_len (RegMultiString vs) = sum_list (map length vs)"

record key_record =
  key_volatile :: bool
  key_link :: "string option"
  key_values :: "(string, registry_value) omap"
  key_subkeys :: "string set"
  key_last_write :: nat

datatype registry_event_kind = KeyCreated | KeyDeleted | ValueSet | ValueDeleted | Linked

record registry_event =
  ev_path :: string
  ev_kind :: registry_event_kind
  ev_value_name :: "string option"

record subscription =
  sub_path :: string
  sub_events :: "registry_event list"

type_synonym key_store = "(string, key_record) omap"

record config_manager =
  cfg_keys :: key_store
  subscriptions :: "(nat, subscription) omap"
  transactions :: "(nat, key_store) omap"
  next_notification :: nat
  next_transaction :: nat
  cfg_clock :: nat

definition new_key :: "bool \<Rightarrow> nat \<Rightarrow> key_record" where
  "new_key volatile clk = \<lparr>key_volatile = volatile, key_link = None, key_values = [], key_subkeys = {}, key_last_write = clk\<rparr>"

definition config_manager_new :: config_manager where
  "config_manager_new = \<lparr>cfg_keys = om_insert USER_ROOT (new_key False 0) (om_insert MACHINE_ROOT (new_key False 0) []),
     subscriptions = [], transactions = [], next_notification = 1, next_transaction = 1, cfg_clock = 1\<rparr>"

definition under_root :: "string \<Rightarrow> string \<Rightarrow> bool" where
  "under_root root p \<longleftrightarrow> p = root \<or> take (length root) p = root \<and> length root < length p \<and> p ! length root = backslash"

definition normalize :: "string \<Rightarrow> string res" where
  "normalize path =
     (let trimmed = str_trim path
      in if trimmed = [] \<or> str_contains trimmed (CHR 0x00) then Err STATUS_OBJECT_NAME_INVALID
         else let canonical = rev (dropWhile (\<lambda>c. c = backslash)
                    (rev (map (\<lambda>c. if c = CHR ''/'' then backslash else c) (to_lowercase trimmed))))
              in if \<not> under_root MACHINE_ROOT canonical \<and> \<not> under_root USER_ROOT canonical then Err STATUS_OBJECT_PATH_INVALID
                 else Ok canonical)"

definition split_parent :: "string \<Rightarrow> (string \<times> string) res" where
  "split_parent path =
     (case dropWhile (\<lambda>c. c \<noteq> backslash) (rev path) of
        [] \<Rightarrow> Err STATUS_OBJECT_PATH_INVALID
      | _ # parent \<Rightarrow>
          let name = rev (takeWhile (\<lambda>c. c \<noteq> backslash) (rev path))
          in if name = [] \<or> parent = [] then Err STATUS_OBJECT_PATH_INVALID else Ok (rev parent, name))"

definition child_path :: "string \<Rightarrow> string \<Rightarrow> string" where
  "child_path parent name = parent @ backslash # name"

section \<open>Resolving a path\<close>

partial_function (option) resolve_loop :: "key_store \<Rightarrow> nat \<Rightarrow> string \<Rightarrow> string res option" where
  "resolve_loop keys hops cursor =
     (if hops + 1 > 32 then Some (Err STATUS_INVALID_PARAMETER)
      else case map_of keys cursor of
        Some r \<Rightarrow> (case key_link r of
            Some target \<Rightarrow> resolve_loop keys (hops + 1) target
          | None \<Rightarrow> Some (Ok cursor))
      | None \<Rightarrow> (case split_parent cursor of
            Ok (parent, name) \<Rightarrow> Option.bind (resolve_loop keys 0 parent) (\<lambda>r. case r of
                Ok p \<Rightarrow> if map_of keys (child_path p name) = None then Some (Err STATUS_OBJECT_NAME_NOT_FOUND)
                       else resolve_loop keys (hops + 1) (child_path p name)
              | Err e \<Rightarrow> Some (Err e)
              | Panic \<Rightarrow> Some Panic)
          | Err e \<Rightarrow> Some (Err e)
          | Panic \<Rightarrow> Some Panic))"

definition resolve :: "config_manager \<Rightarrow> string \<Rightarrow> string res option" where
  "resolve m path = resolve_loop (cfg_keys m) 0 path"

text \<open>\<open>?\<close> on a result that may not be returned.\<close>

definition try_resolved :: "'a res option \<Rightarrow> 's \<Rightarrow> ('a \<Rightarrow> 'b res \<times> 's) \<Rightarrow> ('b res \<times> 's) option" where
  "try_resolved r s f = map_option (\<lambda>x. attempt x s f) r"

definition open_key :: "config_manager \<Rightarrow> string \<Rightarrow> string res option" where
  "open_key m path = (case normalize path of
      Ok canonical \<Rightarrow> resolve m canonical
    | Err e \<Rightarrow> Some (Err e)
    | Panic \<Rightarrow> Some Panic)"

section \<open>Notifications\<close>

definition observes :: "string \<Rightarrow> string \<Rightarrow> bool" where
  "observes sub path \<longleftrightarrow> path = sub \<or> take (length sub + 1) path = sub @ [backslash]"

definition notify :: "config_manager \<Rightarrow> string \<Rightarrow> registry_event_kind \<Rightarrow> string option \<Rightarrow> config_manager" where
  "notify m path kind name = m\<lparr>subscriptions := map (\<lambda>(i, s).
     (i, if observes (sub_path s) path
         then s\<lparr>sub_events := sub_events s @ [\<lparr>ev_path = path, ev_kind = kind, ev_value_name = name\<rparr>]\<rparr> else s)) (subscriptions m)\<rparr>"

section \<open>Keys\<close>

definition key_count :: "config_manager \<Rightarrow> nat" where "key_count m = length (cfg_keys m)"

definition notification_count :: "config_manager \<Rightarrow> nat" where "notification_count m = length (subscriptions m)"

definition transaction_count :: "config_manager \<Rightarrow> nat" where "transaction_count m = length (transactions m)"

definition create_key :: "config_manager \<Rightarrow> string \<Rightarrow> bool \<Rightarrow> (string res \<times> config_manager) option" where
  "create_key m path volatile =
     (case normalize path of
        Ok requested \<Rightarrow>
          if requested = MACHINE_ROOT \<or> requested = USER_ROOT then Some (Err STATUS_OBJECT_NAME_COLLISION, m)
          else (case split_parent requested of
            Ok (parent, name) \<Rightarrow> map_option (\<lambda>r. case r of
                Ok p \<Rightarrow>
                  let canonical = child_path p name
                  in if map_of (cfg_keys m) canonical \<noteq> None then (Err STATUS_OBJECT_NAME_COLLISION, m)
                     else let clk = cfg_clock m + 1
                          in (Ok canonical, notify (m\<lparr>cfg_clock := clk,
                                cfg_keys := om_update p (\<lambda>k. k\<lparr>key_subkeys := insert name (key_subkeys k)\<rparr>)
                                  (om_insert canonical (new_key volatile clk) (cfg_keys m))\<rparr>) canonical KeyCreated None)
              | Err _ \<Rightarrow> (Err STATUS_OBJECT_PATH_NOT_FOUND, m)
              | Panic \<Rightarrow> (Panic, m)) (resolve m parent)
          | Err e \<Rightarrow> Some (Err e, m)
          | Panic \<Rightarrow> Some (Panic, m))
      | Err e \<Rightarrow> Some (Err e, m)
      | Panic \<Rightarrow> Some (Panic, m))"

definition delete_key :: "config_manager \<Rightarrow> string \<Rightarrow> (unit res \<times> config_manager) option" where
  "delete_key m path =
     (case normalize path of
        Ok canonical \<Rightarrow>
          if canonical = MACHINE_ROOT \<or> canonical = USER_ROOT then Some (Err STATUS_INVALID_PARAMETER, m)
          else try_resolved (resolve m canonical) m (\<lambda>resolved.
            attempt (ok_or (map_of (cfg_keys m) resolved) STATUS_OBJECT_NAME_NOT_FOUND) m (\<lambda>r.
              if key_subkeys r \<noteq> {} then (Err STATUS_KEY_HAS_CHILDREN, m)
              else attempt (split_parent resolved) m (\<lambda>(parent, name).
                (Ok (), notify (m\<lparr>cfg_keys := om_update parent (\<lambda>k. k\<lparr>key_subkeys := key_subkeys k - {name}\<rparr>)
                    (om_remove resolved (cfg_keys m))\<rparr>) resolved KeyDeleted None))))
      | Err e \<Rightarrow> Some (Err e, m)
      | Panic \<Rightarrow> Some (Panic, m))"

definition link_key :: "config_manager \<Rightarrow> string \<Rightarrow> string \<Rightarrow> (unit res \<times> config_manager) option" where
  "link_key m link_path target_path =
     Option.bind (open_key m link_path) (\<lambda>l. case l of
        Ok link \<Rightarrow> try_resolved (open_key m target_path) m (\<lambda>target.
            if link = target then (Err STATUS_INVALID_PARAMETER, m)
            else attempt (ok_or (map_of (cfg_keys m) link) STATUS_OBJECT_NAME_NOT_FOUND) m (\<lambda>r.
              if key_subkeys r \<noteq> {} \<or> key_values r \<noteq> [] \<or> key_link r \<noteq> None then (Err STATUS_INVALID_PARAMETER, m)
              else (Ok (), notify (m\<lparr>cfg_keys := om_insert link (r\<lparr>key_link := Some target, key_last_write := cfg_clock m\<rparr>) (cfg_keys m),
                       cfg_clock := cfg_clock m + 1\<rparr>) link Linked None)))
      | Err e \<Rightarrow> Some (Err e, m)
      | Panic \<Rightarrow> Some (Panic, m))"

definition link_target :: "config_manager \<Rightarrow> string \<Rightarrow> string option res" where
  "link_target m path = rbind (normalize path) (\<lambda>canonical.
     rbind (ok_or (map_of (cfg_keys m) canonical) STATUS_OBJECT_NAME_NOT_FOUND) (\<lambda>r. Ok (key_link r)))"

text \<open>A query of the record of an opened key.\<close>

definition with_key :: "config_manager \<Rightarrow> string \<Rightarrow> (string \<Rightarrow> key_record \<Rightarrow> 'a res) \<Rightarrow> 'a res option" where
  "with_key m path f = map_option (\<lambda>opened. rbind opened (\<lambda>canonical.
     rbind (ok_or (map_of (cfg_keys m) canonical) STATUS_OBJECT_NAME_NOT_FOUND) (f canonical))) (open_key m path)"

definition is_volatile :: "config_manager \<Rightarrow> string \<Rightarrow> bool res option" where
  "is_volatile m path = with_key m path (\<lambda>_ r. Ok (key_volatile r))"

section \<open>Values\<close>

definition set_value :: "config_manager \<Rightarrow> string \<Rightarrow> string \<Rightarrow> registry_value \<Rightarrow> (unit res \<times> config_manager) option" where
  "set_value m path name v =
     (if length name > 255 \<or> byte_len v > MAX_VALUE_BYTES then Some (Err STATUS_INVALID_PARAMETER, m)
      else try_resolved (open_key m path) m (\<lambda>canonical.
        let clk = cfg_clock m + 1; m1 = m\<lparr>cfg_clock := clk\<rparr>
        in attempt (ok_or (map_of (cfg_keys m) canonical) STATUS_OBJECT_NAME_NOT_FOUND) m1 (\<lambda>r.
             (Ok (), notify (m1\<lparr>cfg_keys := om_insert canonical (r\<lparr>key_values := om_insert (to_lowercase name) v (key_values r),
                key_last_write := clk\<rparr>) (cfg_keys m)\<rparr>) canonical ValueSet (Some name)))))"

definition get_value :: "config_manager \<Rightarrow> string \<Rightarrow> string \<Rightarrow> registry_value res option" where
  "get_value m path name = with_key m path (\<lambda>_ r. ok_or (map_of (key_values r) (to_lowercase name)) STATUS_OBJECT_NAME_NOT_FOUND)"

definition delete_value :: "config_manager \<Rightarrow> string \<Rightarrow> string \<Rightarrow> (unit res \<times> config_manager) option" where
  "delete_value m path name = try_resolved (open_key m path) m (\<lambda>canonical.
     attempt (ok_or (map_of (cfg_keys m) canonical) STATUS_OBJECT_NAME_NOT_FOUND) m (\<lambda>r.
       if map_of (key_values r) (to_lowercase name) = None then (Err STATUS_OBJECT_NAME_NOT_FOUND, m)
       else (Ok (), notify (m\<lparr>cfg_clock := cfg_clock m + 1,
              cfg_keys := om_insert canonical (r\<lparr>key_values := om_remove (to_lowercase name) (key_values r),
                key_last_write := cfg_clock m + 1\<rparr>) (cfg_keys m)\<rparr>) canonical ValueDeleted (Some name))))"

definition enum_subkeys :: "config_manager \<Rightarrow> string \<Rightarrow> string list res option" where
  "enum_subkeys m path = with_key m path (\<lambda>canonical r. Ok (map (child_path canonical) (sorted_list_of_set (key_subkeys r))))"

definition enum_values :: "config_manager \<Rightarrow> string \<Rightarrow> (string \<times> registry_value) list res option" where
  "enum_values m path = with_key m path (\<lambda>_ r. Ok (key_values r))"

section \<open>Subscriptions and transactions\<close>

definition subscribe :: "config_manager \<Rightarrow> string \<Rightarrow> (nat res \<times> config_manager) option" where
  "subscribe m path = try_resolved (open_key m path) m (\<lambda>canonical.
     (Ok (next_notification m), m\<lparr>next_notification := next_notification m + 1,
        subscriptions := om_insert (next_notification m) \<lparr>sub_path = canonical, sub_events = []\<rparr> (subscriptions m)\<rparr>))"

definition poll :: "config_manager \<Rightarrow> nat \<Rightarrow> registry_event list res \<times> config_manager" where
  "poll m i = attempt (ok_or (map_of (subscriptions m) i) STATUS_INVALID_HANDLE) m (\<lambda>s.
     (Ok (sub_events s), m\<lparr>subscriptions := om_insert i (s\<lparr>sub_events := []\<rparr>) (subscriptions m)\<rparr>))"

definition cancel_subscription :: "config_manager \<Rightarrow> nat \<Rightarrow> unit res \<times> config_manager" where
  "cancel_subscription m i = (case map_of (subscriptions m) i of
      None \<Rightarrow> (Err STATUS_INVALID_HANDLE, m)
    | Some _ \<Rightarrow> (Ok (), m\<lparr>subscriptions := om_remove i (subscriptions m)\<rparr>))"

definition begin_transaction :: "config_manager \<Rightarrow> nat \<times> config_manager" where
  "begin_transaction m = (next_transaction m, m\<lparr>next_transaction := next_transaction m + 1,
     transactions := om_insert (next_transaction m) (cfg_keys m) (transactions m)\<rparr>)"

definition commit_transaction :: "config_manager \<Rightarrow> nat \<Rightarrow> unit res \<times> config_manager" where
  "commit_transaction m i = (case map_of (transactions m) i of
      None \<Rightarrow> (Err STATUS_INVALID_HANDLE, m)
    | Some _ \<Rightarrow> (Ok (), m\<lparr>transactions := om_remove i (transactions m)\<rparr>))"

definition rollback_transaction :: "config_manager \<Rightarrow> nat \<Rightarrow> unit res \<times> config_manager" where
  "rollback_transaction m i = attempt (ok_or (map_of (transactions m) i) STATUS_INVALID_HANDLE) m (\<lambda>snapshot.
     (Ok (), notify (m\<lparr>transactions := om_remove i (transactions m), cfg_keys := snapshot\<rparr>) MACHINE_ROOT KeyDeleted (Some ''rollback'')))"

text \<open>Unloading the hive: the volatile keys leave their parents' subkeys, then the table. A volatile key whose
  path has no parent would be a panic.\<close>

fun unlink_volatile :: "string list \<Rightarrow> key_store \<Rightarrow> key_store res" where
  "unlink_volatile [] keys = Ok keys"
| "unlink_volatile (p # ps) keys = (case split_parent p of
      Ok (parent, name) \<Rightarrow> unlink_volatile ps (om_update parent (\<lambda>k. k\<lparr>key_subkeys := key_subkeys k - {name}\<rparr>) keys)
    | _ \<Rightarrow> Panic)"

definition unload_hive :: "config_manager \<Rightarrow> nat res \<times> config_manager" where
  "unload_hive m =
     (let vs = map fst (filter (\<lambda>(p, r). key_volatile r) (cfg_keys m))
      in attempt (unlink_volatile vs (cfg_keys m)) m (\<lambda>keys.
           (Ok (length vs), m\<lparr>cfg_keys := fold om_remove vs keys\<rparr>)))"


section \<open>Steps\<close>

text \<open>\<open>cfg_grow\<close>: the operations that keep every key. \<open>cfg_step\<close> adds the deletion of a key. Unloading the hive is
  apart: it can leave subkeys of volatile keys without a parent.\<close>

inductive cfg_grow :: "config_manager \<Rightarrow> config_manager \<Rightarrow> bool" where
  "create_key m path volatile = Some (r, m') \<Longrightarrow> cfg_grow m m'"
| "link_key m link target = Some (r', m') \<Longrightarrow> cfg_grow m m'"
| "set_value m path name v = Some (r', m') \<Longrightarrow> cfg_grow m m'"
| "delete_value m path name = Some (r', m') \<Longrightarrow> cfg_grow m m'"
| "subscribe m path = Some (i, m') \<Longrightarrow> cfg_grow m m'"
| "cfg_grow m (snd (poll m n))"
| "cfg_grow m (snd (cancel_subscription m n))"
| "cfg_grow m (snd (begin_transaction m))"
| "cfg_grow m (snd (commit_transaction m n))"
| "cfg_grow m (snd (rollback_transaction m n))"

inductive cfg_step :: "config_manager \<Rightarrow> config_manager \<Rightarrow> bool" where
  "cfg_grow m m' \<Longrightarrow> cfg_step m m'"
| "delete_key m path = Some (r, m') \<Longrightarrow> cfg_step m m'"

inductive cfg_any :: "config_manager \<Rightarrow> config_manager \<Rightarrow> bool" where
  "cfg_step m m' \<Longrightarrow> cfg_any m m'"
| "cfg_any m (snd (unload_hive m))"

section \<open>Paths\<close>

definition name_ok :: "string \<Rightarrow> bool" where
  "name_ok n \<longleftrightarrow> n \<noteq> [] \<and> backslash \<notin> set n"

lemma split_parent_child: "p \<noteq> [] \<Longrightarrow> name_ok n \<Longrightarrow> split_parent (child_path p n) = Ok (p, n)"
proof -
  assume p: "p \<noteq> []" and n: "name_ok n"
  then have "\<forall>c \<in> set (rev n). c \<noteq> backslash" by (auto simp: name_ok_def)
  then have "takeWhile (\<lambda>c. c \<noteq> backslash) (rev n @ backslash # rev p) = rev n"
    "dropWhile (\<lambda>c. c \<noteq> backslash) (rev n @ backslash # rev p) = backslash # rev p"
    by (simp_all add: takeWhile_append dropWhile_append)
  with p n show ?thesis by (simp add: split_parent_def child_path_def name_ok_def)
qed

lemma split_parent_Ok: "split_parent path = Ok (p, n) \<Longrightarrow> path = child_path p n \<and> name_ok n \<and> p \<noteq> []"
proof (cases "dropWhile (\<lambda>c. c \<noteq> backslash) (rev path)")
  case (Cons c q)
  assume Ok: "split_parent path = Ok (p, n)"
  have "c = backslash" using hd_dropWhile [of "\<lambda>c. c \<noteq> backslash" "rev path"] Cons by simp
  with Cons have "rev path = takeWhile (\<lambda>c. c \<noteq> backslash) (rev path) @ backslash # q"
    by (metis takeWhile_dropWhile_id)
  then have "path = rev q @ backslash # rev (takeWhile (\<lambda>c. c \<noteq> backslash) (rev path))"
    by (metis append.assoc append_Cons append_Nil rev.simps(2) rev_append rev_rev_ident)
  with Ok Cons show ?thesis
    by (auto simp: split_parent_def child_path_def name_ok_def Let_def dest: set_takeWhileD split: if_splits)
qed (simp add: split_parent_def)

lemma child_path_eq_iff: "p \<noteq> [] \<Longrightarrow> name_ok n \<Longrightarrow> p' \<noteq> [] \<Longrightarrow> name_ok n' \<Longrightarrow> child_path p n = child_path p' n' \<longleftrightarrow> p = p' \<and> n = n'"
  by (metis Pair_inject res.inject(1) split_parent_child)

lemma child_path_longer [simp]: "length p < length (child_path p n)" "child_path p n \<noteq> p" "child_path p n \<noteq> []" "p \<noteq> child_path p n"
  by (simp_all add: child_path_def)

section \<open>Resolution\<close>

lemma resolve_loop_Ok_aux:
  assumes "resolve_loop ks h c = Some y"
  shows "\<forall>p. y = Ok p \<longrightarrow> (\<exists>r. map_of ks p = Some r \<and> key_link r = None)"
proof (rule resolve_loop.raw_induct [OF _ assms], goal_cases)
  case (1 f ks h c y)
  have ih: "\<exists>r. map_of ks' q = Some r \<and> key_link r = None" if "f ks' h' c' = Some (Ok q)" for ks' h' c' q
    using 1(1) [OF that] by blast
  show ?case
  proof (intro allI impI)
    fix p
    assume "y = Ok p"
    with 1(2) show "\<exists>r. map_of ks p = Some r \<and> key_link r = None"
      by (auto split: if_splits option.splits res.splits prod.splits bind_splits) (erule ih)+
  qed
qed

lemma resolve_loop_Ok: "resolve_loop ks h c = Some (Ok p) \<Longrightarrow> \<exists>r. map_of ks p = Some r \<and> key_link r = None"
  by (blast dest: resolve_loop_Ok_aux)

definition links_live :: "key_store \<Rightarrow> bool" where
  "links_live ks \<longleftrightarrow> (\<forall>k r t. map_of ks k = Some r \<longrightarrow> key_link r = Some t \<longrightarrow> map_of ks t \<noteq> None)"

lemma resolve_present_returns:
  assumes live: "links_live ks" and c: "map_of ks c \<noteq> None"
  shows "\<exists>r. resolve_loop ks h c = Some r"
  using c
proof (induction "33 - h" arbitrary: h c)
  case 0
  then show ?case by (subst resolve_loop.simps) simp
next
  case (Suc n)
  obtain r where r: "map_of ks c = Some r" using Suc.prems by blast
  show ?case
  proof (cases "key_link r")
    case None
    then show ?thesis by (subst resolve_loop.simps) (simp add: r)
  next
    case (Some t)
    then have "map_of ks t \<noteq> None" using live r unfolding links_live_def by blast
    moreover have "n = 33 - (h + 1)" using Suc.hyps(2) by simp
    ultimately have "\<exists>x. resolve_loop ks (h + 1) t = Some x" by (intro Suc.hyps(1))
    with Some show ?thesis by (subst resolve_loop.simps) (simp add: r)
  qed
qed

lemma resolve_loop_returns:
  assumes live: "links_live ks"
  shows "\<exists>r. resolve_loop ks h c = Some r"
proof (induction "length c" arbitrary: h c rule: less_induct)
  case less
  show ?case
  proof (cases "map_of ks c")
    case None
    show ?thesis
    proof (cases "split_parent c")
      case (Ok pn)
      obtain p n where pn: "pn = (p, n)" by (cases pn)
      have "length p < length c" using split_parent_Ok [of c p n] Ok pn by auto
      then obtain x where x: "resolve_loop ks 0 p = Some x" using less by blast
      show ?thesis
      proof (cases x)
        case (Ok q)
        show ?thesis
        proof (cases "map_of ks (child_path q n)")
          case (Some r)
          then obtain y where "resolve_loop ks (Suc h) (child_path q n) = Some y"
            using resolve_present_returns [OF live] by blast
          with Some show ?thesis by (subst resolve_loop.simps) (simp add: None \<open>split_parent c = Ok pn\<close> pn x Ok)
        next
          case absent: None
          then show ?thesis by (subst resolve_loop.simps) (simp add: None \<open>split_parent c = Ok pn\<close> pn x Ok)
        qed
      qed (subst resolve_loop.simps, simp add: None Ok pn x)+
    qed (subst resolve_loop.simps, simp add: None)+
  next
    case (Some r)
    then show ?thesis using resolve_present_returns [OF live] by blast
  qed
qed


section \<open>Invariants of the key store\<close>

lemma notify_fields [simp]:
  "cfg_keys (notify m path kind name) = cfg_keys m" "transactions (notify m path kind name) = transactions m"
  "next_transaction (notify m path kind name) = next_transaction m" "cfg_clock (notify m path kind name) = cfg_clock m"
  by (simp_all add: notify_def)

definition value_ok :: "string \<Rightarrow> registry_value \<Rightarrow> bool" where
  "value_ok name v \<longleftrightarrow> length name \<le> 255 \<and> byte_len v \<le> MAX_VALUE_BYTES"

text \<open>New values of a key: old ones, and ones within the limits.\<close>

definition new_values :: "key_record \<Rightarrow> (string, registry_value) omap \<Rightarrow> bool" where
  "new_values k vs \<longleftrightarrow> (\<forall>name v. map_of vs name = Some v \<longrightarrow> map_of (key_values k) name = Some v \<or> value_ok name v)"

lemma new_values_ops:
  "value_ok (to_lowercase name) v \<Longrightarrow> new_values k (om_insert (to_lowercase name) v (key_values k))"
  "new_values k (om_remove n (key_values k))"
  by (auto simp: new_values_def)

text \<open>A predicate on key stores, of the current store and of the snapshots of all transactions.\<close>

definition stores :: "(key_store \<Rightarrow> bool) \<Rightarrow> config_manager \<Rightarrow> bool" where
  "stores P m \<longleftrightarrow> P (cfg_keys m) \<and> (\<forall>i ks. map_of (transactions m) i = Some ks \<longrightarrow> P ks)"

lemma storesI: "stores P m \<Longrightarrow> P (cfg_keys m') \<Longrightarrow> transactions m' = transactions m \<Longrightarrow> stores P m'"
  by (simp add: stores_def)

lemma open_key_Ok: "open_key m path = Some (Ok p) \<Longrightarrow> \<exists>r. map_of (cfg_keys m) p = Some r \<and> key_link r = None"
  by (auto simp: open_key_def resolve_def split: res.splits dest: resolve_loop_Ok)

lemma create_key_cases:
  assumes "create_key m path volatile = Some (r, m')"
  shows "((\<forall>c. r \<noteq> Ok c) \<and> m' = m) \<or> (\<exists>p n k. r = Ok (child_path p n) \<and> map_of (cfg_keys m) p = Some k \<and> key_link k = None \<and> name_ok n \<and>
    map_of (cfg_keys m) (child_path p n) = None \<and> transactions m' = transactions m \<and> next_transaction m' = next_transaction m \<and>
    cfg_keys m' = om_update p (\<lambda>k. k\<lparr>key_subkeys := insert n (key_subkeys k)\<rparr>)
      (om_insert (child_path p n) (new_key volatile (cfg_clock m + 1)) (cfg_keys m)))"
proof (cases "\<exists>c. r = Ok c")
  case False
  have "m' = m" if "normalize path = Ok req" "split_parent req = Ok (q, n)" "resolve m q = Some z" for req q n z
    using assms False that by (cases z) (auto simp: create_key_def Let_def split: if_splits)
  moreover have "m' = m" if "normalize path = Ok req" "\<forall>q n. split_parent req \<noteq> Ok (q, n)" for req
    using assms False that by (cases "split_parent req") (auto simp: create_key_def split: if_splits)
  moreover have "m' = m" if "resolve m q = None" "normalize path = Ok req" "split_parent req = Ok (q, n)" for req q n
    using assms False that by (auto simp: create_key_def split: if_splits)
  moreover have "m' = m" if "\<forall>req. normalize path \<noteq> Ok req"
    using assms False that by (cases "normalize path") (auto simp: create_key_def)
  ultimately have "m' = m" by (metis not_None_eq)
  with False show ?thesis by blast
next
  case True
  then obtain c where r: "r = Ok c" by blast
  obtain req where req: "normalize path = Ok req" "req \<noteq> MACHINE_ROOT" "req \<noteq> USER_ROOT"
    using assms r by (auto simp: create_key_def split: res.splits if_splits)
  obtain q n where q: "split_parent req = Ok (q, n)" using assms r req by (auto simp: create_key_def split: res.splits)
  obtain z where z: "resolve_loop (cfg_keys m) 0 q = Some z"
    using assms req q by (auto simp: create_key_def resolve_def)
  obtain p where p: "resolve_loop (cfg_keys m) 0 q = Some (Ok p)"
    using assms r req q z by (cases z) (auto simp: create_key_def resolve_def)
  have "map_of (cfg_keys m) (child_path p n) = None" "r = Ok (child_path p n)"
    "m' = notify (m\<lparr>cfg_clock := cfg_clock m + 1, cfg_keys := om_update p (\<lambda>k. k\<lparr>key_subkeys := insert n (key_subkeys k)\<rparr>)
      (om_insert (child_path p n) (new_key volatile (cfg_clock m + 1)) (cfg_keys m))\<rparr>) (child_path p n) KeyCreated None"
    using assms r req q p by (auto simp: create_key_def resolve_def Let_def split: if_splits)
  with resolve_loop_Ok [OF p] split_parent_Ok [OF q] show ?thesis by auto
qed

lemma try_resolved_Some: "try_resolved x s f = Some y \<longleftrightarrow> (\<exists>z. x = Some z \<and> attempt z s f = y)"
  by (auto simp: try_resolved_def)

lemma delete_key_cases:
  assumes "delete_key m path = Some (r, m')"
  shows "(r \<noteq> Ok () \<and> m' = m) \<or> (\<exists>p n k. r = Ok () \<and> map_of (cfg_keys m) (child_path p n) = Some k \<and> key_subkeys k = {} \<and>
    p \<noteq> [] \<and> name_ok n \<and> transactions m' = transactions m \<and> next_transaction m' = next_transaction m \<and>
    cfg_keys m' = om_update p (\<lambda>k. k\<lparr>key_subkeys := key_subkeys k - {n}\<rparr>) (om_remove (child_path p n) (cfg_keys m)))"
proof (cases "normalize path")
  case (Ok c)
  have step: "?thesis" if "attempt z m (\<lambda>resolved.
      attempt (ok_or (map_of (cfg_keys m) resolved) STATUS_OBJECT_NAME_NOT_FOUND) m (\<lambda>r.
        if key_subkeys r \<noteq> {} then (Err STATUS_KEY_HAS_CHILDREN, m)
        else attempt (split_parent resolved) m (\<lambda>(parent, name).
          (Ok (), notify (m\<lparr>cfg_keys := om_update parent (\<lambda>k. k\<lparr>key_subkeys := key_subkeys k - {name}\<rparr>)
              (om_remove resolved (cfg_keys m))\<rparr>) resolved KeyDeleted None)))) = (r, m')" for z
  proof (rule attemptE [OF that], goal_cases)
    case (1 c)
    from 1(2) show ?case
    proof (rule attemptE, goal_cases)
      case (1 k)
      then have k: "map_of (cfg_keys m) c = Some k" by (simp add: ok_or_eq_Ok)
      show ?case
      proof (cases "key_subkeys k = {}")
        case True
        with 1(2) have "attempt (split_parent c) m (\<lambda>(parent, name). (Ok (), notify (m\<lparr>cfg_keys := om_update parent
            (\<lambda>k. k\<lparr>key_subkeys := key_subkeys k - {name}\<rparr>) (om_remove c (cfg_keys m))\<rparr>) c KeyDeleted None)) = (r, m')" by simp
        then show ?thesis
        proof (rule attemptE, goal_cases)
          case (1 v)
          obtain p n where v: "v = (p, n)" by (cases v)
          show ?case using 1 k True split_parent_Ok [of c p n] unfolding v
            by (intro disjI2 exI [of _ p] exI [of _ n] exI [of _ k]) auto
        qed simp
      qed (use 1(2) in auto)
    qed simp
  qed simp
  show ?thesis using assms Ok by (auto simp: delete_key_def try_resolved_Some dest!: step split: if_splits)
qed (use assms in \<open>auto simp: delete_key_def\<close>)

lemma link_key_cases:
  assumes "link_key m l t = Some (r, m')"
  shows "(r \<noteq> Ok () \<and> m' = m) \<or> (\<exists>link target k. r = Ok () \<and> map_of (cfg_keys m) link = Some k \<and> key_subkeys k = {} \<and>
    map_of (cfg_keys m) target \<noteq> None \<and> link \<noteq> target \<and> transactions m' = transactions m \<and> next_transaction m' = next_transaction m \<and>
    cfg_keys m' = om_insert link (k\<lparr>key_link := Some target, key_last_write := cfg_clock m\<rparr>) (cfg_keys m))"
proof -
  obtain x where x: "open_key m l = Some x" using assms by (cases "open_key m l") (auto simp: link_key_def)
  show ?thesis
  proof (cases x)
    case (Ok link)
    obtain z where z: "open_key m t = Some z" using assms x Ok by (auto simp: link_key_def try_resolved_Some)
    show ?thesis
    proof (cases z)
      case (Ok target)
      obtain k where k: "map_of (cfg_keys m) link = Some k" using open_key_Ok x \<open>x = Ok link\<close> by blast
      have tgt: "map_of (cfg_keys m) target \<noteq> None" using open_key_Ok z Ok by blast
      show ?thesis
      proof (cases "link = target \<or> key_subkeys k \<noteq> {} \<or> key_values k \<noteq> [] \<or> key_link k \<noteq> None")
        case True
        then show ?thesis using assms x z \<open>x = Ok link\<close> Ok k by (auto simp: link_key_def try_resolved_Some split: if_splits)
      next
        case False
        then show ?thesis using assms x z \<open>x = Ok link\<close> Ok k tgt
          by (intro disjI2 exI [of _ link] exI [of _ target] exI [of _ k]) (auto simp: link_key_def try_resolved_Some)
      qed
    qed (use assms x z Ok in \<open>auto simp: link_key_def try_resolved_Some\<close>)
  qed (use assms x in \<open>auto simp: link_key_def\<close>)
qed

lemma set_value_cases:
  assumes "set_value m path name v = Some (r, m')"
  shows "(r \<noteq> Ok () \<and> m' = m) \<or> (\<exists>p k. r = Ok () \<and> open_key m path = Some (Ok p) \<and> map_of (cfg_keys m) p = Some k \<and>
    value_ok (to_lowercase name) v \<and>
    m' = notify (m\<lparr>cfg_clock := cfg_clock m + 1, cfg_keys := om_insert p (k\<lparr>key_values := om_insert (to_lowercase name) v (key_values k),
      key_last_write := cfg_clock m + 1\<rparr>) (cfg_keys m)\<rparr>) p ValueSet (Some name))"
proof (cases "length name > 255 \<or> byte_len v > MAX_VALUE_BYTES")
  case False
  then obtain z where z: "open_key m path = Some z" using assms by (auto simp: set_value_def try_resolved_Some)
  show ?thesis
  proof (cases z)
    case (Ok p)
    then obtain k where "map_of (cfg_keys m) p = Some k" using open_key_Ok z by blast
    then show ?thesis using assms False z Ok by (auto simp: set_value_def try_resolved_Some value_ok_def to_lowercase_def Let_def)
  qed (use assms False z in \<open>auto simp: set_value_def try_resolved_Some\<close>)
qed (use assms in \<open>auto simp: set_value_def\<close>)

lemma delete_value_cases:
  assumes "delete_value m path name = Some (r, m')"
  shows "(r \<noteq> Ok () \<and> m' = m) \<or> (\<exists>p k. r = Ok () \<and> open_key m path = Some (Ok p) \<and> map_of (cfg_keys m) p = Some k \<and>
    m' = notify (m\<lparr>cfg_clock := cfg_clock m + 1, cfg_keys := om_insert p (k\<lparr>key_values := om_remove (to_lowercase name) (key_values k),
      key_last_write := cfg_clock m + 1\<rparr>) (cfg_keys m)\<rparr>) p ValueDeleted (Some name))"
proof -
  obtain z where z: "open_key m path = Some z" using assms by (auto simp: delete_value_def try_resolved_Some)
  show ?thesis
  proof (cases z)
    case (Ok p)
    then obtain k where "map_of (cfg_keys m) p = Some k" using open_key_Ok z by blast
    then show ?thesis using assms z Ok by (auto simp: delete_value_def try_resolved_Some split: if_splits)
  qed (use assms z in \<open>auto simp: delete_value_def try_resolved_Some\<close>)
qed

text \<open>
  What an invariant of key stores has to survive: a new key below an existing key that is no link, an empty key
  that becomes a link to another key, and new values of a key. Then all operations but the deletions keep it, in
  the current store and in the snapshots.
\<close>

locale store_invariant =
  fixes P :: "key_store \<Rightarrow> bool"
  assumes create: "P ks \<Longrightarrow> map_of ks p = Some k \<Longrightarrow> key_link k = None \<Longrightarrow> name_ok n \<Longrightarrow> map_of ks (child_path p n) = None \<Longrightarrow>
      P (om_update p (\<lambda>k. k\<lparr>key_subkeys := insert n (key_subkeys k)\<rparr>) (om_insert (child_path p n) (new_key v c) ks))"
    and link: "P ks \<Longrightarrow> map_of ks l = Some k \<Longrightarrow> key_subkeys k = {} \<Longrightarrow> map_of ks t \<noteq> None \<Longrightarrow> l \<noteq> t \<Longrightarrow>
      P (om_insert l (k\<lparr>key_link := Some t, key_last_write := c\<rparr>) ks)"
    and vals: "P ks \<Longrightarrow> map_of ks l = Some k \<Longrightarrow> new_values k vs \<Longrightarrow> P (om_insert l (k\<lparr>key_values := vs, key_last_write := c\<rparr>) ks)"
begin

lemma grow_stores: "cfg_grow m m' \<Longrightarrow> stores P m \<Longrightarrow> stores P m'"
proof (induction rule: cfg_grow.induct)
  case (1 m path volatile r m')
  have "P (cfg_keys m)" using 1(2) by (simp add: stores_def)
  with create_key_cases [OF 1(1)] 1(2) show ?case by (elim disjE exE conjE) (simp_all add: storesI create)
next
  case (2 m link target r' m')
  have "P (cfg_keys m)" using 2(2) by (simp add: stores_def)
  with link_key_cases [OF 2(1)] 2(2) show ?case by (elim disjE exE conjE) (simp_all add: storesI link)
next
  case (3 m path name v r' m')
  have "P (cfg_keys m)" using 3(2) by (simp add: stores_def)
  with set_value_cases [OF 3(1)] 3(2) show ?case by (elim disjE exE conjE) (simp_all add: storesI vals new_values_ops)
next
  case (4 m path name r' m')
  have "P (cfg_keys m)" using 4(2) by (simp add: stores_def)
  with delete_value_cases [OF 4(1)] 4(2) show ?case by (elim disjE exE conjE) (simp_all add: storesI vals new_values_ops)
next
  case (5 m path i m')
  then show ?case by (auto simp: subscribe_def try_resolved_Some stores_def elim!: attemptE)
next
  case (8 m)
  then show ?case by (auto simp: stores_def begin_transaction_def)
qed (auto simp: stores_def poll_def cancel_subscription_def commit_transaction_def rollback_transaction_def attempt_def ok_or_def
    split: option.splits if_splits)

end

definition tree_ok :: "key_store \<Rightarrow> bool" where
  "tree_ok ks \<longleftrightarrow> om_wf ks \<and> (\<forall>k r. map_of ks k = Some r \<longrightarrow> k \<noteq> [] \<and> finite (key_subkeys r) \<and>
     (key_link r \<noteq> None \<longrightarrow> key_subkeys r = {}) \<and> (\<forall>n \<in> key_subkeys r. name_ok n \<and> map_of ks (child_path k n) \<noteq> None) \<and>
     (k = MACHINE_ROOT \<or> k = USER_ROOT \<or>
      (\<exists>p n q. k = child_path p n \<and> name_ok n \<and> map_of ks p = Some q \<and> n \<in> key_subkeys q)))"


lemma tree_okD:
  assumes "tree_ok ks" "map_of ks k = Some r"
  shows "k \<noteq> []" "finite (key_subkeys r)" "key_link r \<noteq> None \<Longrightarrow> key_subkeys r = {}"
    "n \<in> key_subkeys r \<Longrightarrow> name_ok n \<and> map_of ks (child_path k n) \<noteq> None"
    "k = MACHINE_ROOT \<or> k = USER_ROOT \<or> (\<exists>p n q. k = child_path p n \<and> name_ok n \<and> map_of ks p = Some q \<and> n \<in> key_subkeys q)"
  using assms unfolding tree_ok_def by blast+

lemma tree_okI:
  assumes "om_wf ks"
    and "\<And>k r. map_of ks k = Some r \<Longrightarrow> k \<noteq> [] \<and> finite (key_subkeys r) \<and> (key_link r \<noteq> None \<longrightarrow> key_subkeys r = {})"
    and "\<And>k r n. map_of ks k = Some r \<Longrightarrow> n \<in> key_subkeys r \<Longrightarrow> name_ok n \<and> map_of ks (child_path k n) \<noteq> None"
    and "\<And>k r. map_of ks k = Some r \<Longrightarrow> k \<noteq> MACHINE_ROOT \<Longrightarrow> k \<noteq> USER_ROOT \<Longrightarrow>
      \<exists>p n q. k = child_path p n \<and> name_ok n \<and> map_of ks p = Some q \<and> n \<in> key_subkeys q"
  shows "tree_ok ks"
  using assms unfolding tree_ok_def by blast

lemma tree_ok_wf: "tree_ok ks \<Longrightarrow> om_wf ks"
  by (simp add: tree_ok_def)

text \<open>A change of one key that keeps its subkeys, and its being a link or its having none.\<close>

lemma tree_ok_same_subkeys:
  assumes t: "tree_ok ks" and k: "map_of ks l = Some k"
    and sub: "key_subkeys k' = key_subkeys k" and lnk: "key_link k' \<noteq> None \<Longrightarrow> key_subkeys k' = {}"
  shows "tree_ok (om_insert l k' ks)"
proof (rule tree_okI)
  show "om_wf (om_insert l k' ks)" using tree_ok_wf [OF t] by simp
next
  fix i r
  assume i: "map_of (om_insert l k' ks) i = Some r"
  show "i \<noteq> [] \<and> finite (key_subkeys r) \<and> (key_link r \<noteq> None \<longrightarrow> key_subkeys r = {})"
    using i tree_okD(1,2) [OF t k] tree_okD(1-3) [OF t, of i r] sub lnk by (cases "i = l") auto
  fix n
  assume n: "n \<in> key_subkeys r"
  show "name_ok n \<and> map_of (om_insert l k' ks) (child_path i n) \<noteq> None"
    using i n sub tree_okD(4) [OF t k, of n] tree_okD(4) [OF t, of i r n] by (cases "i = l") auto
next
  fix i r
  assume i: "map_of (om_insert l k' ks) i = Some r" and nr: "i \<noteq> MACHINE_ROOT" "i \<noteq> USER_ROOT"
  obtain r' where "map_of ks i = Some r'" using i k by (auto split: if_splits)
  then obtain p n q where q: "i = child_path p n" "name_ok n" "map_of ks p = Some q" "n \<in> key_subkeys q"
    using tree_okD(5) [OF t, of i r'] nr by blast
  have "map_of (om_insert l k' ks) p = Some (if p = l then k' else q)" using q(3) by simp
  moreover have "n \<in> key_subkeys (if p = l then k' else q)" using q(3,4) sub k by (cases "p = l") simp_all
  ultimately show "\<exists>p n q. i = child_path p n \<and> name_ok n \<and> map_of (om_insert l k' ks) p = Some q \<and> n \<in> key_subkeys q"
    using q(1,2) by blast
qed

lemma tree_ok_create:
  assumes t: "tree_ok ks" and k: "map_of ks p = Some k" "key_link k = None" and n: "name_ok n"
    and abs: "map_of ks (child_path p n) = None"
  shows "tree_ok (om_update p (\<lambda>k. k\<lparr>key_subkeys := insert n (key_subkeys k)\<rparr>) (om_insert (child_path p n) (new_key v c) ks))"
    (is "tree_ok ?ks")
proof (rule tree_okI)
  have get: "map_of ?ks i = (if i = p then Some (k\<lparr>key_subkeys := insert n (key_subkeys k)\<rparr>)
      else if i = child_path p n then Some (new_key v c) else map_of ks i)" for i
    using k by simp
  show "om_wf ?ks" using tree_ok_wf [OF t] by simp
  fix i r
  assume i: "map_of ?ks i = Some r"
  show "i \<noteq> [] \<and> finite (key_subkeys r) \<and> (key_link r \<noteq> None \<longrightarrow> key_subkeys r = {})"
    using i k tree_okD(1,2) [OF t k(1)] tree_okD(1-3) [OF t, of i r] unfolding get
    by (auto simp: new_key_def split: if_splits)
  {
    fix n'
    assume n': "n' \<in> key_subkeys r"
    then show "name_ok n' \<and> map_of ?ks (child_path i n') \<noteq> None"
      using i n tree_okD(4) [OF t k(1), of n'] tree_okD(4) [OF t, of i r n'] unfolding get
      by (auto simp: new_key_def split: if_splits)
  }
  assume nr: "i \<noteq> MACHINE_ROOT" "i \<noteq> USER_ROOT"
  show "\<exists>p' n' q. i = child_path p' n' \<and> name_ok n' \<and> map_of ?ks p' = Some q \<and> n' \<in> key_subkeys q"
  proof (cases "i = child_path p n")
    case True
    then show ?thesis using n unfolding get by (intro exI [of _ p] exI [of _ n]) simp
  next
    case False
    then obtain r' where "map_of ks i = Some r'" using i k unfolding get by (auto split: if_splits)
    then obtain p' n' q where q: "i = child_path p' n'" "name_ok n'" "map_of ks p' = Some q" "n' \<in> key_subkeys q"
      using tree_okD(5) [OF t, of i r'] nr by blast
    have "p' \<noteq> child_path p n" using q(3) abs by auto
    then show ?thesis using q k unfolding get
      by (intro exI [of _ p'] exI [of _ n'] exI [of _ "if p' = p then k\<lparr>key_subkeys := insert n (key_subkeys k)\<rparr> else q"]) auto
  qed
qed

lemma tree_ok_delete:
  assumes t: "tree_ok ks" and k: "map_of ks (child_path p n) = Some k" "key_subkeys k = {}" and n: "name_ok n" "p \<noteq> []"
  shows "tree_ok (om_update p (\<lambda>k. k\<lparr>key_subkeys := key_subkeys k - {n}\<rparr>) (om_remove (child_path p n) ks))"
    (is "tree_ok ?ks")
proof (rule tree_okI)
  have get: "map_of ?ks i = (if i = child_path p n then None else if i = p then map_option (\<lambda>k. k\<lparr>key_subkeys := key_subkeys k - {n}\<rparr>) (map_of ks p)
      else map_of ks i)" for i
    by auto
  show "om_wf ?ks" using tree_ok_wf [OF t] by simp
  fix i r
  assume i: "map_of ?ks i = Some r"
  then obtain r' where r': "map_of ks i = Some r'" "key_link r = key_link r'" "key_subkeys r = key_subkeys r' - (if i = p then {n} else {})"
    unfolding get by (auto split: if_splits)
  note d = tree_okD [OF t r'(1)]
  show "i \<noteq> [] \<and> finite (key_subkeys r) \<and> (key_link r \<noteq> None \<longrightarrow> key_subkeys r = {})" using d(1-3) r'(2,3) by auto
  {
    fix n'
    assume n': "n' \<in> key_subkeys r"
    then have "n' \<in> key_subkeys r'" "i = p \<longrightarrow> n' \<noteq> n" using r'(3) by (auto split: if_splits)
    moreover from this have "name_ok n'" "map_of ks (child_path i n') \<noteq> None" using d(4) by blast+
    ultimately show "name_ok n' \<and> map_of ?ks (child_path i n') \<noteq> None"
      unfolding get using child_path_eq_iff [of i n' p n] d(1) n by auto
  }
  assume nr: "i \<noteq> MACHINE_ROOT" "i \<noteq> USER_ROOT"
  then obtain p' n' q where q: "i = child_path p' n'" "name_ok n'" "map_of ks p' = Some q" "n' \<in> key_subkeys q"
    using d(5) by blast
  have "p' \<noteq> child_path p n" using q(3,4) k by auto
  moreover have "p' = p \<longrightarrow> n' \<noteq> n" using i q(1) unfolding get by auto
  ultimately show "\<exists>p' n' q. i = child_path p' n' \<and> name_ok n' \<and> map_of ?ks p' = Some q \<and> n' \<in> key_subkeys q"
    unfolding get using q by (intro exI [of _ p'] exI [of _ n'] exI [of _ "q\<lparr>key_subkeys := key_subkeys q - (if p' = p then {n} else {})\<rparr>"]) auto
qed

interpretation tree: store_invariant tree_ok
proof
  show "tree_ok (om_insert l (k\<lparr>key_link := Some t, key_last_write := c\<rparr>) ks)"
    if "tree_ok ks" "map_of ks l = Some k" "key_subkeys k = {}" for ks l k t c
    by (rule tree_ok_same_subkeys [OF that(1,2)]) (simp_all add: that)
  show "tree_ok (om_insert l (k\<lparr>key_values := vs, key_last_write := c\<rparr>) ks)"
    if "tree_ok ks" "map_of ks l = Some k" for ks l k vs c
    by (rule tree_ok_same_subkeys [OF that]) (simp_all add: tree_okD(3) [OF that])
qed (rule tree_ok_create)

definition values_bounded :: "key_store \<Rightarrow> bool" where
  "values_bounded ks \<longleftrightarrow> (\<forall>k r name v. map_of ks k = Some r \<longrightarrow> map_of (key_values r) name = Some v \<longrightarrow> value_ok name v)"

lemma values_bounded_put:
  "values_bounded ks \<Longrightarrow> (\<And>name v. map_of (key_values k') name = Some v \<Longrightarrow> value_ok name v) \<Longrightarrow> values_bounded (om_insert l k' ks)"
  by (simp add: values_bounded_def)

lemma values_bounded_update:
  "values_bounded ks \<Longrightarrow> (\<And>k. key_values (f k) = key_values k) \<Longrightarrow> values_bounded (om_update l f ks)"
  by (cases "map_of ks l") (auto simp: om_update_def values_bounded_def)

lemma values_bounded_remove: "values_bounded ks \<Longrightarrow> values_bounded (om_remove l ks)"
  by (simp add: values_bounded_def)

interpretation bnd: store_invariant values_bounded
proof
  show "values_bounded (om_insert l (k\<lparr>key_values := vs, key_last_write := c\<rparr>) ks)"
    if "values_bounded ks" "map_of ks l = Some k" "new_values k vs" for ks l k vs c
  proof (rule values_bounded_put [OF that(1)], simp)
    fix name v
    assume "map_of vs name = Some v"
    then show "value_ok name v" using that unfolding values_bounded_def new_values_def by blast
  qed
  show "values_bounded (om_insert l (k\<lparr>key_link := Some t, key_last_write := c\<rparr>) ks)"
    if "values_bounded ks" "map_of ks l = Some k" for ks l k t c
    by (rule values_bounded_put [OF that(1)]) (use that in \<open>auto simp: values_bounded_def\<close>)
  show "values_bounded (om_update p (\<lambda>k. k\<lparr>key_subkeys := insert n (key_subkeys k)\<rparr>) (om_insert (child_path p n) (new_key v c) ks))"
    if "values_bounded ks" for ks p n v c
    by (intro values_bounded_update values_bounded_put) (simp_all add: that new_key_def)
qed

interpretation live: store_invariant links_live
  by unfold_locales (auto simp: links_live_def new_key_def split: if_splits)


lemma roots_distinct [simp]: "MACHINE_ROOT \<noteq> USER_ROOT" "USER_ROOT \<noteq> MACHINE_ROOT"
  by (simp_all add: MACHINE_ROOT_def USER_ROOT_def)

lemma new_store_get: "map_of (cfg_keys config_manager_new) = [MACHINE_ROOT \<mapsto> new_key False 0, USER_ROOT \<mapsto> new_key False 0]"
  by (simp add: config_manager_new_def fun_upd_twist)

lemma new_stores: "stores tree_ok config_manager_new" "stores links_live config_manager_new"
proof -
  have "om_wf (cfg_keys config_manager_new)"
    unfolding config_manager_new_def config_manager.simps by (intro om_wf_insert om_wf_Nil)
  moreover have "MACHINE_ROOT \<noteq> []" "USER_ROOT \<noteq> []" by (simp_all add: MACHINE_ROOT_def USER_ROOT_def)
  ultimately show "stores tree_ok config_manager_new"
    by (auto simp: stores_def tree_ok_def new_store_get new_key_def config_manager_new_def split: if_splits)
  show "stores links_live config_manager_new"
    by (auto simp: stores_def links_live_def config_manager_new_def new_key_def split: if_splits)
qed

lemma step_tree: "cfg_step m m' \<Longrightarrow> stores tree_ok m \<Longrightarrow> stores tree_ok m'"
proof (induction rule: cfg_step.induct)
  case (1 m m')
  then show ?case by (rule tree.grow_stores)
next
  case (2 m path r m')
  have "tree_ok (cfg_keys m)" using 2(2) by (simp add: stores_def)
  with delete_key_cases [OF 2(1)] 2(2) show ?case by (elim disjE exE conjE) (simp_all add: storesI tree_ok_delete)
qed

interpretation cfg_tree: invariant_system "\<lambda>m. m = config_manager_new" cfg_step "stores tree_ok"
  by unfold_locales (auto simp: new_stores intro: step_tree)

interpretation cfg_live: invariant_system "\<lambda>m. m = config_manager_new" cfg_grow "stores links_live"
  by unfold_locales (auto simp: new_stores intro: live.grow_stores)

text \<open>Unloading the hive removes keys and names of subkeys, nothing else.\<close>

lemma unlink_volatile_bounded: "unlink_volatile ps ks = Ok ks' \<Longrightarrow> values_bounded ks \<Longrightarrow> values_bounded ks'"
proof (induction ps ks rule: unlink_volatile.induct)
  case (2 p ps ks)
  then obtain q n where q: "split_parent p = Ok (q, n)" by (auto split: res.splits)
  have "values_bounded (om_update q (\<lambda>k. k\<lparr>key_subkeys := key_subkeys k - {n}\<rparr>) ks)"
    using 2(3) by (rule values_bounded_update) simp
  with 2(1) [OF q refl] 2(2) q show ?case by simp
qed simp

lemma unload_bounded: "values_bounded (cfg_keys m) \<Longrightarrow> values_bounded (cfg_keys (snd (unload_hive m)))"
proof -
  assume b: "values_bounded (cfg_keys m)"
  have rem: "values_bounded (fold om_remove vs ks)" if "values_bounded ks" for vs ks
    using that by (induction vs arbitrary: ks) (simp_all add: values_bounded_remove)
  show ?thesis
  proof (cases "unlink_volatile (map fst (filter (\<lambda>(p, r). key_volatile r) (cfg_keys m))) (cfg_keys m)")
    case (Ok ks)
    then show ?thesis using rem [OF unlink_volatile_bounded [OF Ok b]] by (simp add: unload_hive_def)
  qed (use b in \<open>simp_all add: unload_hive_def\<close>)
qed

lemma any_bounded: "cfg_any m m' \<Longrightarrow> stores values_bounded m \<Longrightarrow> stores values_bounded m'"
proof (induction rule: cfg_any.induct)
  case (1 m m')
  then show ?case
  proof (induction rule: cfg_step.induct)
    case (1 m m')
    then show ?case by (rule bnd.grow_stores)
  next
    case (2 m path r m')
    have "values_bounded (cfg_keys m)" using 2(2) by (simp add: stores_def)
    with delete_key_cases [OF 2(1)] 2(2) show ?case
      by (elim disjE exE conjE) (simp_all add: storesI values_bounded_update values_bounded_remove)
  qed
next
  case (2 m)
  moreover have "transactions (snd (unload_hive m)) = transactions m" by (auto simp: unload_hive_def Let_def snd_attempt split: res.splits)
  ultimately show ?case using unload_bounded [of m] by (simp add: stores_def)
qed

lemma new_bounded: "stores values_bounded config_manager_new"
  by (auto simp: stores_def values_bounded_def config_manager_new_def new_key_def split: if_splits)

interpretation cfg_bound: invariant_system "\<lambda>m. m = config_manager_new" cfg_any "stores values_bounded"
  by unfold_locales (auto simp: new_bounded intro: any_bounded)

section \<open>Resolution depends on the links only\<close>

definition same_links :: "key_store \<Rightarrow> key_store \<Rightarrow> bool" where
  "same_links ks ks' \<longleftrightarrow> (\<forall>c. map_option key_link (map_of ks c) = map_option key_link (map_of ks' c))"

lemma resolve_same_links_aux:
  assumes "resolve_loop ks h c = Some y"
  shows "\<forall>ks'. same_links ks ks' \<longrightarrow> resolve_loop ks' h c = Some y"
proof (rule resolve_loop.raw_induct [OF _ assms], goal_cases)
  case (1 f ks h c y)
  have ih: "resolve_loop ks' h' c' = Some z" if "f ks h' c' = Some z" "same_links ks ks'" for ks' h' c' z
    using 1(1) [OF that(1)] that(2) by blast
  show ?case
  proof (intro allI impI)
    fix ks'
    assume s: "same_links ks ks'"
    then have n: "map_of ks' d = None \<longleftrightarrow> map_of ks d = None" for d
      unfolding same_links_def by (metis map_option_is_None)
    have l: "\<exists>r'. map_of ks' d = Some r' \<and> key_link r' = key_link r" if "map_of ks d = Some r" for d r
      using s [unfolded same_links_def, rule_format, of d] that by (cases "map_of ks' d") auto
    show "resolve_loop ks' h c = Some y"
    proof (cases "map_of ks c")
      case None
      then have None': "map_of ks' c = None" by (simp add: n)
      show ?thesis using 1(2) None
        by (subst resolve_loop.simps) (auto simp: None' n ih [OF _ s] split: if_splits res.splits prod.splits bind_splits)
    next
      case (Some r)
      then obtain r' where r': "map_of ks' c = Some r'" "key_link r' = key_link r" using l by blast
      show ?thesis using 1(2) Some
        by (subst resolve_loop.simps) (auto simp: r' ih [OF _ s] split: if_splits option.splits)
    qed
  qed
qed

lemma resolve_same_links: "same_links ks ks' \<Longrightarrow> resolve_loop ks' h c = resolve_loop ks h c"
proof -
  assume s: "same_links ks ks'"
  then have s': "same_links ks' ks" by (simp add: same_links_def)
  show ?thesis
  proof (cases "resolve_loop ks h c")
    case None
    have "resolve_loop ks' h c \<noteq> Some y" for y
      using resolve_same_links_aux [THEN spec, THEN mp, OF _ s', of h c y] None by force
    then show ?thesis using None by (cases "resolve_loop ks' h c") auto
  next
    case (Some y)
    from resolve_same_links_aux [THEN spec, THEN mp, OF this s] Some show ?thesis by simp
  qed
qed


section \<open>Transactions\<close>

text \<open>\<open>tx_keeps i ks m\<close>: the identifier \<open>i\<close> was issued, and while its transaction is open its snapshot is \<open>ks\<close>.\<close>

definition tx_keeps :: "nat \<Rightarrow> key_store \<Rightarrow> config_manager \<Rightarrow> bool" where
  "tx_keeps i ks m \<longleftrightarrow> i < next_transaction m \<and> (map_of (transactions m) i = None \<or> map_of (transactions m) i = Some ks)"

lemma tx_keeps_same: "tx_keeps i ks m \<Longrightarrow> transactions m' = transactions m \<Longrightarrow> next_transaction m' = next_transaction m \<Longrightarrow> tx_keeps i ks m'"
  by (simp add: tx_keeps_def)

lemma grow_tx: "cfg_grow m m' \<Longrightarrow> tx_keeps i ks m \<Longrightarrow> tx_keeps i ks m'"
proof (induction rule: cfg_grow.induct)
  case (1 m path volatile r m')
  from create_key_cases [OF 1(1)] 1(2) show ?case by (elim disjE exE conjE) (simp_all add: tx_keeps_same)
next
  case (2 m link target r' m')
  from link_key_cases [OF 2(1)] 2(2) show ?case by (elim disjE exE conjE) (simp_all add: tx_keeps_same)
next
  case (3 m path name v r' m')
  from set_value_cases [OF 3(1)] 3(2) show ?case by (elim disjE exE conjE) (simp_all add: tx_keeps_def)
next
  case (4 m path name r' m')
  from delete_value_cases [OF 4(1)] 4(2) show ?case by (elim disjE exE conjE) (simp_all add: tx_keeps_def)
next
  case (5 m path j m')
  then show ?case by (auto simp: subscribe_def try_resolved_Some tx_keeps_def elim!: attemptE)
qed (auto simp: tx_keeps_def poll_def cancel_subscription_def begin_transaction_def commit_transaction_def
    rollback_transaction_def attempt_def ok_or_def split: option.splits)

lemma any_tx: "cfg_any m m' \<Longrightarrow> tx_keeps i ks m \<Longrightarrow> tx_keeps i ks m'"
proof (induction rule: cfg_any.induct)
  case (1 m m')
  then show ?case
  proof (induction rule: cfg_step.induct)
    case (1 m m')
    then show ?case by (rule grow_tx)
  next
    case (2 m path r m')
    from delete_key_cases [OF 2(1)] 2(2) show ?case by (elim disjE exE conjE) (simp_all add: tx_keeps_same)
  qed
next
  case (2 m)
  then show ?case by (auto simp: unload_hive_def attempt_def tx_keeps_def Let_def split: res.splits)
qed

lemma steps_tx: "cfg_any\<^sup>*\<^sup>* m m' \<Longrightarrow> tx_keeps i ks m \<Longrightarrow> tx_keeps i ks m'"
  by (induction rule: rtranclp_induct) (auto intro: any_tx)

section \<open>Properties\<close>

lemma registry_absent:
  assumes "tree_ok ks"
  shows "map_of ks (backslash # ''registry'') = None"
proof (rule ccontr)
  assume "map_of ks (backslash # ''registry'') \<noteq> None"
  then obtain r where r: "map_of ks (backslash # ''registry'') = Some r" by blast
  have "\<forall>a. split_parent (backslash # ''registry'') \<noteq> Ok a" by (simp add: split_parent_def backslash_def Let_def)
  then have "backslash # ''registry'' \<noteq> child_path p n" if "p \<noteq> []" "name_ok n" for p n
    using split_parent_child that by metis
  then show False using tree_okD(5) [OF assms r] tree_okD(1) [OF assms]
    by (auto simp: MACHINE_ROOT_def USER_ROOT_def)
qed

lemma root_parent: "split_parent MACHINE_ROOT = Ok (backslash # ''registry'', ''machine'')"
  "split_parent USER_ROOT = Ok (backslash # ''registry'', ''user'')"
  by (simp_all add: split_parent_def MACHINE_ROOT_def USER_ROOT_def backslash_def Let_def)

lemma subkeys_exact:
  assumes t: "tree_ok ks" and p: "map_of ks p = Some r"
  shows "child_path p ` key_subkeys r = {k. map_of ks k \<noteq> None \<and> (\<exists>n. split_parent k = Ok (p, n))}" (is "?L = ?R")
proof
  show "?L \<subseteq> ?R" using tree_okD(4) [OF t p] tree_okD(1) [OF t p] split_parent_child by blast
  show "?R \<subseteq> ?L"
  proof
    fix k
    assume "k \<in> ?R"
    then obtain n q where k: "split_parent k = Ok (p, n)" "map_of ks k = Some q" by blast
    have "p \<noteq> backslash # ''registry''" using registry_absent [OF t] p by auto
    then have "k \<noteq> MACHINE_ROOT" "k \<noteq> USER_ROOT" using k root_parent by auto
    then obtain p' n' q' where q': "k = child_path p' n'" "name_ok n'" "map_of ks p' = Some q'" "n' \<in> key_subkeys q'"
      using tree_okD(5) [OF t k(2)] by blast
    then have "p' = p" "n' = n" using split_parent_child [of p' n'] tree_okD(1) [OF t q'(3)] k(1) by auto
    with q' p show "k \<in> ?L" by auto
  qed
qed


text \<open>Concrete registries, as sequences of calls.\<close>

definition after :: "('a res \<times> config_manager) option \<Rightarrow> config_manager" where
  "after x = (case x of Some (_, m) \<Rightarrow> m | None \<Rightarrow> config_manager_new)"

definition demo_reg1 :: config_manager where
  "demo_reg1 = after (create_key config_manager_new ''/Registry/Machine/A'' False)"

definition demo_reg2 :: config_manager where
  "demo_reg2 = after (create_key demo_reg1 ''/Registry/Machine/a/n'' False)"

definition demo_reg3 :: config_manager where
  "demo_reg3 = after (create_key demo_reg2 ''/Registry/Machine/a/n/q'' False)"

definition demo_reg4 :: config_manager where
  "demo_reg4 = after (create_key demo_reg3 ''/Registry/Machine/p'' False)"

definition demo_reg5 :: config_manager where
  "demo_reg5 = after (create_key demo_reg4 ''/Registry/Machine/p/n'' False)"

definition demo_reg6 :: config_manager where
  "demo_reg6 = after (link_key demo_reg5 ''/Registry/Machine/p/n'' ''/Registry/Machine/a/n/q'')"

definition demo_reg7 :: config_manager where
  "demo_reg7 = after (delete_key demo_reg6 ''/Registry/Machine/a/n/q'')"

definition demo_reg8 :: config_manager where
  "demo_reg8 = after (delete_key demo_reg7 ''/Registry/Machine/a/n'')"

definition demo_reg9 :: config_manager where
  "demo_reg9 = after (link_key demo_reg8 ''/Registry/Machine/a'' ''/Registry/Machine/p'')"

definition demo_root1 :: config_manager where
  "demo_root1 = after (link_key demo_reg1 ''/Registry/Machine/A'' ''/Registry/User'')"

definition demo_root2 :: config_manager where
  "demo_root2 = after (delete_key demo_root1 ''/Registry/Machine/A'')"

definition demo_tx1 :: config_manager where
  "demo_tx1 = snd (begin_transaction demo_reg1)"

definition demo_tx2 :: config_manager where
  "demo_tx2 = after (create_key demo_tx1 ''/Registry/Machine/a/n'' False)"

definition demo_val :: config_manager where
  "demo_val = after (set_value demo_reg1 ''/Registry/Machine/a'' ''Size'' (RegDword 7))"

declare resolve_loop.simps [code]

lemma grow_after:
  "create_key m path v \<noteq> None \<Longrightarrow> cfg_grow m (after (create_key m path v))"
  "link_key m path path' \<noteq> None \<Longrightarrow> cfg_grow m (after (link_key m path path'))"
  "set_value m path name x \<noteq> None \<Longrightarrow> cfg_grow m (after (set_value m path name x))"
  by (auto simp: after_def intro: cfg_grow.intros)

lemma delete_after: "delete_key m path \<noteq> None \<Longrightarrow> cfg_step m (after (delete_key m path))"
  by (auto simp: after_def intro: cfg_step.intros)

lemma demo_grow: "cfg_grow config_manager_new demo_reg1" "cfg_grow demo_reg1 demo_reg2" "cfg_grow demo_reg2 demo_reg3"
  "cfg_grow demo_reg3 demo_reg4" "cfg_grow demo_reg4 demo_reg5" "cfg_grow demo_reg5 demo_reg6" "cfg_grow demo_reg8 demo_reg9"
  by (subst demo_reg1_def, rule grow_after, code_simp)
    (subst demo_reg2_def, rule grow_after, code_simp, subst demo_reg3_def, rule grow_after, code_simp,
     subst demo_reg4_def, rule grow_after, code_simp, subst demo_reg5_def, rule grow_after, code_simp,
     subst demo_reg6_def, rule grow_after, code_simp, subst demo_reg9_def, rule grow_after, code_simp)

lemma demo_delete: "cfg_step demo_reg6 demo_reg7" "cfg_step demo_reg7 demo_reg8"
  by (subst demo_reg7_def, rule delete_after, code_simp) (subst demo_reg8_def, rule delete_after, code_simp)

lemma demo_set: "set_value demo_reg1 ''/Registry/Machine/a'' ''Size'' (RegDword 7) = Some (Ok (), demo_val)"
  and demo_val_key: "\<exists>k. map_of (cfg_keys demo_val) (child_path MACHINE_ROOT ''a'') = Some k \<and> map_of (key_values k) ''size'' = Some (RegDword 7)"
proof -
  have op: "open_key demo_reg1 ''/Registry/Machine/a'' = Some (Ok (child_path MACHINE_ROOT ''a''))"
    "map_of (cfg_keys demo_reg1) (child_path MACHINE_ROOT ''a'') \<noteq> None" "to_lowercase ''Size'' = ''size''" by code_simp+
  then obtain k where k: "map_of (cfg_keys demo_reg1) (child_path MACHINE_ROOT ''a'') = Some k" by blast
  show s: "set_value demo_reg1 ''/Registry/Machine/a'' ''Size'' (RegDword 7) = Some (Ok (), demo_val)"
    unfolding demo_val_def after_def by (simp add: set_value_def MAX_VALUE_BYTES_def try_resolved_def op k Let_def)
  show "\<exists>k. map_of (cfg_keys demo_val) (child_path MACHINE_ROOT ''a'') = Some k \<and> map_of (key_values k) ''size'' = Some (RegDword 7)"
  proof -
    have "cfg_keys demo_val = om_insert (child_path MACHINE_ROOT ''a'') (k\<lparr>key_values := om_insert ''size'' (RegDword 7) (key_values k),
        key_last_write := cfg_clock demo_reg1 + 1\<rparr>) (cfg_keys demo_reg1)"
      unfolding demo_val_def after_def by (simp add: set_value_def MAX_VALUE_BYTES_def try_resolved_def op k Let_def)
    then show ?thesis by simp
  qed
qed

lemma grow_step: "cfg_grow\<^sup>*\<^sup>* m m' \<Longrightarrow> cfg_step\<^sup>*\<^sup>* m m'"
  by (metis cfg_step.intros(1) mono_rtranclp)

lemma demo_grown: "cfg_grow\<^sup>*\<^sup>* config_manager_new demo_reg6"
  using demo_grow by (meson rtranclp.rtrancl_into_rtrancl rtranclp.rtrancl_refl)

lemma demo_reachable_reg: "cfg_step\<^sup>*\<^sup>* config_manager_new demo_reg9"
  using grow_step [OF demo_grown] demo_delete demo_grow(7) by (meson cfg_step.intros(1) rtranclp.rtrancl_into_rtrancl)

text \<open>
  Below a link to a key whose own child of the same name points back below the link, every call of \<open>resolve\<close> ends in
  the same call.
\<close>

lemma resolve_cycle_aux:
  assumes "resolve_loop ks h c = Some y"
  shows "\<forall>a b n q. map_of ks (child_path a n) = None \<longrightarrow> map_option key_link (map_of ks a) = Some (Some b) \<longrightarrow>
    map_option key_link (map_of ks b) = Some None \<longrightarrow>
    map_option key_link (map_of ks (child_path b n)) = Some (Some (child_path (child_path a n) q)) \<longrightarrow>
    map_of ks (child_path (child_path a n) q) = None \<longrightarrow> a \<noteq> [] \<longrightarrow> name_ok n \<longrightarrow> name_ok q \<longrightarrow>
    (c = b \<and> h \<le> 1 \<longrightarrow> y = Ok b) \<and> (c = a \<and> h = 0 \<longrightarrow> y = Ok b) \<and>
    \<not> (c = child_path a n \<and> h = 0) \<and> \<not> (c = child_path b n \<and> h = 1) \<and> \<not> (c = child_path (child_path a n) q \<and> h = 2)"
proof (rule resolve_loop.raw_induct [OF _ assms], goal_cases)
  case (1 f ks h c y)
  show ?case
  proof (intro allI impI)
    fix a b n q
    assume g: "map_of ks (child_path a n) = None" "map_option key_link (map_of ks a) = Some (Some b)"
      "map_option key_link (map_of ks b) = Some None"
      "map_option key_link (map_of ks (child_path b n)) = Some (Some (child_path (child_path a n) q))"
      "map_of ks (child_path (child_path a n) q) = None" and o: "a \<noteq> []" "name_ok n" "name_ok q"
    have ih: "c' = b \<and> h' \<le> 1 \<longrightarrow> y' = Ok b" "c' = a \<and> h' = 0 \<longrightarrow> y' = Ok b" "\<not> (c' = child_path a n \<and> h' = 0)"
      "\<not> (c' = child_path b n \<and> h' = 1)" "\<not> (c' = child_path (child_path a n) q \<and> h' = 2)"
      if "f ks h' c' = Some y'" for h' c' y'
      using 1(1) [OF that] g o by blast+
    have none: "f ks 0 (child_path a n) = None" "f ks 1 (child_path b n) = None" "f ks 2 (child_path (child_path a n) q) = None"
      by (rule ccontr; use ih(3) [of 0 "child_path a n"] ih(4) [of 1 "child_path b n"]
          ih(5) [of 2 "child_path (child_path a n) q"] in auto)+
    note split = split_parent_child [OF o(1,2)] split_parent_child [OF child_path_longer(3) o(3)]
    have "y = Ok b" if "c = b" "h \<le> 1" using 1(2) g(3) that by (auto split: if_splits)
    moreover have "y = Ok b" if "c = a" "h = 0" using 1(2) g(2) that ih(1) [of 1 b y] by (auto split: if_splits)
    moreover have False if "c = child_path a n" "h = 0"
      using 1(2) g(1,4) none(2) that split(1) ih(2) [of 0 a] by (cases "f ks 0 a") (auto split: if_splits)
    moreover have False if "c = child_path b n" "h = 1" using 1(2) g(4) none(3) that by (auto simp: numeral_2_eq_2 split: if_splits)
    moreover have False if "c = child_path (child_path a n) q" "h = 2"
      using 1(2) g(5) none(1) that split(2) by (auto split: if_splits)
    ultimately show "(c = b \<and> h \<le> 1 \<longrightarrow> y = Ok b) \<and> (c = a \<and> h = 0 \<longrightarrow> y = Ok b) \<and>
      \<not> (c = child_path a n \<and> h = 0) \<and> \<not> (c = child_path b n \<and> h = 1) \<and> \<not> (c = child_path (child_path a n) q \<and> h = 2)" by blast
  qed
qed

lemma resolve_cycle:
  assumes "map_of ks (child_path a n) = None" "map_option key_link (map_of ks a) = Some (Some b)"
    "map_option key_link (map_of ks b) = Some None"
    "map_option key_link (map_of ks (child_path b n)) = Some (Some (child_path (child_path a n) q))"
    "map_of ks (child_path (child_path a n) q) = None" "a \<noteq> []" "name_ok n" "name_ok q"
  shows "resolve_loop ks 0 (child_path a n) = None"
proof (rule ccontr)
  assume "resolve_loop ks 0 (child_path a n) \<noteq> None"
  then obtain y where "resolve_loop ks 0 (child_path a n) = Some y" by blast
  from resolve_cycle_aux [OF this] assms show False by blast
qed

lemma demo_reg9_links:
  "map_of (cfg_keys demo_reg9) (child_path (child_path MACHINE_ROOT ''a'') ''n'') = None"
  "map_option key_link (map_of (cfg_keys demo_reg9) (child_path MACHINE_ROOT ''a'')) = Some (Some (child_path MACHINE_ROOT ''p''))"
  "map_option key_link (map_of (cfg_keys demo_reg9) (child_path MACHINE_ROOT ''p'')) = Some None"
  "map_option key_link (map_of (cfg_keys demo_reg9) (child_path (child_path MACHINE_ROOT ''p'') ''n'')) =
     Some (Some (child_path (child_path (child_path MACHINE_ROOT ''a'') ''n'') ''q''))"
  "map_of (cfg_keys demo_reg9) (child_path (child_path (child_path MACHINE_ROOT ''a'') ''n'') ''q'') = None"
  "name_ok ''n''" "name_ok ''q''"
  "normalize ''/Registry/Machine/a/n'' = Ok (child_path (child_path MACHINE_ROOT ''a'') ''n'')"
  by code_simp+


text \<open>
  C25. In every registry reached from the initial one by the operations other than unloading the hive, the names a key
  enumerates are exactly its direct children in the key table, a link has no subkeys, and every key other than a root
  lies below a key that exists.
\<close>
theorem registry_tree_consistent:
  assumes "cfg_step\<^sup>*\<^sup>* config_manager_new m" and "map_of (cfg_keys m) p = Some r"
  shows "child_path p ` key_subkeys r = {k. map_of (cfg_keys m) k \<noteq> None \<and> (\<exists>n. split_parent k = Ok (p, n))} \<and>
    (key_link r \<noteq> None \<longrightarrow> key_subkeys r = {}) \<and>
    (p = MACHINE_ROOT \<or> p = USER_ROOT \<or> (\<exists>q n. split_parent p = Ok (q, n) \<and> map_of (cfg_keys m) q \<noteq> None))"
proof -
  have t: "tree_ok (cfg_keys m)" using cfg_tree.reachable_inv [OF refl assms(1)] by (simp add: stores_def)
  have "p = MACHINE_ROOT \<or> p = USER_ROOT \<or> (\<exists>q n. split_parent p = Ok (q, n) \<and> map_of (cfg_keys m) q \<noteq> None)"
    using tree_okD(5) [OF t assms(2)] tree_okD(1) [OF t] split_parent_child by (metis option.distinct(1))
  with subkeys_exact [OF t assms(2)] tree_okD(3) [OF t assms(2)] show ?thesis by blast
qed

theorem registry_tree_consistent_witness:
  "key_link (the (map_of (cfg_keys demo_reg9) (child_path MACHINE_ROOT ''a''))) \<noteq> None \<and>
   key_subkeys (the (map_of (cfg_keys demo_reg9) (child_path MACHINE_ROOT ''a''))) = {}"
proof -
  obtain r where r: "map_of (cfg_keys demo_reg9) (child_path MACHINE_ROOT ''a'') = Some r" "key_link r \<noteq> None"
    using demo_reg9_links(2) by (cases "map_of (cfg_keys demo_reg9) (child_path MACHINE_ROOT ''a'')") auto
  show ?thesis using registry_tree_consistent [OF demo_reachable_reg r(1)] r by simp
qed

text \<open>
  C26. As long as no key is deleted and no hive is unloaded, opening a key returns for every path, and an opened key exists and is not a
  link.
\<close>
theorem registry_open_returns:
  assumes "cfg_grow\<^sup>*\<^sup>* config_manager_new m"
  shows "\<exists>r. open_key m path = Some r \<and> (\<forall>p. r = Ok p \<longrightarrow> (\<exists>k. map_of (cfg_keys m) p = Some k \<and> key_link k = None))"
proof -
  have l: "links_live (cfg_keys m)" using cfg_live.reachable_inv [OF refl assms] by (simp add: stores_def)
  obtain r where "open_key m path = Some r"
    using resolve_loop_returns [OF l] by (cases "normalize path") (auto simp: open_key_def resolve_def)
  with open_key_Ok show ?thesis by blast
qed

theorem registry_open_returns_witness: "\<exists>r. open_key demo_reg6 ''/Registry/Machine/p/n'' = Some r"
  using registry_open_returns [OF demo_grown] by blast

text \<open>
  C27. After deletions opening a key can fail to return: the limit of 32 hops counts the links of one call, and a missing key
  whose parent is a link restarts the count. A registry in which this happens is reached by five creations, two links and two
  deletions.
\<close>
theorem registry_open_diverges:
  "\<exists>m. cfg_step\<^sup>*\<^sup>* config_manager_new m \<and> open_key m ''/Registry/Machine/a/n'' = None"
proof -
  have "resolve_loop (cfg_keys demo_reg9) 0 (child_path (child_path MACHINE_ROOT ''a'') ''n'') = None"
    by (rule resolve_cycle [OF demo_reg9_links(1-5) child_path_longer(3) demo_reg9_links(6,7)])
  then have "open_key demo_reg9 ''/Registry/Machine/a/n'' = None"
    by (simp add: open_key_def resolve_def demo_reg9_links(8))
  with demo_reachable_reg show ?thesis by blast
qed


text \<open>
  C28. A hive root can be deleted: the guard of \<open>delete_key\<close> looks at the path as given, and the key it removes is the one
  the path resolves to. After a link to the user root, deleting the link's path removes the user root, and creating
  the root again is refused.
\<close>
theorem registry_root_deletable:
  "\<exists>m m'. cfg_step\<^sup>*\<^sup>* config_manager_new m \<and> delete_key m ''/Registry/Machine/A'' = Some (Ok (), m') \<and>
     map_of (cfg_keys m) USER_ROOT \<noteq> None \<and> map_of (cfg_keys m') USER_ROOT = None \<and>
     create_key m' ''/Registry/User'' False = Some (Err STATUS_OBJECT_NAME_COLLISION, m')"
proof -
  have "link_key demo_reg1 ''/Registry/Machine/A'' ''/Registry/User'' \<noteq> None" by code_simp
  then have "cfg_grow demo_reg1 demo_root1" unfolding demo_root1_def by (rule grow_after)
  then have "cfg_step\<^sup>*\<^sup>* config_manager_new demo_root1"
    using demo_grow(1) by (meson cfg_step.intros(1) r_into_rtranclp rtranclp.rtrancl_into_rtrancl)
  moreover have "delete_key demo_root1 ''/Registry/Machine/A'' = Some (Ok (), demo_root2)"
  proof -
    have "map_option fst (delete_key demo_root1 ''/Registry/Machine/A'') = Some (Ok ())" by code_simp
    then show ?thesis unfolding demo_root2_def after_def by auto
  qed
  moreover have "map_of (cfg_keys demo_root1) USER_ROOT \<noteq> None" "map_of (cfg_keys demo_root2) USER_ROOT = None"
    "normalize ''/Registry/User'' = Ok USER_ROOT"
    by code_simp+
  ultimately show ?thesis by (intro exI [of _ demo_root1] exI [of _ demo_root2]) (simp add: create_key_def)
qed

text \<open>
  C29. Rolling a transaction back restores the key store of its beginning, whatever operations, other transactions included, ran in
  between; from then on its identifier is refused.
\<close>
theorem registry_rollback_restores:
  assumes "begin_transaction m = (i, m1)" "cfg_any\<^sup>*\<^sup>* m1 m2" "rollback_transaction m2 i = (Ok (), m3)" "cfg_any\<^sup>*\<^sup>* m3 m4"
  shows "cfg_keys m3 = cfg_keys m \<and> fst (rollback_transaction m4 i) = Err STATUS_INVALID_HANDLE \<and>
    fst (commit_transaction m4 i) = Err STATUS_INVALID_HANDLE"
proof -
  have "tx_keeps i (cfg_keys m) m1" using assms(1) by (auto simp: begin_transaction_def tx_keeps_def)
  then have t: "tx_keeps i (cfg_keys m) m2" by (rule steps_tx [OF assms(2)])
  obtain ks where ks: "map_of (transactions m2) i = Some ks" "cfg_keys m3 = ks" "map_of (transactions m3) i = None"
    "next_transaction m3 = next_transaction m2"
    using assms(3) by (auto simp: rollback_transaction_def ok_or_eq_Ok elim!: attemptE)
  have "tx_keeps i ks' m3" for ks' using ks t by (simp add: tx_keeps_def)
  then have "tx_keeps i ks' m4" for ks' by (rule steps_tx [OF assms(4)])
  from this [of "[]"] this [of "[([], new_key False 0)]"] have "map_of (transactions m4) i = None" by (auto simp: tx_keeps_def)
  then show ?thesis using ks t by (simp add: tx_keeps_def rollback_transaction_def commit_transaction_def)
qed

theorem registry_rollback_restores_witness:
  "map_of (cfg_keys demo_tx2) (child_path (child_path MACHINE_ROOT ''a'') ''n'') \<noteq> None \<and>
   cfg_keys (snd (rollback_transaction demo_tx2 1)) = cfg_keys demo_reg1"
proof -
  have b: "begin_transaction demo_reg1 = (1, demo_tx1)"
    unfolding prod_eq_iff demo_tx1_def by (simp, code_simp)
  have "create_key demo_tx1 ''/Registry/Machine/a/n'' False \<noteq> None" by code_simp
  then have "cfg_grow demo_tx1 demo_tx2" unfolding demo_tx2_def by (rule grow_after)
  then have s: "cfg_any\<^sup>*\<^sup>* demo_tx1 demo_tx2" by (blast intro: cfg_any.intros cfg_step.intros)
  have "fst (rollback_transaction demo_tx2 1) = Ok ()" "map_of (cfg_keys demo_tx2) (child_path (child_path MACHINE_ROOT ''a'') ''n'') \<noteq> None"
    by code_simp+
  moreover from this(1) have "rollback_transaction demo_tx2 1 = (Ok (), snd (rollback_transaction demo_tx2 1))" by (simp add: prod_eq_iff)
  ultimately show ?thesis using registry_rollback_restores [OF b s _ rtranclp.rtrancl_refl] by blast
qed

text \<open>
  Setting a value changes exactly what reading returns for that name, in any case of letters, on the paths that open the
  same key; every other read is as before.
\<close>
theorem registry_set_get:
  assumes "set_value m path name v = Some (Ok (), m')"
  shows "get_value m' path' name' = (if open_key m path' = open_key m path \<and> to_lowercase name' = to_lowercase name
    then Some (Ok v) else get_value m path' name')"
proof -
  obtain p k where k: "open_key m path = Some (Ok p)" "map_of (cfg_keys m) p = Some k"
    "cfg_keys m' = om_insert p (k\<lparr>key_values := om_insert (to_lowercase name) v (key_values k), key_last_write := cfg_clock m + 1\<rparr>) (cfg_keys m)"
    using set_value_cases [OF assms] by auto
  have "same_links (cfg_keys m) (cfg_keys m')" using k(2,3) by (simp add: same_links_def)
  then have o: "open_key m' q = open_key m q" for q
    by (simp add: open_key_def resolve_def resolve_same_links split: res.split)
  show ?thesis
  proof (cases "open_key m path'")
    case (Some r)
    then show ?thesis
    proof (cases r)
      case (Ok q)
      then show ?thesis using Some k by (cases "q = p") (auto simp: get_value_def with_key_def o)
    qed (auto simp: get_value_def with_key_def o k(1))
  qed (simp add: get_value_def with_key_def o k(1))
qed

theorem registry_set_get_witness: "get_value demo_val ''/Registry/Machine/A'' ''SIZE'' = Some (Ok (RegDword 7))"
proof -
  have "open_key demo_reg1 ''/Registry/Machine/A'' = open_key demo_reg1 ''/Registry/Machine/a''"
    "to_lowercase ''SIZE'' = to_lowercase ''Size''" by code_simp+
  then show ?thesis using registry_set_get [OF demo_set, of "''/Registry/Machine/A''" "''SIZE''"] by simp
qed

text \<open>
  C30. Every value stored in a registry that the operations reach, unloading the hive and rolling back included, has a name of at most
  255 bytes and at most 1 MiB of data.
\<close>
theorem registry_values_bounded:
  assumes "cfg_any\<^sup>*\<^sup>* config_manager_new m" "map_of (cfg_keys m) k = Some r" "map_of (key_values r) name = Some v"
  shows "length name \<le> 255 \<and> byte_len v \<le> MAX_VALUE_BYTES"
  using cfg_bound.reachable_inv [OF refl assms(1)] assms(2,3) unfolding stores_def values_bounded_def value_ok_def by blast

theorem registry_values_bounded_witness:
  "\<exists>k. map_of (cfg_keys demo_val) (child_path MACHINE_ROOT ''a'') = Some k \<and> map_of (key_values k) ''size'' = Some (RegDword 7) \<and>
     byte_len (RegDword 7) \<le> MAX_VALUE_BYTES"
proof -
  have "cfg_grow demo_reg1 demo_val" by (rule cfg_grow.intros(3) [OF demo_set])
  then have r: "cfg_any\<^sup>*\<^sup>* config_manager_new demo_val"
    using demo_grow(1) by (meson cfg_any.intros(1) cfg_step.intros(1) r_into_rtranclp rtranclp.rtrancl_into_rtrancl)
  obtain k where k: "map_of (cfg_keys demo_val) (child_path MACHINE_ROOT ''a'') = Some k" "map_of (key_values k) ''size'' = Some (RegDword 7)"
    using demo_val_key by blast
  from registry_values_bounded [OF r this] k show ?thesis by blast
qed

end
