(* ===== verification/Executive.thy ===== *)
theory Executive
  imports Exec_Pool
begin

text \<open>
  The executive services of \<open>src/src/casak/executive.rs\<close>: the logical clocks, timers, queues of APCs and DPCs, and
  dispatcher objects with waits for one or for all of them. A callback is a value of the type \<open>'c\<close>; the field
  \<open>ex_calls\<close> records the callbacks that were invoked, in order. Clocks, deadlines and counters are \<open>u64\<close>: the clocks
  saturate as in the source, identifiers are unbounded. The recursion count of a mutant is \<open>u32\<close> and traps on overflow.
\<close>

section \<open>State\<close>

datatype apc_kind = ApcKernel | ApcUser | ApcSpecialUser

record 'c ex_apc =
  apc_id :: nat
  apc_thread :: nat
  apc_kind_of :: apc_kind
  apc_routine :: nat
  apc_context :: nat
  apc_callback :: 'c

record 'c timer =
  tm_deadline :: nat
  tm_period :: nat
  tm_active :: bool
  tm_callback :: 'c

datatype dispatcher_object =
    DEvent (ev_manual: bool) (ev_on: bool)
  | DMutant (mt_owner: "nat option") (mt_recursion: nat) (mt_abandoned: bool)
  | DSemaphore (sem_count: nat) (sem_limit: nat)
  | DTimer (tmr_on: bool)

record wait_result =
  wr_index :: nat
  wr_abandoned :: bool
  wr_status :: nt_status

record 'c executive =
  ex_clock :: nat
  ex_interrupt_time :: nat
  timers :: "(nat, 'c timer) omap"
  fired :: "nat list"
  next_timer :: nat
  ex_apcs :: "'c ex_apc list"
  next_apc :: nat
  delivered_apcs :: nat
  dispatchers :: "(nat, dispatcher_object) omap"
  next_dispatcher :: nat
  ex_dpcs :: "'c dpc_queue"
  ex_calls :: "'c list"

definition executive_new :: "'c executive" where
  "executive_new = \<lparr>ex_clock = 1, ex_interrupt_time = 1, timers = [], fired = [], next_timer = 1, ex_apcs = [], next_apc = 1,
     delivered_apcs = 0, dispatchers = [], next_dispatcher = 1, ex_dpcs = dpc_queue_new, ex_calls = []\<rparr>"

section \<open>Clocks and timers\<close>

fun fire_timers :: "(nat \<times> nat) list \<Rightarrow> 'c executive \<Rightarrow> unit res \<times> 'c executive" where
  "fire_timers [] e = (Ok (), e)"
| "fire_timers ((i, period) # due) e =
     (case map_of (timers e) i of
        None \<Rightarrow> (Panic, e)
      | Some t \<Rightarrow> fire_timers due (e\<lparr>ex_calls := ex_calls e @ [tm_callback t],
          timers := om_insert i (if period = 0 then t\<lparr>tm_active := False\<rparr>
            else t\<lparr>tm_deadline := saturating_add64 (ex_clock e) period\<rparr>) (timers e),
          fired := fired e @ [i]\<rparr>))"

definition due_timers :: "'c executive \<Rightarrow> (nat \<times> nat) list" where
  "due_timers e = map (\<lambda>(i, t). (i, tm_period t)) (filter (\<lambda>(_, t). tm_active t \<and> tm_deadline t \<le> ex_clock e) (timers e))"

definition advance :: "'c executive \<Rightarrow> nat \<Rightarrow> nat res \<times> 'c executive" where
  "advance e ticks =
     (if ticks = 0 then (Ok 0, e)
      else let e1 = e\<lparr>ex_clock := saturating_add64 (ex_clock e) ticks,
                      ex_interrupt_time := saturating_add64 (ex_interrupt_time e) ticks\<rparr>;
               due = due_timers e1
           in (case fire_timers due e1 of (r, e2) \<Rightarrow> attempt r e2 (\<lambda>_. (Ok (length due), e2))))"

definition set_timer :: "'c executive \<Rightarrow> nat \<Rightarrow> nat \<Rightarrow> 'c \<Rightarrow> nat \<times> 'c executive" where
  "set_timer e relative period callback =
     (next_timer e, e\<lparr>next_timer := next_timer e + 1,
        timers := om_insert (next_timer e) \<lparr>tm_deadline = saturating_add64 (ex_clock e) relative, tm_period = period,
          tm_active = True, tm_callback = callback\<rparr> (timers e)\<rparr>)"

definition is_timer_active :: "'c executive \<Rightarrow> nat \<Rightarrow> bool" where
  "is_timer_active e i = (case map_of (timers e) i of None \<Rightarrow> False | Some t \<Rightarrow> tm_active t)"

definition cancel_timer :: "'c executive \<Rightarrow> nat \<Rightarrow> unit res \<times> 'c executive" where
  "cancel_timer e i = (case map_of (timers e) i of
      Some t \<Rightarrow> if tm_active t then (Ok (), e\<lparr>timers := om_remove i (timers e)\<rparr>) else (Err STATUS_NOT_FOUND, e)
    | None \<Rightarrow> (Err STATUS_NOT_FOUND, e))"

definition timer_count :: "'c executive \<Rightarrow> nat" where "timer_count e = length (timers e)"

section \<open>APCs and DPCs\<close>

definition ex_queue_apc :: "'c executive \<Rightarrow> nat \<Rightarrow> apc_kind \<Rightarrow> nat \<Rightarrow> nat \<Rightarrow> 'c \<Rightarrow> nat \<times> 'c executive" where
  "ex_queue_apc e thread kind routine context callback =
     (next_apc e, e\<lparr>next_apc := next_apc e + 1, ex_apcs := ex_apcs e @
        [\<lparr>apc_id = next_apc e, apc_thread = thread, apc_kind_of = kind, apc_routine = routine, apc_context = context,
          apc_callback = callback\<rparr>]\<rparr>)"

fun deliver_loop :: "nat \<Rightarrow> 'c ex_apc list \<Rightarrow> 'c ex_apc list \<Rightarrow> nat list \<Rightarrow> 'c executive \<Rightarrow> nat list \<times> 'c executive" where
  "deliver_loop thread [] remaining delivered e = (delivered, e\<lparr>ex_apcs := remaining\<rparr>)"
| "deliver_loop thread (a # as) remaining delivered e =
     (if apc_thread a = thread
      then deliver_loop thread as remaining (delivered @ [apc_id a])
             (e\<lparr>ex_calls := ex_calls e @ [apc_callback a], delivered_apcs := delivered_apcs e + 1\<rparr>)
      else deliver_loop thread as (remaining @ [a]) delivered e)"

definition deliver_apcs :: "'c executive \<Rightarrow> nat \<Rightarrow> nat list \<times> 'c executive" where
  "deliver_apcs e thread = deliver_loop thread (ex_apcs e) [] [] e"

definition ex_cancel_apc :: "'c executive \<Rightarrow> nat \<Rightarrow> unit res \<times> 'c executive" where
  "ex_cancel_apc e i = attempt (ok_or (position (\<lambda>a. apc_id a = i) (ex_apcs e)) STATUS_NOT_FOUND) e (\<lambda>k.
     (Ok (), e\<lparr>ex_apcs := take k (ex_apcs e) @ drop (Suc k) (ex_apcs e)\<rparr>))"

definition queued_apc :: "'c executive \<Rightarrow> nat \<Rightarrow> (nat \<times> apc_kind \<times> nat \<times> nat) option" where
  "queued_apc e i = map_option (\<lambda>a. (apc_thread a, apc_kind_of a, apc_routine a, apc_context a)) (find (\<lambda>a. apc_id a = i) (ex_apcs e))"

definition pending_apc_count :: "'c executive \<Rightarrow> nat" where "pending_apc_count e = length (ex_apcs e)"

definition queue_dpc :: "'c executive \<Rightarrow> 'c \<Rightarrow> nat \<times> 'c executive" where
  "queue_dpc e callback = (case dpc_enqueue (ex_dpcs e) callback of (n, q) \<Rightarrow> (n, e\<lparr>ex_dpcs := q\<rparr>))"

definition drain_dpcs :: "'c executive \<Rightarrow> nat \<times> 'c executive" where
  "drain_dpcs e = (case dpc_execute_pending (ex_dpcs e) of (n, calls, q) \<Rightarrow> (n, e\<lparr>ex_dpcs := q, ex_calls := ex_calls e @ calls\<rparr>))"

section \<open>Dispatcher objects\<close>

definition insert_dispatcher :: "'c executive \<Rightarrow> dispatcher_object \<Rightarrow> nat \<times> 'c executive" where
  "insert_dispatcher e d = (next_dispatcher e, e\<lparr>next_dispatcher := next_dispatcher e + 1,
     dispatchers := om_insert (next_dispatcher e) d (dispatchers e)\<rparr>)"

definition create_event :: "'c executive \<Rightarrow> bool \<Rightarrow> bool \<Rightarrow> nat \<times> 'c executive" where
  "create_event e manual signaled = insert_dispatcher e (DEvent manual signaled)"

definition create_mutant :: "'c executive \<Rightarrow> nat \<times> 'c executive" where
  "create_mutant e = insert_dispatcher e (DMutant None 0 False)"

definition create_semaphore :: "'c executive \<Rightarrow> nat \<Rightarrow> nat \<Rightarrow> nat res \<times> 'c executive" where
  "create_semaphore e n limit =
     (if limit = 0 \<or> n > limit then (Err STATUS_INVALID_PARAMETER, e)
      else case insert_dispatcher e (DSemaphore n limit) of (i, e1) \<Rightarrow> (Ok i, e1))"

definition create_timer_object :: "'c executive \<Rightarrow> nat \<times> 'c executive" where
  "create_timer_object e = insert_dispatcher e (DTimer False)"

definition query_dispatcher :: "'c executive \<Rightarrow> nat \<Rightarrow> dispatcher_object res" where
  "query_dispatcher e i = ok_or (map_of (dispatchers e) i) STATUS_INVALID_HANDLE"

definition put_dispatcher :: "'c executive \<Rightarrow> nat \<Rightarrow> dispatcher_object \<Rightarrow> 'c executive" where
  "put_dispatcher e i d = e\<lparr>dispatchers := om_insert i d (dispatchers e)\<rparr>"

definition signal :: "'c executive \<Rightarrow> nat \<Rightarrow> unit res \<times> 'c executive" where
  "signal e i = attempt (ok_or (map_of (dispatchers e) i) STATUS_INVALID_HANDLE) e (\<lambda>d. case d of
      DEvent manual _ \<Rightarrow> (Ok (), put_dispatcher e i (DEvent manual True))
    | DTimer _ \<Rightarrow> (Ok (), put_dispatcher e i (DTimer True))
    | DSemaphore n limit \<Rightarrow>
        if n \<ge> limit then (Err STATUS_SEMAPHORE_LIMIT_EXCEEDED, e)
        else (Ok (), put_dispatcher e i (DSemaphore (n + 1) limit))
    | DMutant _ _ _ \<Rightarrow> (Err STATUS_INVALID_PARAMETER, e))"

definition reset_dispatcher :: "'c executive \<Rightarrow> nat \<Rightarrow> unit res \<times> 'c executive" where
  "reset_dispatcher e i = attempt (ok_or (map_of (dispatchers e) i) STATUS_INVALID_HANDLE) e (\<lambda>d. case d of
      DEvent manual _ \<Rightarrow> (Ok (), put_dispatcher e i (DEvent manual False))
    | DTimer _ \<Rightarrow> (Ok (), put_dispatcher e i (DTimer False))
    | _ \<Rightarrow> (Err STATUS_INVALID_PARAMETER, e))"

fun satisfiable_object :: "nat \<Rightarrow> dispatcher_object \<Rightarrow> bool" where
  "satisfiable_object thread (DEvent _ signaled) = signaled"
| "satisfiable_object thread (DMutant owner _ _) = (owner = None \<or> owner = Some thread)"
| "satisfiable_object thread (DSemaphore n _) = (n > 0)"
| "satisfiable_object thread (DTimer signaled) = signaled"

definition satisfiable :: "'c executive \<Rightarrow> nat \<Rightarrow> nat \<Rightarrow> bool res" where
  "satisfiable e i thread = (case map_of (dispatchers e) i of None \<Rightarrow> Panic | Some d \<Rightarrow> Ok (satisfiable_object thread d))"

definition try_acquire :: "'c executive \<Rightarrow> nat \<Rightarrow> nat \<Rightarrow> bool option res \<times> 'c executive" where
  "try_acquire e i thread = attempt (ok_or (map_of (dispatchers e) i) STATUS_INVALID_HANDLE) e (\<lambda>d. case d of
      DEvent manual signaled \<Rightarrow>
        if \<not> signaled then (Ok None, e)
        else (Ok (Some False), if \<not> manual then put_dispatcher e i (DEvent manual False) else e)
    | DMutant owner recursion abandoned \<Rightarrow> (case owner of
          None \<Rightarrow> (Ok (Some abandoned), put_dispatcher e i (DMutant (Some thread) 1 False))
        | Some current \<Rightarrow>
            if current = thread
            then (if u32_max < recursion + 1 then (Panic, e)
                  else (Ok (Some False), put_dispatcher e i (DMutant owner (recursion + 1) abandoned)))
            else (Ok None, e))
    | DSemaphore n limit \<Rightarrow>
        if n = 0 then (Ok None, e) else (Ok (Some False), put_dispatcher e i (DSemaphore (n - 1) limit))
    | DTimer signaled \<Rightarrow>
        if \<not> signaled then (Ok None, e) else (Ok (Some False), put_dispatcher e i (DTimer False)))"

section \<open>Waits\<close>

definition time_out :: "'c executive \<Rightarrow> nat \<Rightarrow> wait_result res \<times> 'c executive" where
  "time_out e ticks =
     (if ticks > 0 then (case advance e ticks of (r, e1) \<Rightarrow> attempt r e1 (\<lambda>_. (Err STATUS_TIMEOUT, e1)))
      else (Err STATUS_TIMEOUT, e))"

fun acquire_first :: "'c executive \<Rightarrow> nat \<Rightarrow> nat list \<Rightarrow> nat \<Rightarrow> wait_result option res \<times> 'c executive" where
  "acquire_first e k [] thread = (Ok None, e)"
| "acquire_first e k (i # js) thread = (case try_acquire e i thread of (r, e1) \<Rightarrow> attempt r e1 (\<lambda>a. case a of
      Some abandoned \<Rightarrow> (Ok (Some \<lparr>wr_index = k, wr_abandoned = abandoned,
        wr_status = (if abandoned then STATUS_ABANDONED_WAIT_0 else STATUS_WAIT_0)\<rparr>), e1)
    | None \<Rightarrow> acquire_first e1 (k + 1) js thread))"

definition wait_any :: "'c executive \<Rightarrow> nat list \<Rightarrow> nat \<Rightarrow> nat \<Rightarrow> wait_result res \<times> 'c executive" where
  "wait_any e ids timeout thread =
     (if ids = [] then (Err STATUS_INVALID_PARAMETER, e)
      else if list_ex (\<lambda>i. map_of (dispatchers e) i = None) ids then (Err STATUS_INVALID_HANDLE, e)
      else case acquire_first e 0 ids thread of (r, e1) \<Rightarrow> attempt r e1 (\<lambda>w. case w of
             Some result \<Rightarrow> (Ok result, e1)
           | None \<Rightarrow> time_out e1 timeout))"

fun all_satisfiable :: "'c executive \<Rightarrow> nat list \<Rightarrow> nat \<Rightarrow> bool res" where
  "all_satisfiable e [] thread = Ok True"
| "all_satisfiable e (i # js) thread = rbind (satisfiable e i thread) (\<lambda>s. if s then all_satisfiable e js thread else Ok False)"

fun acquire_all :: "'c executive \<Rightarrow> nat list \<Rightarrow> nat \<Rightarrow> unit res \<times> 'c executive" where
  "acquire_all e [] thread = (Ok (), e)"
| "acquire_all e (i # js) thread = (case try_acquire e i thread of (r, e1) \<Rightarrow> attempt r e1 (\<lambda>_. acquire_all e1 js thread))"

definition wait_all :: "'c executive \<Rightarrow> nat list \<Rightarrow> nat \<Rightarrow> nat \<Rightarrow> wait_result res \<times> 'c executive" where
  "wait_all e ids timeout thread =
     (if ids = [] then (Err STATUS_INVALID_PARAMETER, e)
      else if list_ex (\<lambda>i. map_of (dispatchers e) i = None) ids then (Err STATUS_INVALID_HANDLE, e)
      else attempt (all_satisfiable e ids thread) e (\<lambda>s.
        if s then (case acquire_all e ids thread of (r, e1) \<Rightarrow> attempt r e1 (\<lambda>_.
            (Ok \<lparr>wr_index = 0, wr_abandoned = False, wr_status = STATUS_WAIT_0\<rparr>, e1)))
        else time_out e timeout))"

fun abandon_object :: "nat \<Rightarrow> dispatcher_object \<Rightarrow> dispatcher_object" where
  "abandon_object thread (DMutant owner recursion abandoned) =
     (if owner = Some thread then DMutant None 0 True else DMutant owner recursion abandoned)"
| "abandon_object thread d = d"

fun owned_by :: "nat \<Rightarrow> dispatcher_object \<Rightarrow> bool" where
  "owned_by thread (DMutant owner _ _) = (owner = Some thread)"
| "owned_by thread _ = False"

definition abandon_mutants :: "'c executive \<Rightarrow> nat \<Rightarrow> nat \<times> 'c executive" where
  "abandon_mutants e thread =
     (length (filter (\<lambda>(_, d). owned_by thread d) (dispatchers e)),
      e\<lparr>dispatchers := map (\<lambda>(i, d). (i, abandon_object thread d)) (dispatchers e)\<rparr>)"


section \<open>Steps\<close>

inductive ex_step :: "'c executive \<Rightarrow> 'c executive \<Rightarrow> bool" where
  "ex_step e (snd (advance e ticks))"
| "ex_step e (snd (set_timer e relative period c))"
| "ex_step e (snd (cancel_timer e i))"
| "ex_step e (snd (ex_queue_apc e thread kind routine context c))"
| "ex_step e (snd (deliver_apcs e thread))"
| "ex_step e (snd (ex_cancel_apc e i))"
| "ex_step e (snd (queue_dpc e c))"
| "ex_step e (snd (drain_dpcs e))"
| "ex_step e (snd (create_event e manual signaled))"
| "ex_step e (snd (create_mutant e))"
| "ex_step e (snd (create_semaphore e n limit))"
| "ex_step e (snd (create_timer_object e))"
| "ex_step e (snd (signal e i))"
| "ex_step e (snd (reset_dispatcher e i))"
| "ex_step e (snd (wait_any e ids timeout thread))"
| "ex_step e (snd (wait_all e ids timeout thread))"
| "ex_step e (snd (abandon_mutants e thread))"

section \<open>Timers\<close>

definition rearm :: "nat \<Rightarrow> 'c timer \<Rightarrow> 'c timer" where
  "rearm clk t = (if tm_period t = 0 then t\<lparr>tm_active := False\<rparr> else t\<lparr>tm_deadline := saturating_add64 clk (tm_period t)\<rparr>)"

lemma fire_timers_spec:
  assumes "om_wf (timers e)" "distinct (map fst due)"
    "\<forall>i p. (i, p) \<in> set due \<longrightarrow> (\<exists>t. map_of (timers e) i = Some t \<and> tm_period t = p)"
  shows "\<exists>ts. fire_timers due e = (Ok (), e\<lparr>timers := ts, fired := fired e @ map fst due,
      ex_calls := ex_calls e @ map (\<lambda>(i, _). tm_callback (the (map_of (timers e) i))) due\<rparr>) \<and> om_wf ts \<and>
    map_of ts = (\<lambda>i. if i \<in> fst ` set due then map_option (rearm (ex_clock e)) (map_of (timers e) i) else map_of (timers e) i)"
  using assms
proof (induction due arbitrary: e)
  case Nil
  then show ?case by (intro exI [of _ "timers e"]) simp
next
  case (Cons d due)
  obtain i p where d: "d = (i, p)" by (cases d)
  with Cons.prems(3) obtain t where t: "map_of (timers e) i = Some t" "tm_period t = p" by auto
  have i: "i \<notin> fst ` set due" using Cons.prems(2) d by auto
  let ?e = "e\<lparr>ex_calls := ex_calls e @ [tm_callback t], timers := om_insert i (rearm (ex_clock e) t) (timers e), fired := fired e @ [i]\<rparr>"
  have step: "fire_timers (d # due) e = fire_timers due ?e" using t by (simp add: d rearm_def)
  have pres: "\<forall>j q. (j, q) \<in> set due \<longrightarrow> (\<exists>u. map_of (timers ?e) j = Some u \<and> tm_period u = q)"
    using Cons.prems(3) i by force
  have "om_wf (timers ?e)" "distinct (map fst due)" using Cons.prems(1,2) by simp_all
  from Cons.IH [OF this pres] obtain ts where ts: "fire_timers due ?e = (Ok (), ?e\<lparr>timers := ts, fired := fired ?e @ map fst due,
      ex_calls := ex_calls ?e @ map (\<lambda>(i, _). tm_callback (the (map_of (timers ?e) i))) due\<rparr>)" "om_wf ts"
    "map_of ts = (\<lambda>i. if i \<in> fst ` set due then map_option (rearm (ex_clock ?e)) (map_of (timers ?e) i) else map_of (timers ?e) i)"
    by blast
  have cb: "map (\<lambda>(j, _). tm_callback (the (map_of (timers ?e) j))) due = map (\<lambda>(j, _). tm_callback (the (map_of (timers e) j))) due"
    using i by (force intro!: map_cong)
  have "fire_timers (d # due) e = (Ok (), e\<lparr>timers := ts, fired := fired e @ map fst (d # due),
      ex_calls := ex_calls e @ map (\<lambda>(i, _). tm_callback (the (map_of (timers e) i))) (d # due)\<rparr>)"
    unfolding step ts(1) cb using t by (simp add: d)
  moreover have "map_of ts = (\<lambda>j. if j \<in> fst ` set (d # due) then map_option (rearm (ex_clock e)) (map_of (timers e) j) else map_of (timers e) j)"
    unfolding ts(3) using t i by (auto simp: d fun_eq_iff)
  ultimately show ?case using ts(2) by blast
qed

lemma due_timers_ok:
  assumes "om_wf (timers e)"
  shows "distinct (map fst (due_timers e))"
    "\<forall>i p. (i, p) \<in> set (due_timers e) \<longrightarrow> (\<exists>t. map_of (timers e) i = Some t \<and> tm_period t = p)"
    "i \<in> fst ` set (due_timers e) \<longleftrightarrow> (\<exists>t. map_of (timers e) i = Some t \<and> tm_active t \<and> tm_deadline t \<le> ex_clock e)"
proof -
  have "map fst (due_timers e) = map fst (filter (\<lambda>(_, t). tm_active t \<and> tm_deadline t \<le> ex_clock e) (timers e))"
    by (simp add: due_timers_def case_prod_beta comp_def)
  then show "distinct (map fst (due_timers e))" using om_wf_distinct [OF assms] by (simp add: distinct_map_filter)
  show "\<forall>i p. (i, p) \<in> set (due_timers e) \<longrightarrow> (\<exists>t. map_of (timers e) i = Some t \<and> tm_period t = p)"
    using om_get_iff [OF assms] by (auto simp: due_timers_def)
  show "i \<in> fst ` set (due_timers e) \<longleftrightarrow> (\<exists>t. map_of (timers e) i = Some t \<and> tm_active t \<and> tm_deadline t \<le> ex_clock e)"
    using om_get_iff [OF assms] by (force simp: due_timers_def)
qed

text \<open>The clocks after an advance, before the timers fire.\<close>

definition tick :: "'c executive \<Rightarrow> nat \<Rightarrow> 'c executive" where
  "tick e ticks = e\<lparr>ex_clock := saturating_add64 (ex_clock e) ticks, ex_interrupt_time := saturating_add64 (ex_interrupt_time e) ticks\<rparr>"

lemma tick_fields [simp]: "timers (tick e n) = timers e" "fired (tick e n) = fired e" "ex_calls (tick e n) = ex_calls e"
  "dispatchers (tick e n) = dispatchers e" "ex_clock (tick e n) = saturating_add64 (ex_clock e) n"
  "next_timer (tick e n) = next_timer e" "next_dispatcher (tick e n) = next_dispatcher e"
  by (simp_all add: tick_def)

lemma advance_spec:
  assumes "om_wf (timers e)" "0 < ticks"
  shows "\<exists>ts. advance e ticks = (Ok (length (due_timers (tick e ticks))), (tick e ticks)\<lparr>timers := ts,
      fired := fired e @ map fst (due_timers (tick e ticks)),
      ex_calls := ex_calls e @ map (\<lambda>(i, _). tm_callback (the (map_of (timers e) i))) (due_timers (tick e ticks))\<rparr>) \<and> om_wf ts \<and>
    map_of ts = (\<lambda>i. if i \<in> fst ` set (due_timers (tick e ticks)) then map_option (rearm (ex_clock (tick e ticks))) (map_of (timers e) i)
      else map_of (timers e) i)"
proof -
  have wf: "om_wf (timers (tick e ticks))" using assms(1) by simp
  from fire_timers_spec [OF wf due_timers_ok(1,2) [OF wf]] assms(2) show ?thesis
    unfolding tick_fields by (auto simp: advance_def tick_def [symmetric] Let_def)
qed


section \<open>Invariant\<close>

fun disp_ok :: "dispatcher_object \<Rightarrow> bool" where
  "disp_ok (DMutant owner recursion abandoned) \<longleftrightarrow>
     (owner = None \<longleftrightarrow> recursion = 0) \<and> recursion \<le> u32_max \<and> (owner \<noteq> None \<longrightarrow> \<not> abandoned)"
| "disp_ok (DSemaphore n limit) \<longleftrightarrow> n \<le> limit \<and> 0 < limit"
| "disp_ok _ \<longleftrightarrow> True"

definition disps_ok :: "(nat, dispatcher_object) omap \<Rightarrow> nat \<Rightarrow> bool" where
  "disps_ok ds n \<longleftrightarrow> fresh_ids ds n \<and> (\<forall>i d. map_of ds i = Some d \<longrightarrow> disp_ok d)"

definition ex_inv :: "'c executive \<Rightarrow> bool" where
  "ex_inv e \<longleftrightarrow> fresh_ids (timers e) (next_timer e) \<and> disps_ok (dispatchers e) (next_dispatcher e)"

lemma disps_ok_put: "disps_ok ds n \<Longrightarrow> map_of ds i = Some d \<Longrightarrow> disp_ok d' \<Longrightarrow> disps_ok (om_insert i d' ds) n"
  by (auto simp: disps_ok_def)

lemma disps_ok_new: "disps_ok ds n \<Longrightarrow> disp_ok d \<Longrightarrow> disps_ok (om_insert n d ds) (n + 1)"
  by (auto simp: disps_ok_def)

lemma disps_ok_get: "disps_ok ds n \<Longrightarrow> map_of ds i = Some d \<Longrightarrow> disp_ok d"
  by (simp add: disps_ok_def)

lemma u32_max_pos [simp]: "Suc 0 \<le> u32_max"
  by (simp add: u32_max_def)

lemma try_acquire_frame:
  assumes "disps_ok (dispatchers e) n"
  shows "\<exists>ds. snd (try_acquire e i thread) = e\<lparr>dispatchers := ds\<rparr> \<and> disps_ok ds n"
proof -
  have same: "\<exists>ds. e = e\<lparr>dispatchers := ds\<rparr> \<and> disps_ok ds n" using assms by (intro exI [of _ "dispatchers e"]) simp
  show ?thesis
  proof (cases "map_of (dispatchers e) i")
    case None
    then show ?thesis using same by (simp add: try_acquire_def)
  next
    case (Some d)
    then have ok: "disp_ok d" by (rule disps_ok_get [OF assms])
    have put: "\<exists>ds. put_dispatcher e i d' = e\<lparr>dispatchers := ds\<rparr> \<and> disps_ok ds n" if "disp_ok d'" for d'
      using disps_ok_put [OF assms Some that] by (auto simp: put_dispatcher_def)
    show ?thesis
    proof (cases d)
      case (DMutant owner r a)
      then show ?thesis using Some ok same put
        by (cases owner) (auto simp: try_acquire_def)
    qed (use Some ok same put in \<open>auto simp: try_acquire_def\<close>)
  qed
qed

lemma acquire_frames:
  assumes "disps_ok (dispatchers e) n"
  shows "\<exists>ds. snd (acquire_first e k js thread) = e\<lparr>dispatchers := ds\<rparr> \<and> disps_ok ds n"
    and "\<exists>ds. snd (acquire_all e js thread) = e\<lparr>dispatchers := ds\<rparr> \<and> disps_ok ds n"
proof -
  have same: "\<exists>ds. e = e\<lparr>dispatchers := ds\<rparr> \<and> disps_ok ds n" if "disps_ok (dispatchers e) n" for e :: "'c executive"
    using that by (intro exI [of _ "dispatchers e"]) simp
  show "\<exists>ds. snd (acquire_first e k js thread) = e\<lparr>dispatchers := ds\<rparr> \<and> disps_ok ds n"
    using assms
  proof (induction js arbitrary: e k)
    case (Cons i js)
    obtain ds where ds: "snd (try_acquire e i thread) = e\<lparr>dispatchers := ds\<rparr>" "disps_ok ds n"
      using try_acquire_frame [OF Cons.prems] by blast
    then have "\<exists>ds'. snd (acquire_first (e\<lparr>dispatchers := ds\<rparr>) (k + 1) js thread) = e\<lparr>dispatchers := ds'\<rparr> \<and> disps_ok ds' n"
      using Cons.IH [of "e\<lparr>dispatchers := ds\<rparr>" "k + 1"] by simp
    then show ?case using ds
      by (auto simp: snd_attempt case_prod_beta split: res.splits option.splits)
  qed (simp add: same)
  show "\<exists>ds. snd (acquire_all e js thread) = e\<lparr>dispatchers := ds\<rparr> \<and> disps_ok ds n"
    using assms
  proof (induction js arbitrary: e)
    case (Cons i js)
    obtain ds where ds: "snd (try_acquire e i thread) = e\<lparr>dispatchers := ds\<rparr>" "disps_ok ds n"
      using try_acquire_frame [OF Cons.prems] by blast
    then have "\<exists>ds'. snd (acquire_all (e\<lparr>dispatchers := ds\<rparr>) js thread) = e\<lparr>dispatchers := ds'\<rparr> \<and> disps_ok ds' n"
      using Cons.IH [of "e\<lparr>dispatchers := ds\<rparr>"] by simp
    then show ?case using ds by (auto simp: snd_attempt case_prod_beta split: res.splits)
  qed (simp add: same)
qed

lemma ex_inv_disps: "ex_inv e \<Longrightarrow> disps_ok ds (next_dispatcher e) \<Longrightarrow> ex_inv (e\<lparr>dispatchers := ds\<rparr>)"
  by (simp add: ex_inv_def)

lemma advance_inv: "ex_inv e \<Longrightarrow> ex_inv (snd (advance e ticks))"
  and advance_keeps: "ex_inv e \<Longrightarrow> \<exists>n. fst (advance e ticks) = Ok n" "ex_inv e \<Longrightarrow> dispatchers (snd (advance e ticks)) = dispatchers e"
proof -
  have "ex_inv (snd (advance e ticks)) \<and> (\<exists>n. fst (advance e ticks) = Ok n) \<and> dispatchers (snd (advance e ticks)) = dispatchers e"
    if inv: "ex_inv e"
  proof (cases "ticks = 0")
    case True
    with inv show ?thesis by (simp add: advance_def)
  next
    case False
    have fr: "fresh_ids (timers e) (next_timer e)" using inv by (simp add: ex_inv_def)
    obtain ts where ts: "advance e ticks = (Ok (length (due_timers (tick e ticks))), (tick e ticks)\<lparr>timers := ts,
        fired := fired e @ map fst (due_timers (tick e ticks)),
        ex_calls := ex_calls e @ map (\<lambda>(i, _). tm_callback (the (map_of (timers e) i))) (due_timers (tick e ticks))\<rparr>)" "om_wf ts"
      "map_of ts = (\<lambda>i. if i \<in> fst ` set (due_timers (tick e ticks)) then map_option (rearm (ex_clock (tick e ticks))) (map_of (timers e) i)
        else map_of (timers e) i)"
      using advance_spec [OF fresh_ids_wf [OF fr], of ticks] False by auto
    have "dom (map_of ts) \<subseteq> dom (map_of (timers e))" unfolding ts(3) by (auto split: if_splits)
    then have "fst ` set ts \<subseteq> fst ` set (timers e)" by (simp add: om_keys_dom)
    then have "fresh_ids ts (next_timer e)" using fr ts(2) unfolding fresh_ids_def by blast
    then show ?thesis using inv unfolding ts(1) by (simp add: ex_inv_def)
  qed
  then show "ex_inv e \<Longrightarrow> ex_inv (snd (advance e ticks))" "ex_inv e \<Longrightarrow> \<exists>n. fst (advance e ticks) = Ok n"
    "ex_inv e \<Longrightarrow> dispatchers (snd (advance e ticks)) = dispatchers e" by blast+
qed

lemma time_out_spec: "ex_inv e \<Longrightarrow> ex_inv (snd (time_out e ticks)) \<and> fst (time_out e ticks) = Err STATUS_TIMEOUT \<and>
    dispatchers (snd (time_out e ticks)) = dispatchers e"
  using advance_inv [of e ticks] advance_keeps [of e ticks]
  by (cases "advance e ticks") (auto simp: time_out_def)

lemma wait_any_inv: assumes "ex_inv e" shows "ex_inv (snd (wait_any e ids timeout thread))"
proof -
  obtain ds where ds: "snd (acquire_first e 0 ids thread) = e\<lparr>dispatchers := ds\<rparr>" "disps_ok ds (next_dispatcher e)"
    using acquire_frames(1) [of e "next_dispatcher e" 0 ids thread] assms unfolding ex_inv_def by blast
  have inv: "ex_inv (e\<lparr>dispatchers := ds\<rparr>)" by (rule ex_inv_disps [OF assms ds(2)])
  show ?thesis using assms inv time_out_spec [OF inv, of timeout] ds(1)
    by (auto simp: wait_any_def case_prod_beta snd_attempt split: res.split option.split)
qed

lemma wait_all_inv: assumes "ex_inv e" shows "ex_inv (snd (wait_all e ids timeout thread))"
proof -
  obtain ds where ds: "snd (acquire_all e ids thread) = e\<lparr>dispatchers := ds\<rparr>" "disps_ok ds (next_dispatcher e)"
    using acquire_frames(2) [of e "next_dispatcher e" ids thread] assms unfolding ex_inv_def by blast
  have inv: "ex_inv (e\<lparr>dispatchers := ds\<rparr>)" by (rule ex_inv_disps [OF assms ds(2)])
  show ?thesis using assms inv time_out_spec [OF assms, of timeout] ds(1)
    by (auto simp: wait_all_def case_prod_beta snd_attempt split: res.split)
qed


lemma deliver_loop_fields:
  "timers (snd (deliver_loop t ts r d e)) = timers e" "next_timer (snd (deliver_loop t ts r d e)) = next_timer e"
  "dispatchers (snd (deliver_loop t ts r d e)) = dispatchers e"
  "next_dispatcher (snd (deliver_loop t ts r d e)) = next_dispatcher e"
  by (induction t ts r d e rule: deliver_loop.induct) auto

lemma insert_dispatcher_inv: "ex_inv e \<Longrightarrow> disp_ok d \<Longrightarrow> ex_inv (snd (insert_dispatcher e d))"
  using disps_ok_new [of "dispatchers e" "next_dispatcher e" d] by (simp add: ex_inv_def insert_dispatcher_def)

lemma put_dispatcher_inv:
  "ex_inv e \<Longrightarrow> map_of (dispatchers e) i = Some d \<Longrightarrow> disp_ok d' \<Longrightarrow> ex_inv (put_dispatcher e i d')"
  unfolding put_dispatcher_def by (rule ex_inv_disps) (auto simp: ex_inv_def intro: disps_ok_put)

lemma signal_inv:
  assumes "ex_inv e"
  shows "ex_inv (snd (signal e i))" "ex_inv (snd (reset_dispatcher e i))"
proof -
  have "ex_inv (snd (signal e i)) \<and> ex_inv (snd (reset_dispatcher e i))"
  proof (cases "map_of (dispatchers e) i")
    case (Some d)
    then have "disp_ok d" using assms disps_ok_get by (auto simp: ex_inv_def)
    with Some assms show ?thesis
      by (cases d) (auto simp: signal_def reset_dispatcher_def intro!: put_dispatcher_inv [of e i d])
  qed (use assms in \<open>simp add: signal_def reset_dispatcher_def\<close>)
  then show "ex_inv (snd (signal e i))" "ex_inv (snd (reset_dispatcher e i))" by blast+
qed

lemma abandon_ok: "disp_ok d \<Longrightarrow> disp_ok (abandon_object thread d)"
  by (cases d) auto

lemma abandon_inv: assumes "ex_inv e" shows "ex_inv (snd (abandon_mutants e thread))"
proof -
  let ?ds = "map (\<lambda>(i, d). (i, abandon_object thread d)) (dispatchers e)"
  have "fresh_ids ?ds (next_dispatcher e)" using assms by (simp add: ex_inv_def disps_ok_def fresh_ids_map_values)
  then have "disps_ok ?ds (next_dispatcher e)"
    using assms abandon_ok by (auto simp: disps_ok_def ex_inv_def map_values_get)
  from ex_inv_disps [OF assms this] show ?thesis by (simp add: abandon_mutants_def)
qed

lemma ex_step_inv: "ex_step e e' \<Longrightarrow> ex_inv e \<Longrightarrow> ex_inv e'"
proof (induction rule: ex_step.induct)
  case (2 e relative period c)
  then show ?case by (auto simp: ex_inv_def set_timer_def)
next
  case (3 e i)
  then show ?case by (auto simp: ex_inv_def cancel_timer_def split: option.split)
next
  case (4 e thread kind routine ctx c)
  then show ?case by (simp add: ex_inv_def ex_queue_apc_def)
next
  case (5 e thread)
  then show ?case by (simp add: ex_inv_def deliver_apcs_def deliver_loop_fields)
next
  case (6 e i)
  then show ?case by (auto simp: ex_inv_def ex_cancel_apc_def snd_attempt split: res.split)
next
  case (7 e c)
  then show ?case by (simp add: ex_inv_def queue_dpc_def case_prod_beta)
next
  case (8 e)
  then show ?case by (simp add: ex_inv_def drain_dpcs_def case_prod_beta)
next
  case (11 e n limit)
  then show ?case using insert_dispatcher_inv [of e "DSemaphore n limit"]
    by (auto simp: create_semaphore_def case_prod_beta)
qed (simp_all add: advance_inv wait_any_inv wait_all_inv signal_inv abandon_inv insert_dispatcher_inv create_event_def create_mutant_def
    create_timer_object_def)

lemma ex_inv_new: "ex_inv executive_new"
  by (simp add: executive_new_def ex_inv_def disps_ok_def)

interpretation exec: invariant_system "\<lambda>e. e = executive_new" ex_step ex_inv
  by unfold_locales (auto simp: ex_inv_new intro: ex_step_inv)

section \<open>Waits for all objects\<close>

text \<open>What a satisfied wait does to an object.\<close>

fun consume :: "nat \<Rightarrow> dispatcher_object \<Rightarrow> dispatcher_object" where
  "consume thread (DEvent manual signaled) = DEvent manual (manual \<and> signaled)"
| "consume thread (DMutant owner recursion abandoned) =
     (case owner of None \<Rightarrow> DMutant (Some thread) 1 False | Some _ \<Rightarrow> DMutant owner (recursion + 1) abandoned)"
| "consume thread (DSemaphore n limit) = DSemaphore (n - 1) limit"
| "consume thread (DTimer signaled) = DTimer False"

fun no_overflow :: "nat \<Rightarrow> dispatcher_object \<Rightarrow> bool" where
  "no_overflow thread (DMutant owner recursion _) \<longleftrightarrow> owner = Some thread \<longrightarrow> recursion < u32_max"
| "no_overflow thread _ \<longleftrightarrow> True"

lemma try_acquire_sat:
  assumes "map_of (dispatchers e) i = Some d" "satisfiable_object thread d" "no_overflow thread d"
  shows "\<exists>a ds. try_acquire e i thread = (Ok (Some a), e\<lparr>dispatchers := ds\<rparr>) \<and> map_of ds = (map_of (dispatchers e))(i \<mapsto> consume thread d)"
proof -
  have same: "\<exists>ds. e = e\<lparr>dispatchers := ds\<rparr> \<and> map_of ds = (map_of (dispatchers e))(i \<mapsto> d)"
    using assms(1) by (intro exI [of _ "dispatchers e"]) (auto simp: fun_eq_iff)
  have put: "\<exists>ds. put_dispatcher e i d' = e\<lparr>dispatchers := ds\<rparr> \<and> map_of ds = (map_of (dispatchers e))(i \<mapsto> d')" for d'
    by (intro exI [of _ "om_insert i d' (dispatchers e)"]) (simp add: put_dispatcher_def)
  show ?thesis
  proof (cases d)
    case (DEvent manual signaled)
    then show ?thesis using assms same put [of "DEvent manual False"] by (cases manual) (auto simp: try_acquire_def)
  next
    case (DMutant owner r a)
    then show ?thesis using assms put [of "DMutant (Some thread) 1 False"] put [of "DMutant owner (r + 1) a"]
      by (cases owner) (auto simp: try_acquire_def)
  next
    case (DSemaphore n limit)
    then show ?thesis using assms put [of "DSemaphore (n - 1) limit"] by (auto simp: try_acquire_def)
  next
    case (DTimer signaled)
    then show ?thesis using assms put [of "DTimer False"] by (auto simp: try_acquire_def)
  qed
qed

lemma all_satisfiable_eq:
  assumes "\<forall>i \<in> set js. map_of (dispatchers e) i \<noteq> None"
  shows "all_satisfiable e js thread = Ok (\<forall>i \<in> set js. satisfiable_object thread (the (map_of (dispatchers e) i)))"
  using assms by (induction js) (auto simp: satisfiable_def)

lemma acquire_all_spec:
  assumes "distinct js" "\<forall>i \<in> set js. \<exists>d. map_of (dispatchers e) i = Some d \<and> satisfiable_object thread d \<and> no_overflow thread d"
  shows "\<exists>ds. acquire_all e js thread = (Ok (), e\<lparr>dispatchers := ds\<rparr>) \<and>
    map_of ds = (\<lambda>i. if i \<in> set js then map_option (consume thread) (map_of (dispatchers e) i) else map_of (dispatchers e) i)"
  using assms
proof (induction js arbitrary: e)
  case Nil
  then show ?case by (intro exI [of _ "dispatchers e"]) simp
next
  case (Cons i js)
  obtain d where d: "map_of (dispatchers e) i = Some d" "satisfiable_object thread d" "no_overflow thread d"
    using Cons.prems(2) by auto
  obtain a ds where ds: "try_acquire e i thread = (Ok (Some a), e\<lparr>dispatchers := ds\<rparr>)"
    "map_of ds = (map_of (dispatchers e))(i \<mapsto> consume thread d)"
    using try_acquire_sat [OF d] by blast
  let ?e = "e\<lparr>dispatchers := ds\<rparr>"
  have "\<forall>j \<in> set js. \<exists>d. map_of (dispatchers ?e) j = Some d \<and> satisfiable_object thread d \<and> no_overflow thread d"
    using Cons.prems ds(2) by auto
  from Cons.IH [OF _ this] Cons.prems(1) obtain ds' where ds': "acquire_all ?e js thread = (Ok (), ?e\<lparr>dispatchers := ds'\<rparr>)"
    "map_of ds' = (\<lambda>j. if j \<in> set js then map_option (consume thread) (map_of (dispatchers ?e) j) else map_of (dispatchers ?e) j)" by auto
  have "map_of ds' = (\<lambda>j. if j \<in> set (i # js) then map_option (consume thread) (map_of (dispatchers e) j) else map_of (dispatchers e) j)"
    unfolding ds'(2) using ds(2) d(1) Cons.prems(1) by (auto simp: fun_eq_iff)
  moreover have "acquire_all e (i # js) thread = (Ok (), e\<lparr>dispatchers := ds'\<rparr>)" using ds(1) ds'(1) by simp
  ultimately show ?case by blast
qed

text \<open>Acquiring every semaphore of a list, repetitions included.\<close>

definition drain :: "(nat \<rightharpoonup> dispatcher_object) \<Rightarrow> nat list \<Rightarrow> (nat \<rightharpoonup> dispatcher_object)" where
  "drain f ids = (\<lambda>i. case f i of Some (DSemaphore n limit) \<Rightarrow> Some (DSemaphore (n - count_list ids i) limit) | d \<Rightarrow> d)"

lemma drain_Nil: "drain f [] = f"
  by (auto simp: drain_def fun_eq_iff split: option.split dispatcher_object.split)

lemma drain_Cons: "f i = Some (DSemaphore n limit) \<Longrightarrow> drain (f(i \<mapsto> DSemaphore (n - 1) limit)) js = drain f (i # js)"
  by (auto simp: drain_def fun_eq_iff split: option.split dispatcher_object.split)

lemma acquire_semaphores:
  "\<forall>i \<in> set js. \<exists>n limit. map_of (dispatchers e) i = Some (DSemaphore n limit) \<Longrightarrow>
     \<exists>ds. acquire_all e js thread = (Ok (), e\<lparr>dispatchers := ds\<rparr>) \<and> map_of ds = drain (map_of (dispatchers e)) js"
proof (induction js arbitrary: e)
  case Nil
  then show ?case by (intro exI [of _ "dispatchers e"]) (simp add: drain_Nil)
next
  case (Cons i js)
  obtain n limit where d: "map_of (dispatchers e) i = Some (DSemaphore n limit)" using Cons.prems by auto
  have "\<exists>a ds. try_acquire e i thread = (Ok a, e\<lparr>dispatchers := ds\<rparr>) \<and> map_of ds = (map_of (dispatchers e))(i \<mapsto> DSemaphore (n - 1) limit)"
  proof (cases "n = 0")
    case True
    then have "map_of (dispatchers e) = (map_of (dispatchers e))(i \<mapsto> DSemaphore (n - 1) limit)" using d by (auto simp: fun_eq_iff)
    then show ?thesis using d True by (intro exI [of _ None] exI [of _ "dispatchers e"]) (simp add: try_acquire_def)
  next
    case False
    then show ?thesis using try_acquire_sat [OF d, of thread] by (simp, blast)
  qed
  then obtain a ds where ds: "try_acquire e i thread = (Ok a, e\<lparr>dispatchers := ds\<rparr>)"
    "map_of ds = (map_of (dispatchers e))(i \<mapsto> DSemaphore (n - 1) limit)" by blast
  have "\<forall>j \<in> set js. \<exists>n limit. map_of (dispatchers (e\<lparr>dispatchers := ds\<rparr>)) j = Some (DSemaphore n limit)" using Cons.prems ds(2) by auto
  from Cons.IH [OF this] obtain ds' where "acquire_all (e\<lparr>dispatchers := ds\<rparr>) js thread = (Ok (), e\<lparr>dispatchers := ds'\<rparr>)"
    "map_of ds' = drain (map_of ds) js" by auto
  then show ?case using ds drain_Cons [of "map_of (dispatchers e)" i n limit js, OF d] by auto
qed

section \<open>Properties\<close>

definition demo_ex1 :: "nat executive" where
  "demo_ex1 = snd (create_semaphore executive_new 1 1)"

definition demo_ex2 :: "nat executive" where
  "demo_ex2 = snd (create_mutant demo_ex1)"

definition demo_ex3 :: "nat executive" where
  "demo_ex3 = snd (set_timer demo_ex2 5 0 70)"

definition demo_ex4 :: "nat executive" where
  "demo_ex4 = snd (set_timer demo_ex3 3 2 71)"

lemma demo_ex_eqs:
  "dispatchers demo_ex1 = [(1, DSemaphore 1 1)]" "dispatchers demo_ex4 = [(1, DSemaphore 1 1), (2, DMutant None 0 False)]"
  "timers demo_ex4 = [(1, \<lparr>tm_deadline = 6, tm_period = 0, tm_active = True, tm_callback = 70\<rparr>),
     (2, \<lparr>tm_deadline = 4, tm_period = 2, tm_active = True, tm_callback = 71\<rparr>)]"
  "fired demo_ex4 = []" "ex_clock demo_ex4 = 1" "ex_calls demo_ex4 = []"
  by (simp_all add: demo_ex1_def demo_ex2_def demo_ex3_def demo_ex4_def create_semaphore_def create_mutant_def set_timer_def
      insert_dispatcher_def executive_new_def saturating_add64_def u64_max_def)

lemma demo_ex_reachable: "ex_step\<^sup>*\<^sup>* executive_new demo_ex1" "ex_step\<^sup>*\<^sup>* executive_new demo_ex4"
proof -
  have "ex_step executive_new demo_ex1" "ex_step demo_ex1 demo_ex2" "ex_step demo_ex2 demo_ex3" "ex_step demo_ex3 demo_ex4"
    unfolding demo_ex1_def demo_ex2_def demo_ex3_def demo_ex4_def by (rule ex_step.intros)+
  then show "ex_step\<^sup>*\<^sup>* executive_new demo_ex1" "ex_step\<^sup>*\<^sup>* executive_new demo_ex4"
    by (meson rtranclp.rtrancl_into_rtrancl rtranclp.rtrancl_refl)+
qed

text \<open>
  C31. A wait for several distinct objects is all or nothing, provided that the thread does not hold one of them as a mutant
  whose recursion count is already at its maximum. An empty list is an invalid parameter, and an unknown object an invalid handle; both change nothing.
  When every object can be acquired by the thread, each of them is
  consumed once and no other object changes; otherwise the wait times out and no object changes. A wait that succeeds always reports the plain success
  status and no abandonment, even if it acquired an abandoned mutant.
\<close>
theorem wait_all_atomic:
  assumes "ex_step\<^sup>*\<^sup>* (executive_new :: 'c executive) e" "distinct ids"
    and "\<forall>i \<in> set ids. \<forall>d. map_of (dispatchers e) i = Some d \<longrightarrow> no_overflow thread d"
  shows "if ids = [] then wait_all e ids timeout thread = (Err STATUS_INVALID_PARAMETER, e)
    else if \<exists>i \<in> set ids. map_of (dispatchers e) i = None then wait_all e ids timeout thread = (Err STATUS_INVALID_HANDLE, e)
    else if \<forall>i \<in> set ids. satisfiable_object thread (the (map_of (dispatchers e) i))
    then \<exists>e'. wait_all e ids timeout thread = (Ok \<lparr>wr_index = 0, wr_abandoned = False, wr_status = STATUS_WAIT_0\<rparr>, e') \<and>
      map_of (dispatchers e') = (\<lambda>i. if i \<in> set ids then map_option (consume thread) (map_of (dispatchers e) i) else map_of (dispatchers e) i)
    else fst (wait_all e ids timeout thread) = Err STATUS_TIMEOUT \<and> dispatchers (snd (wait_all e ids timeout thread)) = dispatchers e"
proof (cases "ids = [] \<or> (\<exists>i \<in> set ids. map_of (dispatchers e) i = None)")
  case True
  then show ?thesis by (auto simp: wait_all_def list_ex_iff)
next
  case ok: False
  have inv: "ex_inv e" by (rule exec.reachable_inv [OF refl assms(1)])
  have pres: "\<forall>i \<in> set ids. map_of (dispatchers e) i \<noteq> None" using ok by auto
  then have known: "\<not> list_ex (\<lambda>i. map_of (dispatchers e) i = None) ids" by (simp add: list_ex_iff)
  note all = all_satisfiable_eq [OF pres, of thread]
  show ?thesis
  proof (cases "\<forall>i \<in> set ids. satisfiable_object thread (the (map_of (dispatchers e) i))")
    case True
    then have "\<forall>i \<in> set ids. \<exists>d. map_of (dispatchers e) i = Some d \<and> satisfiable_object thread d \<and> no_overflow thread d"
      using assms(3) pres by fastforce
    from acquire_all_spec [OF assms(2) this] obtain ds where ds: "acquire_all e ids thread = (Ok (), e\<lparr>dispatchers := ds\<rparr>)"
      "map_of ds = (\<lambda>i. if i \<in> set ids then map_option (consume thread) (map_of (dispatchers e) i) else map_of (dispatchers e) i)" by blast
    then show ?thesis using True ok known by (simp add: wait_all_def all)
  next
    case False
    then have "wait_all e ids timeout thread = time_out e timeout" using ok known by (auto simp: wait_all_def all)
    with False ok time_out_spec [OF inv, of timeout] show ?thesis by auto
  qed
qed

theorem wait_all_atomic_witness:
  "\<exists>e'. wait_all demo_ex4 [1, 2] 0 7 = (Ok \<lparr>wr_index = 0, wr_abandoned = False, wr_status = STATUS_WAIT_0\<rparr>, e') \<and>
     map_of (dispatchers e') 1 = Some (DSemaphore 0 1) \<and> map_of (dispatchers e') 2 = Some (DMutant (Some 7) 1 False)"
proof -
  have "\<forall>i \<in> set [1, 2]. \<forall>d. map_of (dispatchers demo_ex4) i = Some d \<longrightarrow> no_overflow 7 d" by (simp add: demo_ex_eqs)
  from wait_all_atomic [OF demo_ex_reachable(2) _ this, of 0] show ?thesis by (auto simp: demo_ex_eqs)
qed

text \<open>An abandoned mutant: a wait for any object reports it, a wait for all objects does not, and clears the mark.\<close>

theorem wait_all_hides_abandonment:
  assumes "map_of (dispatchers e) i = Some (DMutant None 0 True)"
  shows "fst (wait_any e [i] timeout thread) = Ok \<lparr>wr_index = 0, wr_abandoned = True, wr_status = STATUS_ABANDONED_WAIT_0\<rparr>"
    and "fst (wait_all e [i] timeout thread) = Ok \<lparr>wr_index = 0, wr_abandoned = False, wr_status = STATUS_WAIT_0\<rparr>"
    and "map_of (dispatchers (snd (wait_all e [i] timeout thread))) i = Some (DMutant (Some thread) 1 False)"
  using assms by (simp_all add: wait_any_def wait_all_def satisfiable_def try_acquire_def put_dispatcher_def)

text \<open>
  C32. A wait for all of a list of semaphores does not count repetitions. It succeeds as soon as each listed semaphore has one unit,
  however often it is listed; a semaphore then loses one unit for each time it is listed, or all of its units if it has fewer, and no other object changes.
  So a wait for more units than a semaphore has succeeds.
\<close>
theorem wait_all_duplicates_succeed:
  assumes "ids \<noteq> []" "\<forall>i \<in> set ids. \<exists>n limit. map_of (dispatchers e) i = Some (DSemaphore n limit) \<and> 0 < n"
  shows "\<exists>e'. wait_all e ids timeout thread = (Ok \<lparr>wr_index = 0, wr_abandoned = False, wr_status = STATUS_WAIT_0\<rparr>, e') \<and>
     map_of (dispatchers e') = (\<lambda>i. case map_of (dispatchers e) i of
         Some (DSemaphore n limit) \<Rightarrow> Some (DSemaphore (n - count_list ids i) limit)
       | d \<Rightarrow> d)"
proof -
  have pres: "\<forall>i \<in> set ids. map_of (dispatchers e) i \<noteq> None" using assms(2) by auto
  have "all_satisfiable e ids thread = Ok True" using assms(2) unfolding all_satisfiable_eq [OF pres] by fastforce
  moreover have "\<not> list_ex (\<lambda>i. map_of (dispatchers e) i = None) ids" using pres by (simp add: list_ex_iff)
  moreover obtain ds where "acquire_all e ids thread = (Ok (), e\<lparr>dispatchers := ds\<rparr>)" "map_of ds = drain (map_of (dispatchers e)) ids"
    using acquire_semaphores [of ids e thread] assms(2) by blast
  ultimately show ?thesis using assms(1) by (simp add: wait_all_def drain_def)
qed

theorem wait_all_duplicates_succeed_witness:
  "map_of (dispatchers demo_ex1) 1 = Some (DSemaphore 1 1) \<and>
   (\<exists>e'. wait_all demo_ex1 [1, 1] 0 7 = (Ok \<lparr>wr_index = 0, wr_abandoned = False, wr_status = STATUS_WAIT_0\<rparr>, e') \<and>
     map_of (dispatchers e') 1 = Some (DSemaphore 0 1))"
proof -
  have d: "map_of (dispatchers demo_ex1) 1 = Some (DSemaphore 1 1)" by (simp add: demo_ex_eqs)
  then have "\<forall>i \<in> set [1, 1]. \<exists>n limit. map_of (dispatchers demo_ex1) i = Some (DSemaphore n limit) \<and> 0 < n" by simp
  from wait_all_duplicates_succeed [OF _ this, of 0 7] d show ?thesis by auto
qed

text \<open>
  C33. The dispatcher objects of every reachable state are well formed: a semaphore never exceeds its limit, a mutant has an owner
  exactly when its recursion count is positive, and an owned mutant is not abandoned.
\<close>
theorem dispatchers_well_formed:
  assumes "ex_step\<^sup>*\<^sup>* (executive_new :: 'c executive) e" "map_of (dispatchers e) i = Some d"
  shows "case d of
      DSemaphore n limit \<Rightarrow> n \<le> limit \<and> 0 < limit
    | DMutant owner recursion abandoned \<Rightarrow> (owner = None \<longleftrightarrow> recursion = 0) \<and> recursion \<le> u32_max \<and> (owner \<noteq> None \<longrightarrow> \<not> abandoned)
    | _ \<Rightarrow> True"
proof -
  have "disp_ok d" using exec.reachable_inv [OF refl assms(1)] assms(2) by (auto simp: ex_inv_def intro: disps_ok_get)
  then show ?thesis by (cases d) auto
qed

theorem dispatchers_well_formed_witness:
  "map_of (dispatchers demo_ex1) 1 = Some (DSemaphore 1 1) \<and> (1 :: nat) \<le> 1 \<and> (0 :: nat) < 1"
  using dispatchers_well_formed [OF demo_ex_reachable(1), of 1 "DSemaphore 1 1"] by (simp add: demo_ex_eqs)

text \<open>
  C34. Advancing the clock fires exactly the active timers that are due at the new time, each once and in the order of their
  identifiers; afterwards no active timer is due, unless the clock is saturated, and a timer without a period is inactive.
\<close>
theorem timers_fire_exactly_once:
  assumes "ex_step\<^sup>*\<^sup>* (executive_new :: 'c executive) e" "0 < ticks"
    and "due = filter (\<lambda>(_, t). tm_active t \<and> tm_deadline t \<le> saturating_add64 (ex_clock e) ticks) (timers e)"
  shows "\<exists>e'. advance e ticks = (Ok (length due), e') \<and> fired e' = fired e @ map fst due \<and>
    ex_calls e' = ex_calls e @ map (tm_callback \<circ> snd) due \<and> ex_clock e' = saturating_add64 (ex_clock e) ticks \<and>
    (\<forall>i t. map_of (timers e') i = Some t \<longrightarrow> tm_active t \<longrightarrow> ex_clock e' < u64_max \<longrightarrow> ex_clock e' < tm_deadline t) \<and>
    (\<forall>i t. (i, t) \<in> set due \<longrightarrow> tm_period t = 0 \<longrightarrow> \<not> is_timer_active e' i)"
proof -
  have wf: "om_wf (timers e)" using exec.reachable_inv [OF refl assms(1)] by (auto simp: ex_inv_def fresh_ids_wf)
  let ?clk = "saturating_add64 (ex_clock e) ticks" and ?due = "due_timers (tick e ticks)"
  have due: "?due = map (\<lambda>(i, t). (i, tm_period t)) due" by (simp add: due_timers_def assms(3))
  have keys: "map fst ?due = map fst due" unfolding due by (simp add: case_prod_beta)
  have len: "length ?due = length due" unfolding due by simp
  have get: "map_of (timers e) i = Some t" if "(i, t) \<in> set due" for i t
    using that om_get_iff [OF wf] unfolding assms(3) by auto
  have cb: "map (\<lambda>(i, _). tm_callback (the (map_of (timers e) i))) ?due = map (tm_callback \<circ> snd) due"
    unfolding due using get by (force intro!: map_cong)
  obtain ts where ts: "advance e ticks = (Ok (length due), (tick e ticks)\<lparr>timers := ts, fired := fired e @ map fst due,
      ex_calls := ex_calls e @ map (tm_callback \<circ> snd) due\<rparr>)"
    "map_of ts = (\<lambda>i. if i \<in> fst ` set ?due then map_option (rearm ?clk) (map_of (timers e) i) else map_of (timers e) i)"
    using advance_spec [OF wf assms(2)] unfolding keys cb len tick_fields by blast
  have mem: "i \<in> fst ` set ?due \<longleftrightarrow> (\<exists>t. map_of (timers e) i = Some t \<and> tm_active t \<and> tm_deadline t \<le> ?clk)" for i
    using due_timers_ok(3) [of "tick e ticks" i] wf by simp
  have later: "?clk < tm_deadline t" if "map_of ts i = Some t" "tm_active t" "?clk < u64_max" for i t
    using that mem [of i] unfolding ts(2) by (auto simp: rearm_def saturating_add64_def split: if_splits)
  have off: "map_option tm_active (map_of ts i) = Some False" if "(i, t) \<in> set due" "tm_period t = 0" for i t
  proof -
    have "i \<in> fst ` set ?due" unfolding due using that(1) by force
    then show ?thesis using get [OF that(1)] that(2) unfolding ts(2) by (simp add: rearm_def)
  qed
  have "\<not> is_timer_active ((tick e ticks)\<lparr>timers := ts, fired := fired e @ map fst due, ex_calls := ex_calls e @ map (tm_callback \<circ> snd) due\<rparr>) i"
    if "(i, t) \<in> set due" "tm_period t = 0" for i t
    using off [OF that] by (auto simp: is_timer_active_def)
  with later show ?thesis unfolding ts(1) by auto
qed

theorem timers_fire_exactly_once_witness:
  "\<exists>e'. advance demo_ex4 5 = (Ok 2, e') \<and> fired e' = [1, 2] \<and> ex_calls e' = [70, 71]"
  using timers_fire_exactly_once [OF demo_ex_reachable(2), of 5, OF _ refl]
  by (auto simp: demo_ex_eqs saturating_add64_def u64_max_def)

end
