(* ===== verification/Io_Irp.thy ===== *)
theory Io_Irp
  imports Status
begin

text \<open>
  The requests of the I/O manager, \<open>src/src/casak/io.rs\<close> up to its run of the completion routines: function codes, device
  flags, extension bytes, parameter blocks and the shared core of I/O request packets (IRPs) with one pending queue per
  device. A completion routine is a closure with a state of its own: a value of the type \<open>'c\<close> together with the
  parameter \<open>call\<close>, which gives the status it returns and its next state. Each operation of the core holds
  the core's lock throughout, so it is one atomic step; cancelling the requests of a device is a step that takes the queue followed by
  one step per request. Identifiers and counters are unbounded; lengths and offsets are \<open>usize\<close>, checked against 64 bits.
\<close>

definition STATUS_INVALID_BUFFER_SIZE :: nt_status where "STATUS_INVALID_BUFFER_SIZE = 0x80000006"
definition STATUS_DATATYPE_MISALIGNMENT :: nt_status where "STATUS_DATATYPE_MISALIGNMENT = 0x80000002"
definition STATUS_DEVICE_ALREADY_ATTACHED :: nt_status where "STATUS_DEVICE_ALREADY_ATTACHED = 0xC0000100"

section \<open>Function codes and flags\<close>

datatype irp_major = MjCreate | MjClose | MjRead | MjWrite | MjQueryInformation | MjSetInformation | MjFileSystemControl
  | MjDeviceControl | MjPower | MjCleanup | MjShutdown | MjPnp

definition irp_major_all :: "irp_major list" where
  "irp_major_all = [MjCreate, MjClose, MjRead, MjWrite, MjQueryInformation, MjSetInformation, MjFileSystemControl,
     MjDeviceControl, MjPower, MjCleanup, MjShutdown, MjPnp]"

fun irp_major_code :: "irp_major \<Rightarrow> u8" where
  "irp_major_code MjCreate = 0x00"
| "irp_major_code MjClose = 0x02"
| "irp_major_code MjRead = 0x03"
| "irp_major_code MjWrite = 0x04"
| "irp_major_code MjQueryInformation = 0x05"
| "irp_major_code MjSetInformation = 0x06"
| "irp_major_code MjFileSystemControl = 0x0D"
| "irp_major_code MjDeviceControl = 0x0E"
| "irp_major_code MjShutdown = 0x10"
| "irp_major_code MjCleanup = 0x12"
| "irp_major_code MjPower = 0x16"
| "irp_major_code MjPnp = 0x1B"

fun irp_major_name :: "irp_major \<Rightarrow> string" where
  "irp_major_name MjCreate = ''IRP_MJ_CREATE''"
| "irp_major_name MjClose = ''IRP_MJ_CLOSE''"
| "irp_major_name MjRead = ''IRP_MJ_READ''"
| "irp_major_name MjWrite = ''IRP_MJ_WRITE''"
| "irp_major_name MjQueryInformation = ''IRP_MJ_QUERY_INFORMATION''"
| "irp_major_name MjSetInformation = ''IRP_MJ_SET_INFORMATION''"
| "irp_major_name MjFileSystemControl = ''IRP_MJ_FILE_SYSTEM_CONTROL''"
| "irp_major_name MjDeviceControl = ''IRP_MJ_DEVICE_CONTROL''"
| "irp_major_name MjPower = ''IRP_MJ_POWER''"
| "irp_major_name MjCleanup = ''IRP_MJ_CLEANUP''"
| "irp_major_name MjShutdown = ''IRP_MJ_SHUTDOWN''"
| "irp_major_name MjPnp = ''IRP_MJ_PNP''"

type_synonym device_flags = u32

definition flags_contains :: "device_flags \<Rightarrow> device_flags \<Rightarrow> bool" where
  "flags_contains fs f \<longleftrightarrow> fs AND f = f"

definition flags_insert :: "device_flags \<Rightarrow> device_flags \<Rightarrow> device_flags" where
  "flags_insert fs f = fs OR f"

definition flags_remove :: "device_flags \<Rightarrow> device_flags \<Rightarrow> device_flags" where
  "flags_remove fs f = fs AND NOT f"

section \<open>Byte buffers\<close>

text \<open>\<open>get(offset..end)\<close> and \<open>copy_from_slice\<close> into it.\<close>

definition slice :: "u8 list \<Rightarrow> nat \<Rightarrow> nat \<Rightarrow> u8 list option" where
  "slice bytes start stop = (if start \<le> stop \<and> stop \<le> length bytes then Some (take (stop - start) (drop start bytes)) else None)"

definition overwrite :: "u8 list \<Rightarrow> nat \<Rightarrow> u8 list \<Rightarrow> u8 list" where
  "overwrite bytes start data = take start bytes @ data @ drop (start + length data) bytes"

type_synonym device_extension = "u8 list"

definition extension_read :: "device_extension \<Rightarrow> nat \<Rightarrow> nat \<Rightarrow> u8 list res" where
  "extension_read bytes start len = rbind (ok_or (checked_add64 start len) STATUS_INVALID_ADDRESS) (\<lambda>stop.
     ok_or (slice bytes start stop) STATUS_INVALID_ADDRESS)"

definition extension_write :: "device_extension \<Rightarrow> nat \<Rightarrow> u8 list \<Rightarrow> unit res \<times> device_extension" where
  "extension_write bytes start data = attempt (ok_or (checked_add64 start (length data)) STATUS_INVALID_ADDRESS) bytes (\<lambda>stop.
     attempt (ok_or (slice bytes start stop) STATUS_INVALID_ADDRESS) bytes (\<lambda>_. (Ok (), overwrite bytes start data)))"

record irp_parameter_block =
  pb_major :: irp_major
  pb_minor :: u8
  pb_system_buffer :: "u8 list"
  pb_length :: nat
  pb_user_address :: nat
  pb_required_alignment :: nat

definition parameter_block_new :: "irp_major \<Rightarrow> u8 \<Rightarrow> nat \<Rightarrow> irp_parameter_block" where
  "parameter_block_new major minor len = \<lparr>pb_major = major, pb_minor = minor, pb_system_buffer = replicate len 0, pb_length = len,
     pb_user_address = 0, pb_required_alignment = 0\<rparr>"

fun is_power_of_two :: "nat \<Rightarrow> bool" where
  "is_power_of_two n = (if n = 0 then False else if n = 1 then True else even n \<and> is_power_of_two (n div 2))"

declare is_power_of_two.simps [simp del]

definition block_validate :: "irp_parameter_block \<Rightarrow> unit res" where
  "block_validate b =
     (if pb_required_alignment b \<noteq> 0 \<and> \<not> is_power_of_two (pb_required_alignment b) then Err STATUS_INVALID_PARAMETER
      else if pb_length b > length (pb_system_buffer b) then Err STATUS_INVALID_BUFFER_SIZE
      else if pb_user_address b \<noteq> 0 \<and> pb_required_alignment b > 1 \<and> pb_user_address b mod pb_required_alignment b \<noteq> 0
      then Err STATUS_DATATYPE_MISALIGNMENT
      else Ok ())"

definition block_read :: "irp_parameter_block \<Rightarrow> nat \<Rightarrow> nat \<Rightarrow> u8 list res" where
  "block_read b start len = rbind (ok_or (checked_add64 start len) STATUS_INVALID_PARAMETER) (\<lambda>stop.
     if stop > pb_length b then Err STATUS_INVALID_BUFFER_SIZE
     else ok_or (slice (pb_system_buffer b) start stop) STATUS_INVALID_PARAMETER)"

definition block_write :: "irp_parameter_block \<Rightarrow> nat \<Rightarrow> u8 list \<Rightarrow> unit res \<times> irp_parameter_block" where
  "block_write b start data = attempt (ok_or (checked_add64 start (length data)) STATUS_INVALID_PARAMETER) b (\<lambda>stop.
     if stop > pb_length b then (Err STATUS_INVALID_BUFFER_SIZE, b)
     else attempt (ok_or (slice (pb_system_buffer b) start stop) STATUS_INVALID_PARAMETER) b (\<lambda>_.
       (Ok (), b\<lparr>pb_system_buffer := overwrite (pb_system_buffer b) start data\<rparr>)))"

section \<open>Requests\<close>

datatype stack_parameters = SpNone | SpReadWrite nat nat | SpDeviceControl u32 nat nat nat | SpCreate u32 u32 | SpClose

record irp_completion =
  ic_irp :: nat
  ic_device :: nat
  ic_status :: nt_status
  ic_information :: nat

type_synonym 'c completion_call = "'c \<Rightarrow> irp_completion \<Rightarrow> nt_status \<times> 'c"

record 'c io_stack_location =
  sl_device :: nat
  sl_major :: irp_major
  sl_minor :: u8
  sl_parameters :: stack_parameters
  sl_completion :: "'c option"

record stack_location_view =
  sv_device :: nat
  sv_major :: irp_major
  sv_minor :: u8
  sv_parameters :: stack_parameters
  sv_has_completion_routine :: bool

definition location_view :: "'c io_stack_location \<Rightarrow> stack_location_view" where
  "location_view l = \<lparr>sv_device = sl_device l, sv_major = sl_major l, sv_minor = sl_minor l, sv_parameters = sl_parameters l,
     sv_has_completion_routine = (sl_completion l \<noteq> None)\<rparr>"

record 'c irp =
  ir_parameters :: irp_parameter_block
  ir_stack :: "'c io_stack_location list"
  ir_status :: nt_status
  ir_information :: nat
  ir_pending :: bool
  ir_pending_device :: "nat option"
  ir_cancelled :: bool
  ir_completed :: bool

record 'c irp_core =
  irps :: "(nat, 'c irp) omap"
  irp_queues :: "(nat, nat list) omap"
  next_irp :: nat
  irps_completed :: nat
  irps_cancelled :: nat

definition irp_core_new :: "'c irp_core" where
  "irp_core_new = \<lparr>irps = [], irp_queues = [], next_irp = 1, irps_completed = 0, irps_cancelled = 0\<rparr>"

definition irp_insert :: "'c irp_core \<Rightarrow> irp_parameter_block \<Rightarrow> 'c io_stack_location list \<Rightarrow> nat \<times> 'c irp_core" where
  "irp_insert s parameters stack =
     (next_irp s, s\<lparr>next_irp := next_irp s + 1, irps := om_insert (next_irp s) \<lparr>ir_parameters = parameters, ir_stack = stack,
        ir_status = STATUS_PENDING, ir_information = 0, ir_pending = False, ir_pending_device = None, ir_cancelled = False,
        ir_completed = False\<rparr> (irps s)\<rparr>)"

definition with_irp :: "'c irp_core \<Rightarrow> nat \<Rightarrow> ('c irp \<Rightarrow> 't) \<Rightarrow> 't res" where
  "with_irp s i read = rbind (ok_or (map_of (irps s) i) STATUS_INVALID_HANDLE) (\<lambda>r. Ok (read r))"

definition irp_status :: "'c irp_core \<Rightarrow> nat \<Rightarrow> nt_status res" where "irp_status s i = with_irp s i ir_status"

definition irp_information :: "'c irp_core \<Rightarrow> nat \<Rightarrow> nat res" where "irp_information s i = with_irp s i ir_information"

definition irp_parameters :: "'c irp_core \<Rightarrow> nat \<Rightarrow> irp_parameter_block res" where "irp_parameters s i = with_irp s i ir_parameters"

definition irp_stack_view :: "'c irp_core \<Rightarrow> nat \<Rightarrow> stack_location_view list res" where
  "irp_stack_view s i = with_irp s i (\<lambda>r. map location_view (ir_stack r))"

definition irp_is_pending :: "'c irp_core \<Rightarrow> nat \<Rightarrow> bool res" where "irp_is_pending s i = with_irp s i ir_pending"

definition irp_is_completed :: "'c irp_core \<Rightarrow> nat \<Rightarrow> bool res" where "irp_is_completed s i = with_irp s i ir_completed"

definition irp_is_cancelled :: "'c irp_core \<Rightarrow> nat \<Rightarrow> bool res" where "irp_is_cancelled s i = with_irp s i ir_cancelled"

definition irp_pending_device :: "'c irp_core \<Rightarrow> nat \<Rightarrow> nat option res" where "irp_pending_device s i = with_irp s i ir_pending_device"

definition queue_of :: "'c irp_core \<Rightarrow> nat \<Rightarrow> nat list" where
  "queue_of s d = (case map_of (irp_queues s) d of None \<Rightarrow> [] | Some q \<Rightarrow> q)"

definition irp_pending_count :: "'c irp_core \<Rightarrow> nat" where
  "irp_pending_count s = om_sum (\<lambda>_ q. length q) (irp_queues s)"

definition irp_queue :: "'c irp_core \<Rightarrow> nat \<Rightarrow> nat \<Rightarrow> unit res \<times> 'c irp_core" where
  "irp_queue s d i = attempt (ok_or (map_of (irps s) i) STATUS_INVALID_HANDLE) s (\<lambda>r.
     if ir_completed r then (Err STATUS_UNSUCCESSFUL, s)
     else if ir_pending r then (Err STATUS_INVALID_DEVICE_REQUEST, s)
     else if \<not> list_ex (\<lambda>l. sl_device l = d) (ir_stack r) then (Err STATUS_INVALID_PARAMETER, s)
     else (Ok (), s\<lparr>irp_queues := om_insert d (queue_of s d @ [i]) (irp_queues s),
            irps := om_insert i (r\<lparr>ir_pending := True, ir_pending_device := Some d, ir_status := STATUS_PENDING\<rparr>) (irps s)\<rparr>))"

fun completion_walk :: "'c completion_call \<Rightarrow> nat \<Rightarrow> nat \<Rightarrow> nt_status \<Rightarrow> 'c io_stack_location list \<Rightarrow>
    nt_status \<times> bool \<times> 'c io_stack_location list" where
  "completion_walk call i information status [] = (status, False, [])"
| "completion_walk call i information status (l # ls) =
     (case sl_completion l of
        None \<Rightarrow> (case completion_walk call i information status ls of (st, stalled, ls') \<Rightarrow> (st, stalled, l # ls'))
      | Some routine \<Rightarrow>
          (case call routine \<lparr>ic_irp = i, ic_device = sl_device l, ic_status = status, ic_information = information\<rparr> of
             (next, routine') \<Rightarrow>
               let l' = l\<lparr>sl_completion := Some routine'\<rparr>
               in if next = STATUS_MORE_PROCESSING_REQUIRED then (next, True, l' # ls)
                  else (case completion_walk call i information next ls of (st, stalled, ls') \<Rightarrow> (st, stalled, l' # ls'))))"

definition run_completion :: "'c completion_call \<Rightarrow> 'c irp_core \<Rightarrow> nat \<Rightarrow> nt_status option \<times> 'c irp_core" where
  "run_completion call s i = (case map_of (irps s) i of
      None \<Rightarrow> (None, s)
    | Some r \<Rightarrow>
        (case completion_walk call i (ir_information r) (ir_status r) (ir_stack r) of (st, stalled, stack) \<Rightarrow>
          (if stalled then None else Some st,
           s\<lparr>irps := om_insert i (r\<lparr>ir_stack := stack, ir_status := st, ir_completed := \<not> stalled, ir_pending := stalled,
               ir_pending_device := None\<rparr>) (irps s)\<rparr>)))"

text \<open>\<open>queue.retain(|queued| queued != irp)\<close> on the queue that held the request.\<close>

definition unqueue :: "'c irp_core \<Rightarrow> nat option \<Rightarrow> nat \<Rightarrow> 'c irp_core" where
  "unqueue s device i = (case device of None \<Rightarrow> s
     | Some d \<Rightarrow> s\<lparr>irp_queues := om_update d (filter (\<lambda>q. q \<noteq> i)) (irp_queues s)\<rparr>)"

definition irp_complete :: "'c completion_call \<Rightarrow> 'c irp_core \<Rightarrow> nat \<Rightarrow> nt_status \<Rightarrow> nat \<Rightarrow> nt_status res \<times> 'c irp_core" where
  "irp_complete call s i status information = attempt (ok_or (map_of (irps s) i) STATUS_INVALID_HANDLE) s (\<lambda>r.
     if ir_completed r then (Err STATUS_UNSUCCESSFUL, s)
     else let s1 = s\<lparr>irps := om_insert i (r\<lparr>ir_pending_device := None, ir_pending := False, ir_status := status,
                      ir_information := information, ir_cancelled := False\<rparr>) (irps s)\<rparr>;
              s2 = unqueue s1 (ir_pending_device r) i
          in case run_completion call s2 i of
               (Some final, s3) \<Rightarrow> (Ok final, s3\<lparr>irps_completed := irps_completed s3 + 1\<rparr>)
             | (None, s3) \<Rightarrow> (Ok STATUS_MORE_PROCESSING_REQUIRED, s3))"

definition irp_cancel :: "'c completion_call \<Rightarrow> 'c irp_core \<Rightarrow> nat \<Rightarrow> nt_status res \<times> 'c irp_core" where
  "irp_cancel call s i = attempt (ok_or (map_of (irps s) i) STATUS_INVALID_HANDLE) s (\<lambda>r.
     if ir_completed r then (Err STATUS_UNSUCCESSFUL, s)
     else let s1 = s\<lparr>irps := om_insert i (r\<lparr>ir_pending_device := None, ir_pending := False, ir_cancelled := True,
                      ir_status := STATUS_CANCELLED\<rparr>) (irps s)\<rparr>;
              s2 = unqueue s1 (ir_pending_device r) i;
              (final, s4) = (case run_completion call s2 i of
                 (Some status, s3) \<Rightarrow> (status, s3)
               | (None, s3) \<Rightarrow> (STATUS_CANCELLED, s3\<lparr>irps := om_update i (\<lambda>r. r\<lparr>ir_cancelled := True, ir_status := STATUS_CANCELLED,
                     ir_pending := False, ir_pending_device := None, ir_completed := True\<rparr>) (irps s3)\<rparr>))
          in (Ok final, s4\<lparr>irps_cancelled := irps_cancelled s4 + 1, irps_completed := irps_completed s4 + 1\<rparr>))"

text \<open>A change of the first location of the device.\<close>

fun update_location :: "nat \<Rightarrow> ('c io_stack_location \<Rightarrow> 'c io_stack_location) \<Rightarrow> 'c io_stack_location list \<Rightarrow> 'c io_stack_location list option" where
  "update_location d f [] = None"
| "update_location d f (l # ls) = (if sl_device l = d then Some (f l # ls) else map_option (Cons l) (update_location d f ls))"

definition set_completion_routine :: "'c irp_core \<Rightarrow> nat \<Rightarrow> nat \<Rightarrow> 'c \<Rightarrow> unit res \<times> 'c irp_core" where
  "set_completion_routine s i d routine = attempt (ok_or (map_of (irps s) i) STATUS_INVALID_HANDLE) s (\<lambda>r.
     if ir_completed r then (Err STATUS_UNSUCCESSFUL, s)
     else attempt (ok_or (update_location d (\<lambda>l. l\<lparr>sl_completion := Some routine\<rparr>) (ir_stack r)) STATUS_NOT_FOUND) s (\<lambda>stack.
       (Ok (), s\<lparr>irps := om_insert i (r\<lparr>ir_stack := stack\<rparr>) (irps s)\<rparr>)))"

definition set_stack_parameters :: "'c irp_core \<Rightarrow> nat \<Rightarrow> nat \<Rightarrow> stack_parameters \<Rightarrow> unit res \<times> 'c irp_core" where
  "set_stack_parameters s i d parameters = attempt (ok_or (map_of (irps s) i) STATUS_INVALID_HANDLE) s (\<lambda>r.
     attempt (ok_or (update_location d (\<lambda>l. l\<lparr>sl_parameters := parameters\<rparr>) (ir_stack r)) STATUS_NOT_FOUND) s (\<lambda>stack.
       (Ok (), s\<lparr>irps := om_insert i (r\<lparr>ir_stack := stack\<rparr>) (irps s)\<rparr>)))"

definition take_queue :: "'c irp_core \<Rightarrow> nat \<Rightarrow> nat list \<times> 'c irp_core" where
  "take_queue s d = (queue_of s d, s\<lparr>irp_queues := om_remove d (irp_queues s)\<rparr>)"

definition cancel_pending_for_device :: "'c completion_call \<Rightarrow> 'c irp_core \<Rightarrow> nat \<Rightarrow> nat list \<times> 'c irp_core" where
  "cancel_pending_for_device call s d = (case take_queue s d of (pending, s1) \<Rightarrow>
     (pending, fold (\<lambda>i s. snd (irp_cancel call s i)) pending s1))"


section \<open>Steps\<close>

text \<open>The atomic steps of the threads that share a core.\<close>

inductive irp_step :: "'c completion_call \<Rightarrow> 'c irp_core \<Rightarrow> 'c irp_core \<Rightarrow> bool" for call where
  "irp_step call s (snd (irp_insert s parameters stack))"
| "irp_step call s (snd (irp_queue s d i))"
| "irp_step call s (snd (irp_complete call s i status information))"
| "irp_step call s (snd (irp_cancel call s i))"
| "irp_step call s (snd (set_completion_routine s i d routine))"
| "irp_step call s (snd (set_stack_parameters s i d parameters'))"
| "irp_step call s (snd (take_queue s d))"

section \<open>Invariant\<close>

definition irp_ok :: "'c irp \<Rightarrow> bool" where
  "irp_ok r \<longleftrightarrow> (ir_cancelled r \<longrightarrow> ir_completed r) \<and> (ir_completed r \<longrightarrow> \<not> ir_pending r) \<and> (ir_pending_device r \<noteq> None \<longrightarrow> ir_pending r)"

definition irp_tally :: "('c irp \<Rightarrow> bool) \<Rightarrow> (nat, 'c irp) omap \<Rightarrow> nat" where
  "irp_tally P m = om_sum (\<lambda>_ r. if P r then 1 else 0) m"

definition queues_ok :: "(nat, 'c irp) omap \<Rightarrow> (nat, nat list) omap \<Rightarrow> bool" where
  "queues_ok m qs \<longleftrightarrow> om_wf qs \<and> (\<forall>d q. map_of qs d = Some q \<longrightarrow> distinct q \<and>
     (\<forall>i \<in> set q. \<exists>r. map_of m i = Some r \<and> ir_pending_device r = Some d))"

definition irp_inv :: "'c irp_core \<Rightarrow> bool" where
  "irp_inv s \<longleftrightarrow> fresh_ids (irps s) (next_irp s) \<and> (\<forall>i r. map_of (irps s) i = Some r \<longrightarrow> irp_ok r) \<and>
     queues_ok (irps s) (irp_queues s) \<and> irps_completed s = irp_tally ir_completed (irps s) \<and>
     irps_cancelled s = irp_tally ir_cancelled (irps s)"

lemma irp_inv_dest:
  assumes "irp_inv s"
  shows "fresh_ids (irps s) (next_irp s)" "map_of (irps s) i = Some r \<Longrightarrow> irp_ok r" "queues_ok (irps s) (irp_queues s)"
    "irps_completed s = irp_tally ir_completed (irps s)" "irps_cancelled s = irp_tally ir_cancelled (irps s)"
  using assms unfolding irp_inv_def by blast+

lemma irp_tally_put:
  assumes "om_wf m" "map_of m i = Some r"
  shows "irp_tally P (om_insert i r' m) + (if P r then 1 else 0) = irp_tally P m + (if P r' then 1 else 0)"
  unfolding irp_tally_def using om_sum_insert_present [OF assms, of "\<lambda>_ r. if P r then 1 else 0" r'] by simp

definition unqueued :: "nat option \<Rightarrow> nat \<Rightarrow> (nat, nat list) omap \<Rightarrow> (nat, nat list) omap" where
  "unqueued device i qs = (case device of None \<Rightarrow> qs | Some d \<Rightarrow> om_update d (filter (\<lambda>q. q \<noteq> i)) qs)"

lemma queues_ok_put:
  assumes q: "queues_ok m qs" and r: "map_of m i = Some r"
  shows "queues_ok (om_insert i r' m) (unqueued (ir_pending_device r) i qs)"
proof -
  have wf: "om_wf (unqueued (ir_pending_device r) i qs)" using q by (auto simp: queues_ok_def unqueued_def split: option.split)
  have "distinct q' \<and> (\<forall>j \<in> set q'. \<exists>r''. map_of (om_insert i r' m) j = Some r'' \<and> ir_pending_device r'' = Some d)"
    if q': "map_of (unqueued (ir_pending_device r) i qs) d = Some q'" for d q'
  proof -
    obtain q0 where q0: "map_of qs d = Some q0" "q' = (if ir_pending_device r = Some d then filter (\<lambda>j. j \<noteq> i) q0 else q0)"
      using q' by (auto simp: unqueued_def split: option.splits if_splits)
    have old: "distinct q0" "\<forall>j \<in> set q0. \<exists>r. map_of m j = Some r \<and> ir_pending_device r = Some d"
      using q q0(1) unfolding queues_ok_def by blast+
    have "i \<notin> set q'" using q0(2) old(2) r by auto
    then show ?thesis using old q0(2) by auto
  qed
  with wf show ?thesis unfolding queues_ok_def by blast
qed

lemma queues_okD:
  "queues_ok m qs \<Longrightarrow> map_of qs d = Some q \<Longrightarrow> distinct q"
  "queues_ok m qs \<Longrightarrow> map_of qs d = Some q \<Longrightarrow> i \<in> set q \<Longrightarrow> \<exists>r. map_of m i = Some r \<and> ir_pending_device r = Some d"
  unfolding queues_ok_def by blast+

lemma queues_ok_remove: "queues_ok m qs \<Longrightarrow> queues_ok m (om_remove d qs)"
proof -
  assume q: "queues_ok m qs"
  have "map_of qs e = Some q" if "map_of (om_remove d qs) e = Some q" for e q using that by (simp split: if_splits)
  with q show ?thesis unfolding queues_ok_def by (metis om_wf_remove)
qed

lemma queues_ok_mono:
  assumes "queues_ok m qs" "\<And>i r d. map_of m i = Some r \<Longrightarrow> ir_pending_device r = Some d \<Longrightarrow>
    \<exists>r'. map_of m' i = Some r' \<and> ir_pending_device r' = Some d"
  shows "queues_ok m' qs"
  using assms unfolding queues_ok_def by meson

text \<open>A request is replaced, taken off its queue, and counted.\<close>

lemma irp_inv_put:
  assumes inv: "irp_inv s" and r: "map_of (irps s) i = Some r" and ok: "irp_ok r'"
    and qs: "qs = unqueued (ir_pending_device r) i (irp_queues s)"
    and c: "c + (if ir_completed r then 1 else 0) = irps_completed s + (if ir_completed r' then 1 else 0)"
    and k: "k + (if ir_cancelled r then 1 else 0) = irps_cancelled s + (if ir_cancelled r' then 1 else 0)"
  shows "irp_inv (s\<lparr>irps := om_insert i r' (irps s), irp_queues := qs, irps_completed := c, irps_cancelled := k\<rparr>)"
proof -
  note d = irp_inv_dest [OF inv]
  note tally = irp_tally_put [OF fresh_ids_wf [OF d(1)] r, of _ r']
  have "fresh_ids (om_insert i r' (irps s)) (next_irp s)" using d(1) r by (rule fresh_ids_update)
  moreover have "\<forall>j r. map_of (om_insert i r' (irps s)) j = Some r \<longrightarrow> irp_ok r" using ok d(2) by simp
  moreover have "queues_ok (om_insert i r' (irps s)) qs" unfolding qs by (rule queues_ok_put [OF d(3) r])
  moreover have "c = irp_tally ir_completed (om_insert i r' (irps s))" "k = irp_tally ir_cancelled (om_insert i r' (irps s))"
    using tally [of ir_completed] tally [of ir_cancelled] c k d(4,5) by simp_all
  ultimately show ?thesis unfolding irp_inv_def by simp
qed

lemma run_completion_eq:
  assumes "map_of (irps s) i = Some r" "completion_walk call i (ir_information r) (ir_status r) (ir_stack r) = (st, stalled, stack)"
  shows "run_completion call s i = (if stalled then None else Some st,
    s\<lparr>irps := om_insert i (r\<lparr>ir_stack := stack, ir_status := st, ir_completed := \<not> stalled, ir_pending := stalled, ir_pending_device := None\<rparr>) (irps s)\<rparr>)"
  using assms by (simp add: run_completion_def)

lemma unqueue_eq: "unqueue s device i = s\<lparr>irp_queues := unqueued device i (irp_queues s)\<rparr>"
  by (cases device) (simp_all add: unqueue_def unqueued_def)

text \<open>Completing and cancelling a request that is not completed, in closed form.\<close>

lemma irp_complete_eq:
  assumes "map_of (irps s) i = Some r" "\<not> ir_completed r" "completion_walk call i information status (ir_stack r) = (st, stalled, stack)"
  shows "irp_complete call s i status information = (Ok (if stalled then STATUS_MORE_PROCESSING_REQUIRED else st),
    s\<lparr>irps := om_insert i (r\<lparr>ir_information := information, ir_cancelled := False, ir_stack := stack, ir_status := st,
        ir_completed := \<not> stalled, ir_pending := stalled, ir_pending_device := None\<rparr>) (irps s),
      irp_queues := unqueued (ir_pending_device r) i (irp_queues s),
      irps_completed := irps_completed s + (if stalled then 0 else 1)\<rparr>)"
proof -
  let ?r = "r\<lparr>ir_pending_device := None, ir_pending := False, ir_status := status, ir_information := information, ir_cancelled := False\<rparr>"
  let ?s = "s\<lparr>irps := om_insert i ?r (irps s), irp_queues := unqueued (ir_pending_device r) i (irp_queues s)\<rparr>"
  have "map_of (irps ?s) i = Some ?r" by simp
  from run_completion_eq [OF this, of call st stalled stack] assms show ?thesis
    by (simp add: irp_complete_def unqueue_eq Let_def)
qed

lemma irp_cancel_eq:
  assumes "map_of (irps s) i = Some r" "\<not> ir_completed r"
    "completion_walk call i (ir_information r) STATUS_CANCELLED (ir_stack r) = (st, stalled, stack)"
  shows "irp_cancel call s i = (Ok (if stalled then STATUS_CANCELLED else st),
    s\<lparr>irps := om_insert i (r\<lparr>ir_cancelled := True, ir_stack := stack, ir_status := (if stalled then STATUS_CANCELLED else st),
        ir_completed := True, ir_pending := False, ir_pending_device := None\<rparr>) (irps s),
      irp_queues := unqueued (ir_pending_device r) i (irp_queues s),
      irps_completed := irps_completed s + 1, irps_cancelled := irps_cancelled s + 1\<rparr>)"
proof -
  let ?r = "r\<lparr>ir_pending_device := None, ir_pending := False, ir_cancelled := True, ir_status := STATUS_CANCELLED\<rparr>"
  let ?s = "s\<lparr>irps := om_insert i ?r (irps s), irp_queues := unqueued (ir_pending_device r) i (irp_queues s)\<rparr>"
  have "map_of (irps ?s) i = Some ?r" by simp
  from run_completion_eq [OF this, of call st stalled stack] assms show ?thesis
    by (cases stalled; cases s; cases r) (simp_all add: irp_cancel_def unqueue_eq om_update_def)
qed


lemma irp_complete_inv: assumes inv: "irp_inv s" shows "irp_inv (snd (irp_complete call s i status information))"
proof (cases "map_of (irps s) i")
  case (Some r)
  show ?thesis
  proof (cases "ir_completed r")
    case False
    obtain st stalled stack where w: "completion_walk call i information status (ir_stack r) = (st, stalled, stack)"
      by (cases "completion_walk call i information status (ir_stack r)")
    let ?r = "r\<lparr>ir_information := information, ir_cancelled := False, ir_stack := stack, ir_status := st,
        ir_completed := \<not> stalled, ir_pending := stalled, ir_pending_device := None\<rparr>"
    have "\<not> ir_cancelled r" using False irp_inv_dest(2) [OF inv Some] by (simp add: irp_ok_def)
    with False have "irp_inv (s\<lparr>irps := om_insert i ?r (irps s), irp_queues := unqueued (ir_pending_device r) i (irp_queues s),
        irps_completed := irps_completed s + (if stalled then 0 else 1), irps_cancelled := irps_cancelled s\<rparr>)"
      by (intro irp_inv_put [OF inv Some]) (simp_all add: irp_ok_def)
    then show ?thesis unfolding irp_complete_eq [OF Some False w] by simp
  qed (use inv Some in \<open>simp add: irp_complete_def\<close>)
qed (use inv in \<open>simp add: irp_complete_def\<close>)

lemma irp_cancel_inv: assumes inv: "irp_inv s" shows "irp_inv (snd (irp_cancel call s i))"
proof (cases "map_of (irps s) i")
  case (Some r)
  show ?thesis
  proof (cases "ir_completed r")
    case False
    obtain st stalled stack where w: "completion_walk call i (ir_information r) STATUS_CANCELLED (ir_stack r) = (st, stalled, stack)"
      by (cases "completion_walk call i (ir_information r) STATUS_CANCELLED (ir_stack r)")
    have "\<not> ir_cancelled r" using False irp_inv_dest(2) [OF inv Some] by (simp add: irp_ok_def)
    with False show ?thesis unfolding irp_cancel_eq [OF Some False w] snd_conv
      by (intro irp_inv_put [OF inv Some]) (simp_all add: irp_ok_def)
  qed (use inv Some in \<open>simp add: irp_cancel_def\<close>)
qed (use inv in \<open>simp add: irp_cancel_def\<close>)

lemma irp_queue_inv: assumes inv: "irp_inv s" shows "irp_inv (snd (irp_queue s d i))"
proof (cases "map_of (irps s) i")
  case (Some r)
  show ?thesis
  proof (cases "ir_completed r \<or> ir_pending r \<or> \<not> list_ex (\<lambda>l. sl_device l = d) (ir_stack r)")
    case False
    note dd = irp_inv_dest [OF inv]
    let ?r = "r\<lparr>ir_pending := True, ir_pending_device := Some d, ir_status := STATUS_PENDING\<rparr>"
    have ok: "irp_ok r" by (rule dd(2) [OF Some])
    then have nd: "ir_pending_device r = None" using False by (auto simp: irp_ok_def)
    have "irp_inv (s\<lparr>irps := om_insert i ?r (irps s), irp_queues := unqueued (ir_pending_device r) i (irp_queues s),
        irps_completed := irps_completed s, irps_cancelled := irps_cancelled s\<rparr>)"
      by (rule irp_inv_put [OF inv Some _ refl]) (use ok False in \<open>simp_all add: irp_ok_def\<close>)
    then have put: "irp_inv (s\<lparr>irps := om_insert i ?r (irps s)\<rparr>)" by (simp add: nd unqueued_def)
    note q = queues_okD [OF irp_inv_dest(3) [OF put]]
    have notin: "i \<notin> set (queue_of s d)"
    proof (cases "map_of (irp_queues s) d")
      case (Some q0)
      then show ?thesis using queues_okD(2) [OF dd(3) Some, of i] nd \<open>map_of (irps s) i = Some r\<close> by (auto simp: queue_of_def)
    qed (simp add: queue_of_def)
    have new: "distinct (queue_of s d @ [i])"
    proof (cases "map_of (irp_queues s) d")
      case (Some q0)
      then show ?thesis using q(1) [of d q0] notin by (simp add: queue_of_def)
    qed (simp add: queue_of_def)
    have mem: "\<exists>r. map_of (om_insert i ?r (irps s)) j = Some r \<and> ir_pending_device r = Some d" if "j \<in> set (queue_of s d @ [i])" for j
    proof (cases "j = i")
      case False
      then show ?thesis using that q(2) [of d _ j] by (cases "map_of (irp_queues s) d") (simp_all add: queue_of_def)
    qed simp
    have "queues_ok (om_insert i ?r (irps s)) (om_insert d (queue_of s d @ [i]) (irp_queues s))"
      unfolding queues_ok_def
    proof (intro conjI allI impI)
      show "om_wf (om_insert d (queue_of s d @ [i]) (irp_queues s))" using dd(3) by (simp add: queues_ok_def)
      fix e q'
      assume e: "map_of (om_insert d (queue_of s d @ [i]) (irp_queues s)) e = Some q'"
      show "distinct q'" using e new q(1) [of e q'] by (cases "e = d") auto
      show "\<forall>j \<in> set q'. \<exists>r. map_of (om_insert i ?r (irps s)) j = Some r \<and> ir_pending_device r = Some e"
        using e mem q(2) [of e q'] by (cases "e = d") auto
    qed
    with put have "irp_inv (s\<lparr>irp_queues := om_insert d (queue_of s d @ [i]) (irp_queues s), irps := om_insert i ?r (irps s)\<rparr>)"
      by (simp add: irp_inv_def)
    then show ?thesis using Some False by (simp add: irp_queue_def)
  qed (use inv Some in \<open>auto simp: irp_queue_def\<close>)
qed (use inv in \<open>simp add: irp_queue_def\<close>)

text \<open>A change of the stack locations alone.\<close>

lemma irp_stack_inv:
  assumes inv: "irp_inv s" and r: "map_of (irps s) i = Some r"
  shows "irp_inv (s\<lparr>irps := om_insert i (r\<lparr>ir_stack := stack\<rparr>) (irps s)\<rparr>)"
proof -
  note d = irp_inv_dest [OF inv]
  have "queues_ok (om_insert i (r\<lparr>ir_stack := stack\<rparr>) (irps s)) (irp_queues s)"
    by (rule queues_ok_mono [OF d(3)]) (use r in auto)
  moreover have "irp_tally P (om_insert i (r\<lparr>ir_stack := stack\<rparr>) (irps s)) = irp_tally P (irps s)" if "P (r\<lparr>ir_stack := stack\<rparr>) = P r" for P
    using irp_tally_put [OF fresh_ids_wf [OF d(1)] r, of P "r\<lparr>ir_stack := stack\<rparr>"] that by (simp split: if_splits)
  moreover have "irp_ok (r\<lparr>ir_stack := stack\<rparr>)" using d(2) [OF r] by (simp add: irp_ok_def)
  moreover have "fresh_ids (om_insert i (r\<lparr>ir_stack := stack\<rparr>) (irps s)) (next_irp s)" by (rule fresh_ids_update [OF d(1) r])
  ultimately show ?thesis using d(2,4,5) unfolding irp_inv_def by simp
qed

lemma location_ops_inv:
  assumes "irp_inv s"
  shows "irp_inv (snd (set_completion_routine s i d routine))" "irp_inv (snd (set_stack_parameters s i d parameters))"
proof -
  have "irp_inv (snd (set_completion_routine s i d routine)) \<and> irp_inv (snd (set_stack_parameters s i d parameters))"
  proof (cases "map_of (irps s) i")
    case (Some r)
    then show ?thesis using assms irp_stack_inv [OF assms Some]
      by (auto simp: set_completion_routine_def set_stack_parameters_def snd_attempt split: res.split)
  qed (use assms in \<open>simp add: set_completion_routine_def set_stack_parameters_def\<close>)
  then show "irp_inv (snd (set_completion_routine s i d routine))" "irp_inv (snd (set_stack_parameters s i d parameters))" by blast+
qed

lemma irp_step_inv: "irp_step call s s' \<Longrightarrow> irp_inv s \<Longrightarrow> irp_inv s'"
proof (induction rule: irp_step.induct)
  case (1 s parameters stack)
  note d = irp_inv_dest [OF 1]
  let ?r = "\<lparr>ir_parameters = parameters, ir_stack = stack, ir_status = STATUS_PENDING, ir_information = 0, ir_pending = False,
    ir_pending_device = None, ir_cancelled = False, ir_completed = False\<rparr>"
  have n: "map_of (irps s) (next_irp s) = None" by (rule fresh_ids_absent [OF d(1)]) simp
  then have "queues_ok (om_insert (next_irp s) ?r (irps s)) (irp_queues s)"
    by (intro queues_ok_mono [OF d(3)]) auto
  moreover have "fresh_ids (om_insert (next_irp s) ?r (irps s)) (next_irp s + 1)" using d(1) by (rule fresh_ids_alloc) simp
  moreover have "\<forall>i r. map_of (om_insert (next_irp s) ?r (irps s)) i = Some r \<longrightarrow> irp_ok r" using d(2) by (simp add: irp_ok_def)
  moreover have "irp_tally P (om_insert (next_irp s) ?r (irps s)) = irp_tally P (irps s)" if "\<not> P ?r" for P
    using that by (simp add: irp_tally_def om_sum_insert_fresh [OF n])
  ultimately show ?case using d(4,5) unfolding irp_inv_def irp_insert_def by simp
next
  case (7 s d)
  then show ?case unfolding irp_inv_def take_queue_def by (simp add: queues_ok_remove)
qed (simp_all add: irp_queue_inv irp_complete_inv irp_cancel_inv location_ops_inv)


lemma irp_inv_new: "irp_inv irp_core_new"
  by (simp add: irp_inv_def irp_core_new_def queues_ok_def irp_tally_def)

interpretation irpc: invariant_system "\<lambda>s. s = irp_core_new" "irp_step call" irp_inv for call
  by unfold_locales (auto simp: irp_inv_new intro: irp_step_inv)

lemma irp_tally_card:
  assumes "om_wf m"
  shows "irp_tally P m = card {i. \<exists>r. map_of m i = Some r \<and> P r}"
proof -
  have "irp_tally P m = length (filter (\<lambda>e. P (snd e)) m)"
    unfolding irp_tally_def om_sum_def by (induction m) auto
  also have "\<dots> = card (set (map fst (filter (\<lambda>e. P (snd e)) m)))"
    using om_wf_distinct [OF assms] by (metis distinct_card distinct_map_filter length_map)
  also have "set (map fst (filter (\<lambda>e. P (snd e)) m)) = {i. \<exists>r. map_of m i = Some r \<and> P r}"
    using om_get_iff [OF assms] by force
  finally show ?thesis .
qed

section \<open>Finality\<close>

text \<open>What a completed request shows.\<close>

definition irp_final :: "nat \<Rightarrow> nt_status \<times> nat \<times> bool \<Rightarrow> 'c irp_core \<Rightarrow> bool" where
  "irp_final i v s \<longleftrightarrow> (\<exists>r. map_of (irps s) i = Some r \<and> ir_completed r \<and> (ir_status r, ir_information r, ir_cancelled r) = v)"

lemma completed_refused:
  assumes "irp_final i v s"
  shows "irp_complete call s i status information = (Err STATUS_UNSUCCESSFUL, s)" "irp_cancel call s i = (Err STATUS_UNSUCCESSFUL, s)"
    "irp_queue s d i = (Err STATUS_UNSUCCESSFUL, s)"
  using assms by (auto simp: irp_final_def irp_complete_def irp_cancel_def irp_queue_def)

text \<open>An operation on another request does not touch this one.\<close>

lemma irp_other:
  assumes "j \<noteq> i"
  shows "map_of (irps (snd (irp_complete call s j status information))) i = map_of (irps s) i"
    "map_of (irps (snd (irp_cancel call s j))) i = map_of (irps s) i"
    "map_of (irps (snd (irp_queue s d j))) i = map_of (irps s) i"
proof -
  show "map_of (irps (snd (irp_queue s d j))) i = map_of (irps s) i"
    using assms by (auto simp: irp_queue_def snd_attempt split: res.split)
  show "map_of (irps (snd (irp_complete call s j status information))) i = map_of (irps s) i"
  proof (cases "map_of (irps s) j")
    case (Some r)
    obtain st stalled stack where w: "completion_walk call j information status (ir_stack r) = (st, stalled, stack)"
      by (cases "completion_walk call j information status (ir_stack r)")
    show ?thesis
    proof (cases "ir_completed r")
      case False
      show ?thesis unfolding irp_complete_eq [OF Some False w] using assms by simp
    qed (simp add: irp_complete_def Some)
  qed (simp add: irp_complete_def)
  show "map_of (irps (snd (irp_cancel call s j))) i = map_of (irps s) i"
  proof (cases "map_of (irps s) j")
    case (Some r)
    obtain st stalled stack where w: "completion_walk call j (ir_information r) STATUS_CANCELLED (ir_stack r) = (st, stalled, stack)"
      by (cases "completion_walk call j (ir_information r) STATUS_CANCELLED (ir_stack r)")
    show ?thesis
    proof (cases "ir_completed r")
      case False
      show ?thesis unfolding irp_cancel_eq [OF Some False w] using assms by simp
    qed (simp add: irp_cancel_def Some)
  qed (simp add: irp_cancel_def)
qed

lemma irp_final_same: "irp_final i v s \<Longrightarrow> map_of (irps s') i = map_of (irps s) i \<Longrightarrow> irp_final i v s'"
  by (simp add: irp_final_def)

lemma location_ops_final:
  assumes "irp_final i v s"
  shows "irp_final i v (snd (set_completion_routine s j d routine))" "irp_final i v (snd (set_stack_parameters s j d parameters))"
proof -
  have put: "irp_final i v (s\<lparr>irps := om_insert j (r\<lparr>ir_stack := stack\<rparr>) (irps s)\<rparr>)" if "map_of (irps s) j = Some r" for r stack
    using assms that by (auto simp: irp_final_def)
  have "irp_final i v (snd (set_completion_routine s j d routine)) \<and> irp_final i v (snd (set_stack_parameters s j d parameters))"
  proof (cases "map_of (irps s) j")
    case (Some r)
    then show ?thesis using assms put [OF Some]
      by (auto simp: set_completion_routine_def set_stack_parameters_def snd_attempt split: res.split)
  qed (use assms in \<open>simp add: set_completion_routine_def set_stack_parameters_def\<close>)
  then show "irp_final i v (snd (set_completion_routine s j d routine))" "irp_final i v (snd (set_stack_parameters s j d parameters))" by blast+
qed

lemma irp_step_final: "irp_step call s s' \<Longrightarrow> irp_inv s \<Longrightarrow> irp_final i v s \<Longrightarrow> irp_final i v s'"
proof (induction rule: irp_step.induct)
  case (1 s parameters stack)
  then have "i \<noteq> next_irp s" using fresh_ids_bound [OF irp_inv_dest(1) [OF 1(1)], of i] by (auto simp: irp_final_def)
  with 1(2) show ?case by (auto simp: irp_insert_def intro: irp_final_same)
next
  case (2 s d j)
  then show ?case using completed_refused(3) [OF 2(2), of d] irp_other(3) [of j i s d]
    by (cases "j = i") (auto intro: irp_final_same)
next
  case (3 s j status information)
  then show ?case using completed_refused(1) [OF 3(2), of call status information] irp_other(1) [of j i call s status information]
    by (cases "j = i") (auto intro: irp_final_same)
next
  case (4 s j)
  then show ?case using completed_refused(2) [OF 4(2), of call] irp_other(2) [of j i call s]
    by (cases "j = i") (auto intro: irp_final_same)
next
  case (7 s d)
  then show ?case by (auto simp: take_queue_def intro: irp_final_same)
qed (simp_all add: location_ops_final)

lemma irp_steps_final:
  assumes "(irp_step call)\<^sup>*\<^sup>* s s'" "irp_inv s" "irp_final i v s"
  shows "irp_final i v s'"
proof -
  have "irp_inv s' \<and> irp_final i v s'"
    using assms by (induction rule: rtranclp_induct) (blast intro: irp_step_inv irp_step_final)+
  then show ?thesis ..
qed

section \<open>Properties\<close>

text \<open>A routine that lets a completion pass, and one that holds it once.\<close>

definition demo_call :: "nat completion_call" where
  "demo_call c x = (if c = 0 then (ic_status x, 0) else (STATUS_MORE_PROCESSING_REQUIRED, c - 1))"

definition demo_stack :: "nat io_stack_location list" where
  "demo_stack = map (\<lambda>(d, c). \<lparr>sl_device = d, sl_major = MjRead, sl_minor = 0, sl_parameters = SpReadWrite 4 0, sl_completion = Some c\<rparr>)
     [(3, 0), (5, 1)]"

definition demo_irp1 :: "nat irp_core" where
  "demo_irp1 = snd (irp_insert irp_core_new (parameter_block_new MjRead 0 4) demo_stack)"

definition demo_irp2 :: "nat irp_core" where "demo_irp2 = snd (irp_queue demo_irp1 5 1)"

definition demo_irp3 :: "nat irp_core" where "demo_irp3 = snd (irp_complete demo_call demo_irp2 1 STATUS_SUCCESS 4)"

definition demo_irp4 :: "nat irp_core" where "demo_irp4 = snd (irp_complete demo_call demo_irp3 1 STATUS_SUCCESS 4)"

lemmas demo_irp_defs = demo_irp1_def demo_irp2_def demo_irp3_def demo_irp4_def demo_stack_def demo_call_def irp_insert_def irp_core_new_def
  parameter_block_new_def irp_queue_def irp_complete_def unqueue_def run_completion_def queue_of_def om_update_def

lemma demo_irp_facts:
  "queue_of demo_irp2 5 = [1]" "irps_completed demo_irp3 = 0" "irps_completed demo_irp4 = 1"
  "irp_final 1 (STATUS_SUCCESS, 4, False) demo_irp4"
  by (simp_all add: demo_irp_defs irp_final_def STATUS_MORE_PROCESSING_REQUIRED_def STATUS_SUCCESS_def)

lemma demo_irp_reachable: "(irp_step demo_call)\<^sup>*\<^sup>* irp_core_new demo_irp2" "(irp_step demo_call)\<^sup>*\<^sup>* irp_core_new demo_irp4"
proof -
  have "irp_step demo_call irp_core_new demo_irp1" "irp_step demo_call demo_irp1 demo_irp2"
    "irp_step demo_call demo_irp2 demo_irp3" "irp_step demo_call demo_irp3 demo_irp4"
    unfolding demo_irp1_def demo_irp2_def demo_irp3_def demo_irp4_def by (rule irp_step.intros)+
  then show "(irp_step demo_call)\<^sup>*\<^sup>* irp_core_new demo_irp2" "(irp_step demo_call)\<^sup>*\<^sup>* irp_core_new demo_irp4"
    by (meson rtranclp.rtrancl_into_rtrancl rtranclp.rtrancl_refl)+
qed

text \<open>
  C38. Whatever the threads that share a core of requests do and however their steps interleave, the counters are the numbers of
  completed and of cancelled requests, and a queued request is pending on exactly the device whose queue holds it, is
  there once, and is not completed.
\<close>
theorem irp_accounting_exact:
  assumes "(irp_step call)\<^sup>*\<^sup>* irp_core_new s"
  shows "irps_completed s = card {i. \<exists>r. map_of (irps s) i = Some r \<and> ir_completed r} \<and>
    irps_cancelled s = card {i. \<exists>r. map_of (irps s) i = Some r \<and> ir_cancelled r} \<and>
    (\<forall>d. distinct (queue_of s d)) \<and>
    (\<forall>d i. i \<in> set (queue_of s d) \<longrightarrow> (\<exists>r. map_of (irps s) i = Some r \<and> ir_pending r \<and> ir_pending_device r = Some d \<and> \<not> ir_completed r))"
proof -
  have inv: "irp_inv s" by (rule irpc.reachable_inv [OF refl assms])
  note d = irp_inv_dest [OF inv]
  note card = irp_tally_card [OF fresh_ids_wf [OF d(1)]]
  have "distinct (queue_of s d)" for d
    using queues_okD(1) [OF d(3), of d] by (cases "map_of (irp_queues s) d") (simp_all add: queue_of_def)
  moreover have "\<exists>r. map_of (irps s) i = Some r \<and> ir_pending r \<and> ir_pending_device r = Some d \<and> \<not> ir_completed r"
    if queued: "i \<in> set (queue_of s d)" for d i
  proof -
    obtain q where "map_of (irp_queues s) d = Some q" "i \<in> set q" using queued by (cases "map_of (irp_queues s) d") (auto simp: queue_of_def)
    then obtain r where r: "map_of (irps s) i = Some r" "ir_pending_device r = Some d" using queues_okD(2) [OF d(3)] by blast
    then show ?thesis using d(2) [OF r(1)] by (auto simp: irp_ok_def)
  qed
  ultimately show ?thesis using d(4,5) card by metis
qed

theorem irp_accounting_exact_witness:
  "1 \<in> set (queue_of demo_irp2 5) \<and> (\<exists>r. map_of (irps demo_irp2) 1 = Some r \<and> ir_pending_device r = Some 5 \<and> \<not> ir_completed r)"
proof -
  have "1 \<in> set (queue_of demo_irp2 5)" by (simp add: demo_irp_facts)
  with irp_accounting_exact [OF demo_irp_reachable(1)] show ?thesis by blast
qed

text \<open>
  C39. A completed request is final: after any further steps its status, information and cancellation flag are the same, and completing,
  cancelling or queueing it again fails and changes nothing.
\<close>
theorem irp_completed_once:
  assumes "(irp_step call)\<^sup>*\<^sup>* irp_core_new s" "map_of (irps s) i = Some r" "ir_completed r" "(irp_step call)\<^sup>*\<^sup>* s s'"
  shows "\<exists>r'. map_of (irps s') i = Some r' \<and> ir_completed r' \<and> ir_status r' = ir_status r \<and> ir_information r' = ir_information r \<and>
      ir_cancelled r' = ir_cancelled r \<and>
      irp_complete call s' i status information = (Err STATUS_UNSUCCESSFUL, s') \<and> irp_cancel call s' i = (Err STATUS_UNSUCCESSFUL, s') \<and>
      irp_queue s' d i = (Err STATUS_UNSUCCESSFUL, s')"
proof -
  have "irp_final i (ir_status r, ir_information r, ir_cancelled r) s" using assms(2,3) by (simp add: irp_final_def)
  then have f: "irp_final i (ir_status r, ir_information r, ir_cancelled r) s'"
    by (rule irp_steps_final [OF assms(4) irpc.reachable_inv [OF refl assms(1)]])
  with completed_refused [OF f] show ?thesis by (auto simp: irp_final_def)
qed

theorem irp_completed_once_witness: "irp_cancel demo_call demo_irp4 1 = (Err STATUS_UNSUCCESSFUL, demo_irp4) \<and> irps_completed demo_irp4 = 1"
proof -
  obtain r where "map_of (irps demo_irp4) 1 = Some r" "ir_completed r" using demo_irp_facts(4) by (auto simp: irp_final_def)
  from irp_completed_once [OF demo_irp_reachable(2) this rtranclp.rtrancl_refl] demo_irp_facts(3) show ?thesis by blast
qed

end
