(* ===== verification/Io_Device.thy ===== *)
theory Io_Device
  imports Io_Irp
begin

text \<open>
  The driver and device tables of the I/O manager (\<open>src/src/casak/io.rs\<close>): a device names the device attached above it, the
  one below it and the next device of its driver. The loops over these links are partial functions: \<open>None\<close> means that a loop runs
  forever. The second part states when the links form stacks and driver chains, and shows that the loops return on such tables and what
  they return.
\<close>

section \<open>Tables\<close>

record driver_object =
  dr_name :: string
  dr_extension :: device_extension
  dr_first_device :: "nat option"
  dr_device_count :: nat

record device_object =
  dv_name :: "string option"
  dv_driver :: "nat option"
  dv_extension :: device_extension
  dv_flags :: device_flags
  dv_deleted :: bool
  dv_attached :: "nat option"
  dv_lower :: "nat option"
  dv_next :: "nat option"

type_synonym device_table = "(nat, device_object) omap"

text \<open>
  The loop of \<open>top_of_stack\<close> (over the attached devices) and of \<open>bottom_of_stack\<close> (over the lower devices), which give up when they
  meet the device they started from.
\<close>

partial_function (option) stack_walk :: "(device_object \<Rightarrow> nat option) \<Rightarrow> device_table \<Rightarrow> nat \<Rightarrow> nat \<Rightarrow> nat res option" where
  "stack_walk link devs device current = (case map_of devs current of
      None \<Rightarrow> Some (Err STATUS_INVALID_HANDLE)
    | Some e \<Rightarrow> (case link e of
        None \<Rightarrow> Some (Ok current)
      | Some n \<Rightarrow> if n = device then Some (Err STATUS_INVALID_DEVICE_REQUEST) else stack_walk link devs device n))"

text \<open>The loop of \<open>stack_devices\<close>, which is bounded by the number of devices.\<close>

function stack_loop :: "device_table \<Rightarrow> nat \<Rightarrow> nat list \<Rightarrow> nat list res" where
  "stack_loop devs current chain = (case map_of devs current of
      None \<Rightarrow> Err STATUS_INVALID_HANDLE
    | Some e \<Rightarrow> (case dv_lower e of
        None \<Rightarrow> Ok (rev chain)
      | Some lower \<Rightarrow> if length (chain @ [lower]) > length devs then Err STATUS_INVALID_DEVICE_REQUEST
          else stack_loop devs lower (chain @ [lower])))"
  by pat_completeness auto
termination by (relation "measure (\<lambda>(devs, _, chain). length devs - length chain)") auto

declare stack_loop.simps [simp del]

definition next_of :: "device_table \<Rightarrow> nat \<Rightarrow> nat option" where
  "next_of devs d = Option.bind (map_of devs d) dv_next"

text \<open>The loop of \<open>driver_devices\<close> and the search for the predecessor in \<open>delete_device\<close>.\<close>

partial_function (option) chain_loop :: "device_table \<Rightarrow> nat option \<Rightarrow> nat list \<Rightarrow> nat list option" where
  "chain_loop devs cursor devices = (case cursor of
      None \<Rightarrow> Some devices
    | Some d \<Rightarrow> chain_loop devs (next_of devs d) (devices @ [d]))"

partial_function (option) find_previous :: "device_table \<Rightarrow> nat \<Rightarrow> nat option \<Rightarrow> nat option option" where
  "find_previous devs device cursor = (case cursor of
      None \<Rightarrow> Some None
    | Some current \<Rightarrow> (let next = next_of devs current
        in if next = Some device then Some (Some current) else find_previous devs device next))"

declare stack_walk.simps [code] chain_loop.simps [code] find_previous.simps [code]

definition unlink_from_stack :: "device_table \<Rightarrow> nat \<Rightarrow> device_table" where
  "unlink_from_stack devs device = (case map_of devs device of
      None \<Rightarrow> devs
    | Some e \<Rightarrow>
        let upper = dv_attached e; lower = dv_lower e;
            devs1 = (case upper of None \<Rightarrow> devs | Some u \<Rightarrow> om_update u (\<lambda>e. e\<lparr>dv_lower := lower\<rparr>) devs);
            devs2 = (case lower of None \<Rightarrow> devs1 | Some l \<Rightarrow> om_update l (\<lambda>e. e\<lparr>dv_attached := upper\<rparr>) devs1)
        in om_update device (\<lambda>e. e\<lparr>dv_attached := None, dv_lower := None\<rparr>) devs2)"

definition unlink_from_driver :: "(nat, driver_object) omap \<Rightarrow> device_table \<Rightarrow> nat option \<Rightarrow> nat option \<Rightarrow> nat \<Rightarrow>
    ((nat, driver_object) omap \<times> device_table) option" where
  "unlink_from_driver drvs devs driver next_device device = (case driver of
      None \<Rightarrow> Some (drvs, devs)
    | Some k \<Rightarrow> (case map_of drvs k of
        None \<Rightarrow> Some (drvs, devs)
      | Some x \<Rightarrow>
          if dr_first_device x = Some device
          then Some (om_insert k (x\<lparr>dr_first_device := next_device, dr_device_count := dr_device_count x - 1\<rparr>) drvs, devs)
          else Option.bind (find_previous devs device (dr_first_device x)) (\<lambda>previous.
            Some (om_insert k (x\<lparr>dr_device_count := dr_device_count x - 1\<rparr>) drvs,
              case previous of None \<Rightarrow> devs | Some p \<Rightarrow> om_update p (\<lambda>e. e\<lparr>dv_next := next_device\<rparr>) devs))))"

section \<open>Stacks\<close>

definition attached_of :: "device_table \<Rightarrow> nat \<Rightarrow> nat option" where
  "attached_of devs d = Option.bind (map_of devs d) dv_attached"

definition lower_of :: "device_table \<Rightarrow> nat \<Rightarrow> nat option" where
  "lower_of devs d = Option.bind (map_of devs d) dv_lower"

text \<open>The edges of a link, and two links that are inverse to each other and have no cycle.\<close>

definition edges :: "(nat \<Rightarrow> nat option) \<Rightarrow> (nat \<times> nat) set" where
  "edges f = {(x, y). f x = Some y}"

definition stacked :: "(nat \<Rightarrow> nat option) \<Rightarrow> (nat \<Rightarrow> nat option) \<Rightarrow> bool" where
  "stacked up down \<longleftrightarrow> (\<forall>x y. up x = Some y \<longleftrightarrow> down y = Some x) \<and> acyclic (edges down)"

lemma edges_iff [simp]: "(x, y) \<in> edges f \<longleftrightarrow> f x = Some y"
  by (simp add: edges_def)

lemma stackedD: "stacked up down \<Longrightarrow> up x = Some y \<longleftrightarrow> down y = Some x"
  by (simp add: stacked_def)

lemma stacked_acyclic:
  assumes "stacked up down"
  shows "acyclic (edges down)" "acyclic (edges up)"
proof -
  have "edges up = (edges down)\<inverse>" using stackedD [OF assms] by auto
  moreover show "acyclic (edges down)" using assms by (simp add: stacked_def)
  ultimately show "acyclic (edges up)" by simp
qed

lemma stacked_push:
  assumes s: "stacked up down" and free: "up x = None" "down x = None" and top: "up t = None" and ne: "x \<noteq> t"
  shows "stacked (up(t := Some x)) (down(x := Some t))"
proof -
  have inverse: "(up(t := Some x)) y = Some z \<longleftrightarrow> (down(x := Some t)) z = Some y" for y z
    using stackedD [OF s, of y z] stackedD [OF s, of t z] stackedD [OF s, of y x] free top by auto
  have "edges (down(x := Some t)) = insert (x, t) (edges down)" using free(2) by (auto split: if_splits)
  moreover have "(t, x) \<notin> (edges down)\<^sup>*"
  proof
    assume "(t, x) \<in> (edges down)\<^sup>*"
    then obtain y where "(y, x) \<in> edges down" using ne by (metis rtranclE)
    then show False using stackedD [OF s, of x y] free(1) by simp
  qed
  ultimately show ?thesis using inverse stacked_acyclic(1) [OF s] by (simp add: stacked_def acyclic_insert)
qed

text \<open>Taking \<open>x\<close> out of a stack and joining its neighbours.\<close>

definition bypass :: "(nat \<Rightarrow> nat option) \<Rightarrow> (nat \<Rightarrow> nat option) \<Rightarrow> nat \<Rightarrow> nat \<Rightarrow> nat option" where
  "bypass f g x = (case f x of None \<Rightarrow> g | Some y \<Rightarrow> g(y := g x))(x := None)"

lemma stacked_bypass:
  assumes s: "stacked up down"
  shows "stacked (bypass down up x) (bypass up down x)"
proof -
  note inverse = stackedD [OF s]
  have irrefl: "down y \<noteq> Some y" for y
    using stacked_acyclic(1) [OF s] unfolding acyclic_def by (metis edges_iff trancl.r_into_trancl)
  have edge: "bypass up down x y = Some z \<longleftrightarrow> y \<noteq> x \<and> (if up x = Some y then down x = Some z else down y = Some z)" for y z
    by (cases "up x") (auto simp: bypass_def)
  have edge': "bypass down up x z = Some y \<longleftrightarrow> z \<noteq> x \<and> (if down x = Some z then up x = Some y else up z = Some y)" for y z
    by (cases "down x") (auto simp: bypass_def)
  have "bypass down up x z = Some y \<longleftrightarrow> bypass up down x y = Some z" for y z
    unfolding edge edge' using inverse [of z y] inverse [of x y] inverse [of z x] irrefl [of x] by (metis option.sel)
  moreover have "edges (bypass up down x) \<subseteq> (edges down)\<^sup>+"
  proof (rule subrelI)
    fix y z assume "(y, z) \<in> edges (bypass up down x)"
    then have "(if up x = Some y then down x = Some z else down y = Some z)" using edge by simp
    then have "(y, x) \<in> edges down \<and> (x, z) \<in> edges down \<or> (y, z) \<in> edges down" using inverse [of x y] by (auto split: if_splits)
    then show "(y, z) \<in> (edges down)\<^sup>+" by (meson trancl.r_into_trancl trancl_trans)
  qed
  then have "acyclic (edges (bypass up down x))"
    using stacked_acyclic(1) [OF s] acyclic_subset [of "(edges down)\<^sup>+"] by (simp add: acyclic_def)
  ultimately show ?thesis by (auto simp: stacked_def)
qed

lemma stacked_cut:
  assumes s: "stacked up down" and x: "up t = Some x"
  shows "stacked (up(t := None)) (down(x := None))"
proof -
  note inverse = stackedD [OF s]
  have "(up(t := None)) y = Some z \<longleftrightarrow> (down(x := None)) z = Some y" for y z
    using inverse [of y z] inverse [of t z] inverse [of y x] x by (auto split: if_splits)
  moreover have "edges (down(x := None)) \<subseteq> edges down" by (auto split: if_splits)
  then have "acyclic (edges (down(x := None)))" using stacked_acyclic(1) [OF s] acyclic_subset by blast
  ultimately show ?thesis by (simp add: stacked_def)
qed


section \<open>Walks\<close>

text \<open>A walk along a link without cycles whose targets are all in the table returns the end of the walk.\<close>

definition link_of :: "(device_object \<Rightarrow> nat option) \<Rightarrow> device_table \<Rightarrow> nat \<Rightarrow> nat option" where
  "link_of link devs d = Option.bind (map_of devs d) link"

lemma link_of_eq: "attached_of devs = link_of dv_attached devs" "lower_of devs = link_of dv_lower devs" "next_of devs = link_of dv_next devs"
  by (auto simp: attached_of_def lower_of_def next_of_def link_of_def)

lemma edges_link_finite: "finite (edges (link_of link devs))"
proof (rule finite_subset)
  show "edges (link_of link devs) \<subseteq> (\<lambda>(d, e). (d, the (link e))) ` set devs"
    by (force simp: link_of_def bind_eq_Some_conv dest: map_of_SomeD)
qed simp

lemma edges_link_wf: "acyclic (edges (link_of link devs)) \<Longrightarrow> wf ((edges (link_of link devs))\<inverse>)"
  by (rule finite_acyclic_wf_converse [OF edges_link_finite])

lemma stack_walk_returns:
  assumes acyclic: "acyclic (edges (link_of link devs))"
    and closed: "\<And>x y. link_of link devs x = Some y \<Longrightarrow> y \<in> dom (map_of devs)"
  shows "current \<in> dom (map_of devs) \<Longrightarrow> (device, current) \<in> (edges (link_of link devs))\<^sup>* \<Longrightarrow>
    \<exists>t. stack_walk link devs device current = Some (Ok t) \<and> (current, t) \<in> (edges (link_of link devs))\<^sup>* \<and>
      t \<in> dom (map_of devs) \<and> link_of link devs t = None"
proof (induction current rule: wf_induct_rule [OF edges_link_wf [OF acyclic]])
  case (1 c)
  from 1(2) obtain e where e: "map_of devs c = Some e" by blast
  show ?case
  proof (cases "link e")
    case None
    with e 1(2) show ?thesis by (subst stack_walk.simps) (auto simp: link_of_def)
  next
    case (Some n)
    then have n: "link_of link devs c = Some n" using e by (simp add: link_of_def)
    then have "(device, n) \<in> (edges (link_of link devs))\<^sup>+" using 1(3) by (simp add: rtrancl_into_trancl1)
    moreover from this have "n \<noteq> device" using acyclic by (auto simp: acyclic_def)
    moreover have "\<exists>t. stack_walk link devs device n = Some (Ok t) \<and> (n, t) \<in> (edges (link_of link devs))\<^sup>* \<and>
      t \<in> dom (map_of devs) \<and> link_of link devs t = None"
      using 1(1) [of n] n closed [OF n] \<open>(device, n) \<in> (edges (link_of link devs))\<^sup>+\<close> by (simp add: trancl_into_rtrancl)
    moreover have "(n, t) \<in> (edges (link_of link devs))\<^sup>* \<Longrightarrow> (c, t) \<in> (edges (link_of link devs))\<^sup>*" for t
      using n by (metis converse_rtrancl_into_rtrancl edges_iff)
    ultimately show ?thesis using e Some by (subst stack_walk.simps) auto
  qed
qed

lemma successive_path:
  "successively (\<lambda>x y. f x = Some y) (x # xs) \<Longrightarrow> z \<in> set xs \<Longrightarrow> (x, z) \<in> (edges f)\<^sup>+"
proof (induction xs arbitrary: x)
  case (Cons y ys)
  then have "(x, y) \<in> edges f" by simp
  with Cons show ?case by (cases "z = y") (auto intro: trancl_into_trancl2)
qed simp

lemma successive_distinct: "acyclic (edges f) \<Longrightarrow> successively (\<lambda>x y. f x = Some y) xs \<Longrightarrow> distinct xs"
proof (induction xs)
  case (Cons x xs)
  then have "x \<notin> set xs" using successive_path [of f x xs x] by (auto simp: acyclic_def)
  with Cons show ?case by (auto simp: successively_Cons)
qed simp

lemma stack_loop_returns:
  assumes wf: "om_wf devs" and acyclic: "acyclic (edges (lower_of devs))"
    and closed: "\<And>x y. lower_of devs x = Some y \<Longrightarrow> y \<in> dom (map_of devs)"
  shows "chain \<noteq> [] \<Longrightarrow> last chain = current \<Longrightarrow> set chain \<subseteq> dom (map_of devs) \<Longrightarrow> successively (\<lambda>x y. lower_of devs x = Some y) chain \<Longrightarrow>
    \<exists>rest. stack_loop devs current chain = Ok (rev (chain @ rest)) \<and> successively (\<lambda>x y. lower_of devs x = Some y) (chain @ rest) \<and>
      set rest \<subseteq> dom (map_of devs) \<and> lower_of devs (last (chain @ rest)) = None"
proof (induction current arbitrary: chain rule: wf_induct_rule [OF edges_link_wf [OF acyclic [unfolded link_of_eq]]])
  case (1 current)
  from 1(2,3,4) have "current \<in> dom (map_of devs)" using last_in_set by blast
  then obtain e where e: "map_of devs current = Some e" by blast
  show ?case
  proof (cases "dv_lower e")
    case None
    with e 1 show ?thesis by (intro exI [of _ "[]"]) (simp add: stack_loop.simps lower_of_def)
  next
    case (Some l)
    then have l: "lower_of devs current = Some l" using e by (simp add: lower_of_def)
    let ?c = "chain @ [l]"
    have c: "set ?c \<subseteq> dom (map_of devs)" "successively (\<lambda>x y. lower_of devs x = Some y) ?c"
      using 1 closed [OF l] l by (auto simp: successively_append_iff)
    then have "distinct ?c" by (intro successive_distinct [OF acyclic])
    then have "length ?c = card (set ?c)" by (simp only: distinct_card)
    also have "\<dots> \<le> card (dom (map_of devs))" using c(1) by (intro card_mono) (simp_all add: finite_dom_map_of)
    also have "\<dots> = length devs" using om_wf_distinct [OF wf] by (metis distinct_card length_map om_keys_dom set_map)
    finally have bound: "length ?c \<le> length devs" .
    have "(l, current) \<in> (edges (link_of dv_lower devs))\<inverse>" using l by (simp add: link_of_eq)
    from 1(1) [OF this _ _ c] obtain rest where "stack_loop devs l ?c = Ok (rev (?c @ rest))"
      "successively (\<lambda>x y. lower_of devs x = Some y) (?c @ rest)" "set rest \<subseteq> dom (map_of devs)" "lower_of devs (last (?c @ rest)) = None"
      by auto
    then show ?thesis using e Some bound c(1) by (intro exI [of _ "l # rest"]) (simp add: stack_loop.simps [of devs current])
  qed
qed

section \<open>Driver chains\<close>

fun linked :: "(nat \<Rightarrow> nat option) \<Rightarrow> nat option \<Rightarrow> nat list \<Rightarrow> bool" where
  "linked nxt cursor [] = (cursor = None)"
| "linked nxt cursor (d # ds) = (cursor = Some d \<and> linked nxt (nxt d) ds)"

lemma linked_cong: "(\<And>d. d \<in> set ds \<Longrightarrow> nxt d = nxt' d) \<Longrightarrow> linked nxt cursor ds = linked nxt' cursor ds"
  by (induction ds arbitrary: cursor) auto

lemma chain_loop_linked: "linked (next_of devs) cursor ds \<Longrightarrow> chain_loop devs cursor acc = Some (acc @ ds)"
proof (induction ds arbitrary: cursor acc)
  case Nil
  then show ?case by (subst chain_loop.simps) simp
next
  case (Cons d ds)
  then show ?case by (subst chain_loop.simps) simp
qed

text \<open>Where the search stops: at the device before \<open>d\<close>.\<close>

lemma find_previous_linked:
  "linked (next_of devs) cursor ds \<Longrightarrow> d \<in> set ds \<Longrightarrow> cursor \<noteq> Some d \<Longrightarrow>
   \<exists>before p after. ds = before @ p # d # after \<and> find_previous devs d cursor = Some (Some p)"
proof (induction ds arbitrary: cursor)
  case (Cons x ds)
  then have x: "cursor = Some x" "x \<noteq> d" "linked (next_of devs) (next_of devs x) ds" by auto
  then have d: "d \<in> set ds" using Cons.prems by simp
  show ?case
  proof (cases "next_of devs x = Some d")
    case True
    then obtain after where "ds = d # after" using x(3) d by (cases ds) auto
    with True x(1) show ?thesis by (subst find_previous.simps) auto
  next
    case False
    from Cons.IH [OF x(3) d False] obtain before p after where
      "ds = before @ p # d # after" "find_previous devs d (next_of devs x) = Some (Some p)" by blast
    with False x(1) show ?thesis
      by (subst find_previous.simps) (auto simp: Let_def intro: exI [of _ "x # before"])
  qed
qed simp

lemma linked_skip:
  "linked nxt cursor (xs @ p # d # ys) \<Longrightarrow> distinct (xs @ p # d # ys) \<Longrightarrow> linked (nxt(p := nxt d, d := None)) cursor (xs @ p # ys)"
proof (induction xs arbitrary: cursor)
  case Nil
  define g where "g = nxt(p := nxt d, d := None)"
  from Nil have n: "cursor = Some p" "linked nxt (nxt d) ys" "p \<noteq> d" "p \<notin> set ys" "d \<notin> set ys" by auto
  then have "linked g (nxt d) ys" by (subst linked_cong [of ys _ nxt]) (auto simp: g_def)
  moreover have "g p = nxt d" using n(3) by (simp add: g_def)
  ultimately show ?case unfolding g_def [symmetric] using n(1) by simp
next
  case (Cons x xs)
  define g where "g = nxt(p := nxt d, d := None)"
  from Cons have n: "cursor = Some x" "linked nxt (nxt x) (xs @ p # d # ys)" "distinct (xs @ p # d # ys)" "x \<noteq> p" "x \<noteq> d" by auto
  from Cons.IH [OF n(2,3)] have "linked g (nxt x) (xs @ p # ys)" by (simp only: g_def)
  moreover have "g x = nxt x" using n(4,5) by (simp add: g_def)
  ultimately show ?case unfolding g_def [symmetric] using n(1) by simp
qed


text \<open>The devices of a driver that are not deleted, and the chain that lists them with the latest first.\<close>

definition live_devices :: "device_table \<Rightarrow> nat \<Rightarrow> nat set" where
  "live_devices devs k = {d. \<exists>e. map_of devs d = Some e \<and> dv_driver e = Some k \<and> \<not> dv_deleted e}"

definition chain_ok :: "device_table \<Rightarrow> nat \<Rightarrow> driver_object \<Rightarrow> bool" where
  "chain_ok devs k x \<longleftrightarrow> (\<exists>ds. linked (next_of devs) (dr_first_device x) ds \<and> sorted_wrt (>) ds \<and> set ds = live_devices devs k \<and>
     dr_device_count x = length ds)"

lemma chain_okI:
  "linked (next_of devs) (dr_first_device x) ds \<Longrightarrow> sorted_wrt (>) ds \<Longrightarrow> set ds = live_devices devs k \<Longrightarrow> dr_device_count x = length ds \<Longrightarrow>
   chain_ok devs k x"
  unfolding chain_ok_def by blast

lemma chain_okE:
  assumes "chain_ok devs k x"
  obtains ds where "linked (next_of devs) (dr_first_device x) ds" "sorted_wrt (>) ds" "distinct ds" "set ds = live_devices devs k"
    "dr_device_count x = length ds"
proof -
  from assms obtain ds where ds: "linked (next_of devs) (dr_first_device x) ds" "sorted_wrt (>) ds" "set ds = live_devices devs k"
    "dr_device_count x = length ds" unfolding chain_ok_def by blast
  moreover have "distinct ds" using ds(2) by (induction ds) auto
  ultimately show ?thesis using that by blast
qed

text \<open>What the chains depend on: a table that keeps it keeps the chains.\<close>

definition chain_view :: "device_table \<Rightarrow> nat \<Rightarrow> (nat option \<times> bool \<times> nat option) option" where
  "chain_view devs d = map_option (\<lambda>e. (dv_driver e, dv_deleted e, dv_next e)) (map_of devs d)"

lemma next_of_view: "next_of devs d = Option.bind (chain_view devs d) (\<lambda>(_, _, n). n)"
  by (simp add: next_of_def chain_view_def split: option.split bind_splits)

lemma live_devices_view: "d \<in> live_devices devs k \<longleftrightarrow> (\<exists>n. chain_view devs d = Some (Some k, False, n))"
  by (auto simp: live_devices_def chain_view_def)

lemma chain_ok_cong: "chain_view devs' = chain_view devs \<Longrightarrow> chain_ok devs' k x = chain_ok devs k x"
proof -
  assume v: "chain_view devs' = chain_view devs"
  have "next_of devs' = next_of devs" using v by (intro ext) (simp add: next_of_view)
  moreover have "live_devices devs' k = live_devices devs k" using v by (intro set_eqI) (simp add: live_devices_view)
  ultimately show ?thesis by (simp add: chain_ok_def)
qed

lemma chain_view_update:
  "(\<And>e. dv_driver (f e) = dv_driver e \<and> dv_deleted (f e) = dv_deleted e \<and> dv_next (f e) = dv_next e) \<Longrightarrow>
   chain_view (om_update d f devs) = chain_view devs"
  by (intro ext) (auto simp: chain_view_def option.map_comp comp_def)

lemma chain_view_unlink [simp]: "chain_view (unlink_from_stack devs d) = chain_view devs"
  by (simp add: unlink_from_stack_def Let_def chain_view_update split: option.split)

text \<open>A new device of driver \<open>k\<close>, whose identifier is above all others, goes to the head of the chain.\<close>

lemma chain_ok_create:
  assumes c: "chain_ok devs k x" and i: "fresh_ids devs i" and e: "dv_driver e = Some k" "\<not> dv_deleted e" "dv_next e = dr_first_device x"
  shows "chain_ok (om_insert i e devs) k (x\<lparr>dr_first_device := Some i, dr_device_count := dr_device_count x + 1\<rparr>)"
  using c
proof (rule chain_okE)
  fix ds assume ds: "linked (next_of devs) (dr_first_device x) ds" "sorted_wrt (>) ds" "distinct ds" "set ds = live_devices devs k"
    "dr_device_count x = length ds"
  have below: "d < i" if "d \<in> set ds" for d using that fresh_ids_bound [OF i] by (auto simp: ds(4) live_devices_def)
  have "linked (next_of (om_insert i e devs)) (dr_first_device x) ds"
    using ds(1) below by (subst linked_cong [of ds _ "next_of devs"]) (auto simp: next_of_def)
  moreover have "insert i (set ds) = live_devices (om_insert i e devs) k"
    using fresh_ids_absent [OF i, of i] e by (auto simp: ds(4) live_devices_def)
  ultimately show ?thesis using ds(2,5) below e by (intro chain_okI [of _ _ "i # ds"]) (auto simp: next_of_def)
qed

lemma chain_ok_other:
  assumes c: "chain_ok devs k x" and same: "\<And>d. d \<in> live_devices devs k \<Longrightarrow> chain_view devs' d = chain_view devs d"
    and live: "live_devices devs' k = live_devices devs k"
  shows "chain_ok devs' k x"
  using c
proof (rule chain_okE)
  fix ds assume ds: "linked (next_of devs) (dr_first_device x) ds" "sorted_wrt (>) ds" "distinct ds" "set ds = live_devices devs k"
    "dr_device_count x = length ds"
  have "linked (next_of devs') (dr_first_device x) ds"
    using ds(1) same by (subst linked_cong [of ds _ "next_of devs"]) (simp_all add: next_of_view ds(4))
  then show ?thesis using ds live by (intro chain_okI) auto
qed

text \<open>Taking a device out of the chain of its driver.\<close>

definition mark_deleted :: "nat \<Rightarrow> device_table \<Rightarrow> device_table" where
  "mark_deleted d devs = om_update d (\<lambda>e. e\<lparr>dv_deleted := True, dv_next := None\<rparr>) devs"

lemma chain_view_mark: "chain_view (mark_deleted d devs) = (chain_view devs)(d := map_option (\<lambda>(k, _, _). (k, True, None)) (chain_view devs d))"
  by (intro ext) (auto simp: mark_deleted_def chain_view_def option.map_comp comp_def)

lemma chain_view_next:
  "chain_view (om_update p (\<lambda>e. e\<lparr>dv_next := n\<rparr>) devs) = (chain_view devs)(p := map_option (\<lambda>(k, b, _). (k, b, n)) (chain_view devs p))"
  by (intro ext) (auto simp: chain_view_def option.map_comp comp_def)


lemma mark_deleted_other:
  assumes "chain_ok devs k x" "d \<notin> live_devices devs k"
  shows "chain_ok (mark_deleted d devs) k x"
  using assms(1)
proof (rule chain_ok_other)
  show "chain_view (mark_deleted d devs) y = chain_view devs y" if "y \<in> live_devices devs k" for y
    using that assms(2) by (auto simp: chain_view_mark)
  show "live_devices (mark_deleted d devs) k = live_devices devs k"
    using assms(2) by (auto simp: set_eq_iff live_devices_view chain_view_mark split: if_splits option.splits)
qed

lemma live_devices_mark: "live_devices (mark_deleted d devs) k = live_devices devs k - {d}"
  by (auto simp: set_eq_iff live_devices_view chain_view_mark split: if_splits option.splits)

lemma next_of_mark: "next_of (mark_deleted d devs) = (next_of devs)(d := None)"
  by (intro ext) (auto simp: next_of_def mark_deleted_def split: bind_splits)

lemma chain_ok_delete_first:
  assumes c: "chain_ok devs k x" and d: "chain_view devs d = Some (Some k, False, nxt)" and first: "dr_first_device x = Some d"
  shows "chain_ok (mark_deleted d devs) k (x\<lparr>dr_first_device := nxt, dr_device_count := dr_device_count x - 1\<rparr>)"
  using c
proof (rule chain_okE)
  fix ds assume ds: "linked (next_of devs) (dr_first_device x) ds" "sorted_wrt (>) ds" "distinct ds" "set ds = live_devices devs k"
    "dr_device_count x = length ds"
  then obtain ys where ys: "ds = d # ys" using first by (cases ds) auto
  then have "linked (next_of devs) nxt ys" using ds(1) d by (simp add: next_of_view)
  then have "linked (next_of (mark_deleted d devs)) nxt ys"
    using ds(3) ys by (subst linked_cong [of ys _ "next_of devs"]) (auto simp: next_of_mark)
  moreover have "set ys = live_devices (mark_deleted d devs) k" using ds(3,4) ys by (auto simp: live_devices_mark)
  ultimately show ?thesis using ds(2,5) ys by (intro chain_okI) auto
qed

lemma chain_ok_delete_inner:
  assumes c: "chain_ok devs k x" and d: "chain_view devs d = Some (Some k, False, nxt)" and first: "dr_first_device x \<noteq> Some d"
  obtains p where "find_previous devs d (dr_first_device x) = Some (Some p)" "p \<in> live_devices devs k"
    "chain_ok (mark_deleted d (om_update p (\<lambda>e. e\<lparr>dv_next := nxt\<rparr>) devs)) k (x\<lparr>dr_device_count := dr_device_count x - 1\<rparr>)"
  using c
proof (rule chain_okE)
  fix ds assume ds: "linked (next_of devs) (dr_first_device x) ds" "sorted_wrt (>) ds" "distinct ds" "set ds = live_devices devs k"
    "dr_device_count x = length ds"
  have "d \<in> set ds" using d by (auto simp: ds(4) live_devices_view)
  from find_previous_linked [OF ds(1) this first] obtain xs p ys where
    p: "ds = xs @ p # d # ys" "find_previous devs d (dr_first_device x) = Some (Some p)" by blast
  have live: "p \<in> live_devices devs k" using p(1) ds(4) by (metis in_set_conv_decomp)
  let ?devs = "om_update p (\<lambda>e. e\<lparr>dv_next := nxt\<rparr>) devs"
  have "next_of (mark_deleted d ?devs) = (next_of devs)(p := next_of devs d, d := None)"
    using live d by (intro ext) (auto simp: next_of_mark next_of_view chain_view_next live_devices_view)
  then have "linked (next_of (mark_deleted d ?devs)) (dr_first_device x) (xs @ p # ys)"
    using linked_skip [of "next_of devs" "dr_first_device x" xs p d ys] ds(1,3) p(1) by simp
  moreover have "live_devices ?devs k = live_devices devs k"
    using live by (auto simp: set_eq_iff live_devices_view chain_view_next)
  then have "set (xs @ p # ys) = live_devices (mark_deleted d ?devs) k"
    using ds(3) ds(4) [symmetric] p(1) by (auto simp: live_devices_mark)
  moreover have "sorted_wrt (>) (xs @ p # ys)" using ds(2) p(1) by (auto simp: sorted_wrt_append)
  ultimately have "chain_ok (mark_deleted d ?devs) k (x\<lparr>dr_device_count := dr_device_count x - 1\<rparr>)"
    using ds(5) p(1) by (intro chain_okI [of _ _ "xs @ p # ys"]) auto
  with p(2) live show thesis by (rule that)
qed

lemma unlink_from_driver_chains:
  assumes chains: "\<And>k x. map_of drvs k = Some x \<Longrightarrow> chain_ok devs k x" and d: "chain_view devs d = Some (driver, False, nxt)"
  shows "\<exists>drvs' devs'. unlink_from_driver drvs devs driver nxt d = Some (drvs', devs') \<and>
    (\<forall>k x. map_of drvs' k = Some x \<longrightarrow> chain_ok (mark_deleted d devs') k x) \<and>
    dom (map_of drvs') = dom (map_of drvs) \<and> (devs' = devs \<or> (\<exists>p. devs' = om_update p (\<lambda>e. e\<lparr>dv_next := nxt\<rparr>) devs)) \<and>
    (drvs' = drvs \<or> (\<exists>k x. k \<in> dom (map_of drvs) \<and> drvs' = om_insert k x drvs))"
proof (cases "\<exists>k x. driver = Some k \<and> map_of drvs k = Some x")
  case False
  then have "unlink_from_driver drvs devs driver nxt d = Some (drvs, devs)" by (auto simp: unlink_from_driver_def split: option.split)
  moreover have "chain_ok (mark_deleted d devs) k x" if "map_of drvs k = Some x" for k x
    using False that chains d by (intro mark_deleted_other) (auto simp: live_devices_view)
  ultimately show ?thesis by blast
next
  case True
  then obtain k x where k: "driver = Some k" "map_of drvs k = Some x" by blast
  have away: "d \<notin> live_devices devs j" if "j \<noteq> k" for j using d k(1) that by (auto simp: live_devices_view)
  show ?thesis
  proof (cases "dr_first_device x = Some d")
    case True
    let ?x = "x\<lparr>dr_first_device := nxt, dr_device_count := dr_device_count x - 1\<rparr>"
    have "chain_ok (mark_deleted d devs) k ?x" using chain_ok_delete_first [OF chains [OF k(2)] d [unfolded k(1)] True] .
    then have "chain_ok (mark_deleted d devs) j y" if "map_of (om_insert k ?x drvs) j = Some y" for j y
      using that mark_deleted_other [OF chains away] by (auto split: if_splits)
    moreover have "unlink_from_driver drvs devs driver nxt d = Some (om_insert k ?x drvs, devs)" using k True by (simp add: unlink_from_driver_def)
    ultimately show ?thesis using k(2) by (intro exI [of _ "om_insert k ?x drvs"] exI [of _ devs]) auto
  next
    case False
    let ?x = "x\<lparr>dr_device_count := dr_device_count x - 1\<rparr>"
    obtain p where p: "find_previous devs d (dr_first_device x) = Some (Some p)" "p \<in> live_devices devs k"
      "chain_ok (mark_deleted d (om_update p (\<lambda>e. e\<lparr>dv_next := nxt\<rparr>) devs)) k ?x"
      using chain_ok_delete_inner [OF chains [OF k(2)] d [unfolded k(1)] False] by blast
    let ?devs = "om_update p (\<lambda>e. e\<lparr>dv_next := nxt\<rparr>) devs"
    have other: "chain_ok ?devs j y \<and> d \<notin> live_devices ?devs j" if "j \<noteq> k" "map_of drvs j = Some y" for j y
    proof -
      have same: "live_devices ?devs j = live_devices devs j" "p \<notin> live_devices devs j"
        using p(2) that(1) by (auto simp: set_eq_iff live_devices_view chain_view_next)
      then have "chain_ok ?devs j y" by (intro chain_ok_other [OF chains [OF that(2)]]) (auto simp: chain_view_next)
      with same away [OF that(1)] show ?thesis by simp
    qed
    have "chain_ok (mark_deleted d ?devs) j y" if "map_of (om_insert k ?x drvs) j = Some y" for j y
      using that p(3) other [of j y] by (auto split: if_splits intro: mark_deleted_other)
    moreover have "unlink_from_driver drvs devs driver nxt d = Some (om_insert k ?x drvs, ?devs)" using k False p(1) by (simp add: unlink_from_driver_def)
    ultimately show ?thesis using k(2) by (intro exI [of _ "om_insert k ?x drvs"] exI [of _ ?devs]) auto
  qed
qed


section \<open>Links of an updated table\<close>

lemma attached_of_update:
  "(\<And>e. dv_attached (f e) = dv_attached e) \<Longrightarrow> attached_of (om_update d f devs) = attached_of devs"
  "d \<in> dom (map_of devs) \<Longrightarrow> (\<And>e. dv_attached (f e) = v) \<Longrightarrow> attached_of (om_update d f devs) = (attached_of devs)(d := v)"
  by (intro ext; auto simp: attached_of_def split: bind_splits)+

lemma lower_of_update:
  "(\<And>e. dv_lower (f e) = dv_lower e) \<Longrightarrow> lower_of (om_update d f devs) = lower_of devs"
  "d \<in> dom (map_of devs) \<Longrightarrow> (\<And>e. dv_lower (f e) = v) \<Longrightarrow> lower_of (om_update d f devs) = (lower_of devs)(d := v)"
  by (intro ext; auto simp: lower_of_def split: bind_splits)+

lemma dom_update [simp]: "dom (map_of (om_update d f devs)) = dom (map_of devs)"
  by (auto simp: dom_def)

lemma link_simps:
  "d \<in> dom (map_of devs) \<Longrightarrow> attached_of (om_update d (\<lambda>e. e\<lparr>dv_attached := v\<rparr>) devs) = (attached_of devs)(d := v)"
  "attached_of (om_update d (\<lambda>e. e\<lparr>dv_lower := v\<rparr>) devs) = attached_of devs"
  "d \<in> dom (map_of devs) \<Longrightarrow> attached_of (om_update d (\<lambda>e. e\<lparr>dv_attached := v, dv_lower := w\<rparr>) devs) = (attached_of devs)(d := v)"
  "d \<in> dom (map_of devs) \<Longrightarrow> lower_of (om_update d (\<lambda>e. e\<lparr>dv_lower := v\<rparr>) devs) = (lower_of devs)(d := v)"
  "lower_of (om_update d (\<lambda>e. e\<lparr>dv_attached := v\<rparr>) devs) = lower_of devs"
  "d \<in> dom (map_of devs) \<Longrightarrow> lower_of (om_update d (\<lambda>e. e\<lparr>dv_attached := w, dv_lower := v\<rparr>) devs) = (lower_of devs)(d := v)"
  by (simp_all add: attached_of_update lower_of_update del: dom_map_of_conv_image_fst)

definition links_ok :: "device_table \<Rightarrow> bool" where
  "links_ok devs \<longleftrightarrow> stacked (attached_of devs) (lower_of devs) \<and>
     (\<forall>d e. map_of devs d = Some e \<longrightarrow> dv_deleted e \<longrightarrow> attached_of devs d = None \<and> lower_of devs d = None)"

lemma links_okD:
  assumes "links_ok devs"
  shows "stacked (attached_of devs) (lower_of devs)"
    "map_of devs d = Some e \<Longrightarrow> dv_deleted e \<Longrightarrow> attached_of devs d = None \<and> lower_of devs d = None"
    "attached_of devs d = Some u \<Longrightarrow> d \<in> dom (map_of devs) \<and> u \<in> dom (map_of devs)"
    "lower_of devs d = Some u \<Longrightarrow> d \<in> dom (map_of devs) \<and> u \<in> dom (map_of devs)"
proof -
  show s: "stacked (attached_of devs) (lower_of devs)" using assms by (simp add: links_ok_def)
  show "map_of devs d = Some e \<Longrightarrow> dv_deleted e \<Longrightarrow> attached_of devs d = None \<and> lower_of devs d = None"
    using assms by (simp add: links_ok_def)
  have up: "x \<in> dom (map_of devs)" if "attached_of devs x = Some y" for x y using that by (auto simp: attached_of_def bind_eq_Some_conv)
  have down: "x \<in> dom (map_of devs)" if "lower_of devs x = Some y" for x y using that by (auto simp: lower_of_def bind_eq_Some_conv)
  show "attached_of devs d = Some u \<Longrightarrow> d \<in> dom (map_of devs) \<and> u \<in> dom (map_of devs)"
    using up [of d u] down [of u d] stackedD [OF s, of d u] by blast
  show "lower_of devs d = Some u \<Longrightarrow> d \<in> dom (map_of devs) \<and> u \<in> dom (map_of devs)"
    using down [of d u] up [of u d] stackedD [OF s, of u d] by blast
qed

text \<open>Tables that differ in other fields have the same links.\<close>

lemma links_ok_cong:
  assumes "links_ok devs" "attached_of devs' = attached_of devs" "lower_of devs' = lower_of devs"
    "\<And>d e'. map_of devs' d = Some e' \<Longrightarrow> dv_deleted e' \<Longrightarrow> (\<exists>e. map_of devs d = Some e \<and> dv_deleted e) \<or> attached_of devs d = None \<and> lower_of devs d = None"
  shows "links_ok devs'"
  using assms unfolding links_ok_def by metis

lemma unlink_from_stack_links:
  assumes ok: "links_ok devs" and d: "d \<in> dom (map_of devs)"
  shows "attached_of (unlink_from_stack devs d) = bypass (lower_of devs) (attached_of devs) d"
    "lower_of (unlink_from_stack devs d) = bypass (attached_of devs) (lower_of devs) d"
    "dom (map_of (unlink_from_stack devs d)) = dom (map_of devs)"
proof -
  from d obtain e where e: "map_of devs d = Some e" by blast
  have links: "attached_of devs d = dv_attached e" "lower_of devs d = dv_lower e" by (simp_all add: attached_of_def lower_of_def e)
  have u: "u \<in> dom (map_of devs)" if "dv_attached e = Some u" for u using links_okD(3) [OF ok, of d u] that links by simp
  have l: "l \<in> dom (map_of devs)" if "dv_lower e = Some l" for l using links_okD(4) [OF ok, of d l] that links by simp
  show "attached_of (unlink_from_stack devs d) = bypass (lower_of devs) (attached_of devs) d"
    using d u l by (cases "dv_attached e"; cases "dv_lower e") (simp_all add: unlink_from_stack_def e bypass_def links link_simps del: om_get_update)
  show "lower_of (unlink_from_stack devs d) = bypass (attached_of devs) (lower_of devs) d"
    using d u l by (cases "dv_attached e"; cases "dv_lower e") (simp_all add: unlink_from_stack_def e bypass_def links link_simps del: om_get_update)
  show "dom (map_of (unlink_from_stack devs d)) = dom (map_of devs)" by (simp add: unlink_from_stack_def Let_def del: om_get_update split: option.split)
qed

lemma unlink_from_stack_deleted:
  "map_of (unlink_from_stack devs d) x = Some e' \<Longrightarrow> \<exists>e. map_of devs x = Some e \<and> dv_deleted e' = dv_deleted e \<and> dv_driver e' = dv_driver e"
proof -
  assume "map_of (unlink_from_stack devs d) x = Some e'"
  then have "chain_view (unlink_from_stack devs d) x = Some (dv_driver e', dv_deleted e', dv_next e')"
    by (simp add: chain_view_def del: chain_view_unlink)
  then have "chain_view devs x = Some (dv_driver e', dv_deleted e', dv_next e')" by (simp only: chain_view_unlink)
  then show ?thesis by (auto simp: chain_view_def)
qed

text \<open>A device that was taken out of its stack has no links, and no other device gained a link to nothing.\<close>

lemma unlink_from_stack_ok:
  assumes ok: "links_ok devs" and d: "d \<in> dom (map_of devs)"
  shows "links_ok (unlink_from_stack devs d)"
    "attached_of (unlink_from_stack devs d) d = None" "lower_of (unlink_from_stack devs d) d = None"
proof -
  note u = unlink_from_stack_links [OF assms]
  note s = links_okD(1) [OF ok]
  show a: "attached_of (unlink_from_stack devs d) d = None" "lower_of (unlink_from_stack devs d) d = None"
    by (simp_all add: u bypass_def)
  have "attached_of (unlink_from_stack devs d) x = None \<and> lower_of (unlink_from_stack devs d) x = None"
    if "map_of (unlink_from_stack devs d) x = Some e'" "dv_deleted e'" for x e'
  proof -
    from unlink_from_stack_deleted [OF that(1)] that(2) obtain e where "map_of devs x = Some e" "dv_deleted e" by blast
    then have n: "attached_of devs x = None" "lower_of devs x = None" using links_okD(2) [OF ok] by blast+
    then have "attached_of devs d \<noteq> Some x" "lower_of devs d \<noteq> Some x" using stackedD [OF s, of d x] stackedD [OF s, of x d] by auto
    with n show ?thesis unfolding u by (auto simp: bypass_def split: option.split)
  qed
  with stacked_bypass [OF s, of d] show "links_ok (unlink_from_stack devs d)" unfolding links_ok_def u by blast
qed

end
