(* ===== verification/Io_Port.thy ===== *)
theory Io_Port
  imports Status
begin

text \<open>
  The I/O completion port of \<open>src/src/casak/io.rs\<close>. The clones of a port share one state behind its lock, and each operation
  holds the lock while it changes the packets and the counters. The blocking \<open>dequeue\<close> is a loop over the wake-ups of the waiting thread:
  a wake-up is given by the reading of the clock before the wait and by what the other threads did to the port while the
  lock was released; \<open>None\<close> means that the thread still waits after the last wake-up. The counters are \<open>u64\<close> and unbounded here.
  Instants are natural numbers: the panic of \<open>Instant::now() + timeout\<close> for a sum that the platform's clock cannot represent is not modelled.
\<close>

section \<open>The port\<close>

record completion_packet =
  pk_key :: nat
  pk_status :: nt_status
  pk_information :: nat
  pk_bytes :: "u8 list"

definition packet_new :: "nat \<Rightarrow> nt_status \<Rightarrow> nat \<Rightarrow> completion_packet" where
  "packet_new key status information = \<lparr>pk_key = key, pk_status = status, pk_information = information, pk_bytes = []\<rparr>"

definition with_bytes :: "completion_packet \<Rightarrow> u8 list \<Rightarrow> completion_packet" where
  "with_bytes p bytes = p\<lparr>pk_bytes := bytes\<rparr>"

record port_inner =
  cp_packets :: "completion_packet list"
  cp_closed :: bool
  cp_queue_depth :: nat
  cp_posted :: nat
  cp_delivered :: nat
  cp_dropped :: nat

definition port_inner_new :: "nat \<Rightarrow> port_inner" where
  "port_inner_new queue_depth = \<lparr>cp_packets = [], cp_closed = False, cp_queue_depth = queue_depth, cp_posted = 0, cp_delivered = 0, cp_dropped = 0\<rparr>"

definition cp_post :: "port_inner \<Rightarrow> completion_packet \<Rightarrow> unit res \<times> port_inner" where
  "cp_post p packet =
     (if cp_closed p then (Err STATUS_INVALID_HANDLE, p)
      else (Ok (), p\<lparr>cp_packets := cp_packets p @ [packet], cp_posted := cp_posted p + 1\<rparr>))"

definition try_dequeue :: "port_inner \<Rightarrow> completion_packet option \<times> port_inner" where
  "try_dequeue p = (case cp_packets p of
      [] \<Rightarrow> (None, p)
    | packet # rest \<Rightarrow> (Some packet, p\<lparr>cp_packets := rest, cp_delivered := cp_delivered p + 1\<rparr>))"

text \<open>What \<open>dequeue\<close> does each time it holds the lock, before it looks at the clock.\<close>

definition dequeue_attempt :: "port_inner \<Rightarrow> (completion_packet res \<times> port_inner) option" where
  "dequeue_attempt p = (case cp_packets p of
      packet # rest \<Rightarrow> Some (Ok packet, p\<lparr>cp_packets := rest, cp_delivered := cp_delivered p + 1\<rparr>)
    | [] \<Rightarrow> if cp_closed p then Some (Err STATUS_CANCELLED, p) else None)"

fun dequeue_loop :: "nat \<Rightarrow> (nat \<times> (port_inner \<Rightarrow> port_inner)) list \<Rightarrow> port_inner \<Rightarrow> (completion_packet res \<times> port_inner) option" where
  "dequeue_loop deadline [] p = dequeue_attempt p"
| "dequeue_loop deadline ((now, others) # wakes) p =
     (case dequeue_attempt p of
        Some r \<Rightarrow> Some r
      | None \<Rightarrow> if now \<ge> deadline then Some (Err STATUS_TIMEOUT, p) else dequeue_loop deadline wakes (others p))"

definition dequeue :: "nat \<Rightarrow> nat \<Rightarrow> (nat \<times> (port_inner \<Rightarrow> port_inner)) list \<Rightarrow> port_inner \<Rightarrow> (completion_packet res \<times> port_inner) option" where
  "dequeue start timeout wakes p = dequeue_loop (start + timeout) wakes p"

definition cp_close :: "port_inner \<Rightarrow> nat \<times> port_inner" where
  "cp_close p =
     (if cp_closed p then (0, p)
      else let dropped = length (cp_packets p)
           in (dropped, p\<lparr>cp_closed := True, cp_packets := [], cp_dropped := cp_dropped p + dropped\<rparr>))"

definition cp_pending_count :: "port_inner \<Rightarrow> nat" where
  "cp_pending_count p = length (cp_packets p)"

section \<open>Histories\<close>

text \<open>
  A history is the port, the packets whose post succeeded and the packets that were handed to a receiver, both oldest first.
\<close>

inductive cport_step :: "port_inner \<times> completion_packet list \<times> completion_packet list \<Rightarrow>
    port_inner \<times> completion_packet list \<times> completion_packet list \<Rightarrow> bool" where
  post: "cp_post p x = (r, p') \<Longrightarrow> cport_step (p, ps, ds) (p', if r = Ok () then ps @ [x] else ps, ds)"
| poll: "try_dequeue p = (r, p') \<Longrightarrow> cport_step (p, ps, ds) (p', ps, case r of None \<Rightarrow> ds | Some x \<Rightarrow> ds @ [x])"
| attempt: "dequeue_attempt p = Some (r, p') \<Longrightarrow> cport_step (p, ps, ds) (p', ps, case r of Ok x \<Rightarrow> ds @ [x] | _ \<Rightarrow> ds)"
| close: "cp_close p = (n, p') \<Longrightarrow> cport_step (p, ps, ds) (p', ps, ds)"

definition history_ok :: "port_inner \<times> completion_packet list \<times> completion_packet list \<Rightarrow> bool" where
  "history_ok h = (case h of (p, ps, ds) \<Rightarrow>
     (\<exists>lost. ps = ds @ lost @ cp_packets p \<and> length lost = cp_dropped p \<and> (lost \<noteq> [] \<longrightarrow> cp_closed p)) \<and>
     cp_posted p = length ps \<and> cp_delivered p = length ds \<and> (cp_closed p \<longrightarrow> cp_packets p = []))"

lemma history_okI:
  "ps = ds @ lost @ cp_packets p \<Longrightarrow> length lost = cp_dropped p \<Longrightarrow> (lost \<noteq> [] \<Longrightarrow> cp_closed p) \<Longrightarrow>
   cp_posted p = length ps \<Longrightarrow> cp_delivered p = length ds \<Longrightarrow> (cp_closed p \<Longrightarrow> cp_packets p = []) \<Longrightarrow> history_ok (p, ps, ds)"
  by (auto simp: history_ok_def)

lemma history_okE:
  assumes "history_ok (p, ps, ds)"
  obtains lost where "ps = ds @ lost @ cp_packets p" "length lost = cp_dropped p" "lost \<noteq> [] \<longrightarrow> cp_closed p"
    "cp_posted p = length ps" "cp_delivered p = length ds" "cp_closed p \<longrightarrow> cp_packets p = []"
  using assms by (auto simp: history_ok_def)

text \<open>Taking the front packet of a port that still has one.\<close>

lemma history_take:
  assumes "history_ok (p, ps, ds)" "cp_packets p = x # rest"
  shows "history_ok (p\<lparr>cp_packets := rest, cp_delivered := cp_delivered p + 1\<rparr>, ps, ds @ [x])"
  using assms(1)
proof (rule history_okE)
  fix lost assume "ps = ds @ lost @ cp_packets p" "length lost = cp_dropped p" "lost \<noteq> [] \<longrightarrow> cp_closed p"
    "cp_posted p = length ps" "cp_delivered p = length ds" "cp_closed p \<longrightarrow> cp_packets p = []"
  with assms(2) show ?thesis by (intro history_okI [of _ _ "[]"]) auto
qed

lemma cport_step_history: "cport_step h h' \<Longrightarrow> history_ok h \<Longrightarrow> history_ok h'"
proof (induction rule: cport_step.induct)
  case (post p x r p' ps ds)
  from post(2) show ?case
  proof (rule history_okE)
    fix lost assume "ps = ds @ lost @ cp_packets p" "length lost = cp_dropped p" "lost \<noteq> [] \<longrightarrow> cp_closed p"
      "cp_posted p = length ps" "cp_delivered p = length ds" "cp_closed p \<longrightarrow> cp_packets p = []"
    with post(1) show ?thesis by (intro history_okI [of _ _ lost]) (auto simp: cp_post_def split: if_splits)
  qed
next
  case (poll p r p' ps ds)
  then show ?case by (cases "cp_packets p") (auto simp: try_dequeue_def dest: history_take)
next
  case (attempt p r p' ps ds)
  then show ?case by (cases "cp_packets p") (auto simp: dequeue_attempt_def dest: history_take split: if_splits)
next
  case (close p n p' ps ds)
  from close(2) show ?case
  proof (rule history_okE)
    fix lost assume "ps = ds @ lost @ cp_packets p" "length lost = cp_dropped p" "lost \<noteq> [] \<longrightarrow> cp_closed p"
      "cp_posted p = length ps" "cp_delivered p = length ds" "cp_closed p \<longrightarrow> cp_packets p = []"
    with close(1) show ?thesis
      by (intro history_okI [of _ _ "lost @ cp_packets p"]) (auto simp: cp_close_def Let_def split: if_splits)
  qed
qed

interpretation cport: invariant_system "\<lambda>h. \<exists>depth. h = (port_inner_new depth, [], [])" cport_step history_ok
proof
  show "history_ok h" if "\<exists>depth. h = (port_inner_new depth, [], [])" for h
    using that by (auto simp: port_inner_new_def history_ok_def)
qed (rule cport_step_history)

text \<open>
  A blocked receiver is a sequence of such steps: whatever the other threads do between its wake-ups, its result is one attempt on a
  port that was reached by steps, or a timeout.
\<close>

lemma dequeue_loop_steps:
  assumes "dequeue_loop deadline wakes p = Some (r, p')"
    "\<And>now others q ps ds. (now, others) \<in> set wakes \<Longrightarrow> \<exists>ps' ds'. cport_step\<^sup>*\<^sup>* (q, ps, ds) (others q, ps', ds')"
  shows "\<exists>ps' ds'. cport_step\<^sup>*\<^sup>* (p, ps, ds) (p', ps', case r of Ok x \<Rightarrow> ds' @ [x] | _ \<Rightarrow> ds')"
  using assms
proof (induction wakes arbitrary: p ps ds)
  case Nil
  then have "cport_step (p, ps, ds) (p', ps, case r of Ok x \<Rightarrow> ds @ [x] | _ \<Rightarrow> ds)" by (intro cport_step.attempt) simp
  then show ?case by blast
next
  case (Cons w wakes)
  obtain now others where w: "w = (now, others)" by (cases w)
  show ?case
  proof (cases "dequeue_attempt p")
    case None
    show ?thesis
    proof (cases "now \<ge> deadline")
      case True
      with Cons.prems(1) None w have "r = Err STATUS_TIMEOUT" "p' = p" by auto
      then show ?thesis by (intro exI [of _ ps] exI [of _ ds]) simp
    next
      case False
      obtain ps1 ds1 where first: "cport_step\<^sup>*\<^sup>* (p, ps, ds) (others p, ps1, ds1)" using Cons.prems(2) [of now others p ps ds] w by auto
      have "dequeue_loop deadline wakes (others p) = Some (r, p')" using Cons.prems(1) None False w by simp
      then obtain ps' ds' where "cport_step\<^sup>*\<^sup>* (others p, ps1, ds1) (p', ps', case r of Ok x \<Rightarrow> ds' @ [x] | _ \<Rightarrow> ds')"
        using Cons.IH [of "others p" ps1 ds1] Cons.prems(2) by (meson list.set_intros(2))
      with first show ?thesis by (meson rtranclp_trans)
    qed
  next
    case (Some a)
    with Cons.prems(1) w have "dequeue_attempt p = Some (r, p')" by simp
    then have "cport_step (p, ps, ds) (p', ps, case r of Ok x \<Rightarrow> ds @ [x] | _ \<Rightarrow> ds)" by (rule cport_step.attempt)
    then show ?thesis by blast
  qed
qed

section \<open>Properties\<close>

text \<open>
  C40. A completion port is first in, first out and delivers exactly once: after any sequence of posts, receives and closes by its clones,
  the packets whose post succeeded are the delivered ones, then those the close dropped, then those that wait, in that order; the counters
  are the lengths, a packet is lost only by a close, and a packet that waits goes next to a receiver.
\<close>
theorem port_fifo_exactly_once:
  assumes "cport_step\<^sup>*\<^sup>* (port_inner_new depth, [], []) (p, posted, delivered)"
  shows "\<exists>lost. posted = delivered @ lost @ cp_packets p \<and>
    cp_posted p = length posted \<and> cp_delivered p = length delivered \<and> cp_dropped p = length lost \<and>
    cp_posted p = cp_delivered p + cp_dropped p + cp_pending_count p \<and>
    (lost \<noteq> [] \<longrightarrow> cp_closed p \<and> cp_packets p = []) \<and>
    (\<not> cp_closed p \<longrightarrow> fst (try_dequeue p) = (if length delivered < length posted then Some (posted ! length delivered) else None))"
proof -
  have "history_ok (p, posted, delivered)" using cport.reachable_inv [OF _ assms] by blast
  then show ?thesis
  proof (rule history_okE)
    fix lost assume l: "posted = delivered @ lost @ cp_packets p" "length lost = cp_dropped p" "lost \<noteq> [] \<longrightarrow> cp_closed p"
      "cp_posted p = length posted" "cp_delivered p = length delivered" "cp_closed p \<longrightarrow> cp_packets p = []"
    have "fst (try_dequeue p) = (if length delivered < length posted then Some (posted ! length delivered) else None)" if "\<not> cp_closed p"
      using l(1,3) that by (cases "cp_packets p") (auto simp: try_dequeue_def)
    with l show ?thesis by (intro exI [of _ lost]) (simp add: cp_pending_count_def)
  qed
qed

definition demo_cport :: "port_inner" where
  "demo_cport = snd (try_dequeue (snd (cp_post (snd (cp_post (port_inner_new 4) (packet_new 1 0 10))) (packet_new 2 0 20))))"

lemma demo_cport_steps:
  "cport_step\<^sup>*\<^sup>* (port_inner_new 4, [], []) (demo_cport, [packet_new 1 0 10, packet_new 2 0 20], [packet_new 1 0 10])"
proof -
  let ?p1 = "snd (cp_post (port_inner_new 4) (packet_new 1 0 10))"
  let ?p2 = "snd (cp_post ?p1 (packet_new 2 0 20))"
  have "cport_step (port_inner_new 4, [], []) (?p1, [packet_new 1 0 10], [])"
    using cport_step.post [of "port_inner_new 4" "packet_new 1 0 10" "Ok ()" ?p1 "[]" "[]"] by (simp add: cp_post_def port_inner_new_def)
  moreover have "cport_step (?p1, [packet_new 1 0 10], []) (?p2, [packet_new 1 0 10, packet_new 2 0 20], [])"
    using cport_step.post [of ?p1 "packet_new 2 0 20" "Ok ()" ?p2 "[packet_new 1 0 10]" "[]"] by (simp add: cp_post_def port_inner_new_def)
  moreover have "cport_step (?p2, [packet_new 1 0 10, packet_new 2 0 20], []) (demo_cport, [packet_new 1 0 10, packet_new 2 0 20], [packet_new 1 0 10])"
    using cport_step.poll [of ?p2 "Some (packet_new 1 0 10)" demo_cport "[packet_new 1 0 10, packet_new 2 0 20]" "[]"]
    by (simp add: demo_cport_def try_dequeue_def cp_post_def port_inner_new_def)
  ultimately show ?thesis by (meson rtranclp.rtrancl_into_rtrancl rtranclp.rtrancl_refl)
qed

theorem port_fifo_exactly_once_witness: "cp_posted demo_cport = 2 \<and> fst (try_dequeue demo_cport) = Some (packet_new 2 0 20)"
proof -
  have "\<not> cp_closed demo_cport" by (simp add: demo_cport_def try_dequeue_def cp_post_def port_inner_new_def)
  with port_fifo_exactly_once [OF demo_cport_steps] show ?thesis by auto
qed

end
