(* ===== verification/Io_Manager.thy ===== *)
theory Io_Manager
  imports Object_Manager Io_Device Io_Port "HOL-Library.Product_Lexorder"
begin

text \<open>
  The I/O manager of \<open>src/src/casak/io.rs\<close>: drivers, devices, requests and completion ports on top of one object manager. The ports are
  shared with the clones that clients hold, so their states are in a store and the manager keeps the numbers of the live ones;
  a port has the number of its object. An operation that walks links is partial: \<open>None\<close> means that it never returns. A step
  of the manager is one of its operations, an operation on its object manager, or an atomic step that a clone of the
  request core or of a port takes on another thread.
\<close>

section \<open>Operations\<close>

record 'c io_manager =
  io_objects :: object_manager
  io_drivers :: "(nat, driver_object) omap"
  io_devices :: device_table
  io_irps :: "'c irp_core"
  io_ports :: "(nat, nat) omap"
  io_store :: "(nat, port_inner) omap"
  io_bindings :: "(nat \<times> nat, nat \<times> nat) omap"

definition io_manager_new :: "'c io_manager" where
  "io_manager_new = \<lparr>io_objects = object_manager_new, io_drivers = [], io_devices = [], io_irps = irp_core_new, io_ports = [],
     io_store = [], io_bindings = []\<rparr>"

definition driver_count :: "'c io_manager \<Rightarrow> nat" where "driver_count m = length (io_drivers m)"

definition io_device_count :: "'c io_manager \<Rightarrow> nat" where "io_device_count m = length (io_devices m)"

definition driver_path :: "string \<Rightarrow> string" where "driver_path name = backslash # ''Driver'' @ backslash # name"

definition device_path :: "string \<Rightarrow> string" where "device_path name = backslash # ''Device'' @ backslash # name"

definition create_driver :: "'c io_manager \<Rightarrow> string \<Rightarrow> device_extension \<Rightarrow> nat res \<times> 'c io_manager" where
  "create_driver m name extension =
     (case create_object (io_objects m) TDriver (PDriver \<lparr>dr_driver_name = name, dr_loaded = True\<rparr>)
        (Some (driver_path name)) of (r, objs) \<Rightarrow>
      attempt r (m\<lparr>io_objects := objs\<rparr>) (\<lambda>i.
        (Ok i, m\<lparr>io_objects := objs, io_drivers := om_insert i \<lparr>dr_name = name, dr_extension = extension, dr_first_device = None,
           dr_device_count = 0\<rparr> (io_drivers m)\<rparr>)))"

definition io_driver :: "'c io_manager \<Rightarrow> nat \<Rightarrow> driver_object res" where
  "io_driver m k = ok_or (map_of (io_drivers m) k) STATUS_INVALID_HANDLE"

definition driver_devices :: "'c io_manager \<Rightarrow> nat \<Rightarrow> nat list res option" where
  "driver_devices m k = (case map_of (io_drivers m) k of
      None \<Rightarrow> Some (Err STATUS_INVALID_HANDLE)
    | Some x \<Rightarrow> map_option Ok (chain_loop (io_devices m) (dr_first_device x) []))"

definition driver_device_count :: "'c io_manager \<Rightarrow> nat \<Rightarrow> nat res" where
  "driver_device_count m k = rbind (io_driver m k) (\<lambda>x. Ok (dr_device_count x))"

definition create_device :: "'c io_manager \<Rightarrow> nat \<Rightarrow> string option \<Rightarrow> device_extension \<Rightarrow> device_flags \<Rightarrow> nat res \<times> 'c io_manager" where
  "create_device m driver name extension flags = (case map_of (io_drivers m) driver of
      None \<Rightarrow> (Err STATUS_INVALID_HANDLE, m)
    | Some x \<Rightarrow>
        (case create_object (io_objects m) TDevice (PDevice \<lparr>dp_device_name = (case name of None \<Rightarrow> [] | Some n \<Rightarrow> n)\<rparr>)
           (map_option device_path name) of (r, objs) \<Rightarrow>
         attempt r (m\<lparr>io_objects := objs\<rparr>) (\<lambda>i.
           (Ok i, m\<lparr>io_objects := objs,
              io_drivers := om_insert driver (x\<lparr>dr_first_device := Some i, dr_device_count := dr_device_count x + 1\<rparr>) (io_drivers m),
              io_devices := om_insert i \<lparr>dv_name = name, dv_driver = Some driver, dv_extension = extension, dv_flags = flags, dv_deleted = False,
                dv_attached = None, dv_lower = None, dv_next = dr_first_device x\<rparr> (io_devices m)\<rparr>))))"

definition io_device :: "'c io_manager \<Rightarrow> nat \<Rightarrow> device_object res" where
  "io_device m d = ok_or (map_of (io_devices m) d) STATUS_INVALID_HANDLE"

definition io_device_driver :: "'c io_manager \<Rightarrow> nat \<Rightarrow> nat option res" where
  "io_device_driver m d = rbind (io_device m d) (\<lambda>e. Ok (dv_driver e))"

definition io_device_flags :: "'c io_manager \<Rightarrow> nat \<Rightarrow> device_flags res" where
  "io_device_flags m d = rbind (io_device m d) (\<lambda>e. Ok (dv_flags e))"

definition set_device_flags :: "'c io_manager \<Rightarrow> nat \<Rightarrow> device_flags \<Rightarrow> unit res \<times> 'c io_manager" where
  "set_device_flags m d flags = attempt (io_device m d) m (\<lambda>_.
     (Ok (), m\<lparr>io_devices := om_update d (\<lambda>e. e\<lparr>dv_flags := flags\<rparr>) (io_devices m)\<rparr>))"

definition io_device_extension :: "'c io_manager \<Rightarrow> nat \<Rightarrow> device_extension res" where
  "io_device_extension m d = rbind (io_device m d) (\<lambda>e. Ok (dv_extension e))"

definition set_device_extension :: "'c io_manager \<Rightarrow> nat \<Rightarrow> device_extension \<Rightarrow> unit res \<times> 'c io_manager" where
  "set_device_extension m d extension = attempt (io_device m d) m (\<lambda>_.
     (Ok (), m\<lparr>io_devices := om_update d (\<lambda>e. e\<lparr>dv_extension := extension\<rparr>) (io_devices m)\<rparr>))"

definition top_of_stack :: "'c io_manager \<Rightarrow> nat \<Rightarrow> nat res option" where
  "top_of_stack m d = stack_walk dv_attached (io_devices m) d d"

definition bottom_of_stack :: "'c io_manager \<Rightarrow> nat \<Rightarrow> nat res option" where
  "bottom_of_stack m d = stack_walk dv_lower (io_devices m) d d"

definition usable_device :: "'c io_manager \<Rightarrow> nat \<Rightarrow> device_object res" where
  "usable_device m d = (case map_of (io_devices m) d of
      None \<Rightarrow> Err STATUS_INVALID_HANDLE
    | Some e \<Rightarrow> if dv_deleted e then Err STATUS_DELETE_PENDING else Ok e)"

definition attach_device :: "'c io_manager \<Rightarrow> nat \<Rightarrow> nat \<Rightarrow> (nat res \<times> 'c io_manager) option" where
  "attach_device m d target =
     (if d = target then Some (Err STATUS_INVALID_PARAMETER, m)
      else map_option (\<lambda>walk. attempt walk m (\<lambda>top.
        attempt (usable_device m target) m (\<lambda>_.
        attempt (usable_device m d) m (\<lambda>e.
          if dv_attached e \<noteq> None \<or> dv_lower e \<noteq> None then (Err STATUS_DEVICE_ALREADY_ATTACHED, m)
          else (Ok top, m\<lparr>io_devices := om_update top (\<lambda>e. e\<lparr>dv_attached := Some d\<rparr>)
                 (om_update d (\<lambda>e. e\<lparr>dv_lower := Some top\<rparr>) (io_devices m))\<rparr>))))) (top_of_stack m target))"

definition detach_device :: "'c io_manager \<Rightarrow> nat \<Rightarrow> nat res \<times> 'c io_manager" where
  "detach_device m target = attempt (io_device m target) m (\<lambda>e.
     attempt (ok_or (dv_attached e) STATUS_INVALID_DEVICE_REQUEST) m (\<lambda>detached.
       (Ok detached, m\<lparr>io_devices := om_update target (\<lambda>e. e\<lparr>dv_attached := None\<rparr>)
          (om_update detached (\<lambda>e. e\<lparr>dv_lower := None\<rparr>) (io_devices m))\<rparr>)))"

definition next_lower_device :: "'c io_manager \<Rightarrow> nat \<Rightarrow> nat option res" where
  "next_lower_device m d = rbind (io_device m d) (\<lambda>e. Ok (dv_lower e))"

definition next_attached_device :: "'c io_manager \<Rightarrow> nat \<Rightarrow> nat option res" where
  "next_attached_device m d = rbind (io_device m d) (\<lambda>e. Ok (dv_attached e))"

definition stack_devices :: "'c io_manager \<Rightarrow> nat \<Rightarrow> nat list res" where
  "stack_devices m d = stack_loop (io_devices m) d [d]"

definition delete_device :: "'c completion_call \<Rightarrow> 'c io_manager \<Rightarrow> nat \<Rightarrow> (unit res \<times> 'c io_manager) option" where
  "delete_device call m d = (case usable_device m d of
      Err status \<Rightarrow> Some (Err status, m)
    | Panic \<Rightarrow> Some (Panic, m)
    | Ok e \<Rightarrow>
        map_option (\<lambda>(drvs, devs).
          let devs' = om_update d (\<lambda>e. e\<lparr>dv_deleted := True, dv_next := None\<rparr>) devs;
              core = snd (cancel_pending_for_device call (io_irps m) d);
              (r, objs) = release_object (io_objects m) d
          in (rbind r (\<lambda>_. Ok ()), m\<lparr>io_drivers := drvs, io_devices := devs', io_irps := core, io_objects := objs\<rparr>))
        (unlink_from_driver (io_drivers m) (unlink_from_stack (io_devices m) d) (dv_driver e) (dv_next e) d))"

fun initial_parameters :: "irp_major \<Rightarrow> nat \<Rightarrow> stack_parameters" where
  "initial_parameters MjRead len = SpReadWrite len 0"
| "initial_parameters MjWrite len = SpReadWrite len 0"
| "initial_parameters MjDeviceControl len = SpDeviceControl 0 len 0 0"
| "initial_parameters MjCreate len = SpCreate 0 0"
| "initial_parameters MjClose len = SpClose"
| "initial_parameters _ len = SpNone"

definition initial_location :: "irp_parameter_block \<Rightarrow> nat \<Rightarrow> 'c io_stack_location" where
  "initial_location b d = \<lparr>sl_device = d, sl_major = pb_major b, sl_minor = pb_minor b,
     sl_parameters = initial_parameters (pb_major b) (pb_length b), sl_completion = None\<rparr>"

definition allocate_irp :: "'c io_manager \<Rightarrow> nat \<Rightarrow> irp_parameter_block \<Rightarrow> nat res \<times> 'c io_manager" where
  "allocate_irp m target b = attempt (usable_device m target) m (\<lambda>_. attempt (stack_devices m target) m (\<lambda>chain.
     (case irp_insert (io_irps m) b (map (initial_location b) chain) of (i, core) \<Rightarrow> (Ok i, m\<lparr>io_irps := core\<rparr>))))"

text \<open>The result of an operation of the request core, as an operation of the manager.\<close>

definition on_core :: "'c io_manager \<Rightarrow> 'r \<times> 'c irp_core \<Rightarrow> 'r \<times> 'c io_manager" where
  "on_core m x = (case x of (r, core) \<Rightarrow> (r, m\<lparr>io_irps := core\<rparr>))"

definition queue_irp :: "'c io_manager \<Rightarrow> nat \<Rightarrow> nat \<Rightarrow> unit res \<times> 'c io_manager" where
  "queue_irp m d i = attempt (usable_device m d) m (\<lambda>_. on_core m (irp_queue (io_irps m) d i))"

definition pending_irps :: "'c io_manager \<Rightarrow> nat \<Rightarrow> nat list res" where
  "pending_irps m d = rbind (io_device m d) (\<lambda>_. Ok (queue_of (io_irps m) d))"

definition complete_irp :: "'c completion_call \<Rightarrow> 'c io_manager \<Rightarrow> nat \<Rightarrow> nt_status \<Rightarrow> nat \<Rightarrow> nt_status res \<times> 'c io_manager" where
  "complete_irp call m i status information = on_core m (irp_complete call (io_irps m) i status information)"

definition cancel_irp :: "'c completion_call \<Rightarrow> 'c io_manager \<Rightarrow> nat \<Rightarrow> nt_status res \<times> 'c io_manager" where
  "cancel_irp call m i = on_core m (irp_cancel call (io_irps m) i)"

record synchronous_io_result =
  sr_irp :: nat
  sr_status :: nt_status
  sr_information :: nat

definition synchronous_outcome :: "irp_parameter_block \<Rightarrow> nt_status \<times> nat" where
  "synchronous_outcome b = (case block_validate b of Err error \<Rightarrow> (error, 0) | _ \<Rightarrow> (STATUS_SUCCESS, pb_length b))"

definition send_synchronous :: "'c completion_call \<Rightarrow> 'c io_manager \<Rightarrow> nat \<Rightarrow> irp_parameter_block \<Rightarrow> synchronous_io_result res \<times> 'c io_manager" where
  "send_synchronous call m d b = (case allocate_irp m d b of (r, m1) \<Rightarrow>
     attempt r m1 (\<lambda>i. attempt (irp_parameters (io_irps m1) i) m1 (\<lambda>entry.
       (case synchronous_outcome entry of (status, information) \<Rightarrow>
          (case complete_irp call m1 i status information of (r2, m2) \<Rightarrow>
             attempt r2 m2 (\<lambda>final. (Ok \<lparr>sr_irp = i, sr_status = final, sr_information = information\<rparr>, m2)))))))"

definition irp_stack_devices :: "'c io_manager \<Rightarrow> nat \<Rightarrow> nat list res" where
  "irp_stack_devices m i = rbind (irp_stack_view (io_irps m) i) (\<lambda>vs. Ok (map sv_device vs))"

definition create_completion_port :: "'c io_manager \<Rightarrow> string option \<Rightarrow> nat \<Rightarrow> nat res \<times> 'c io_manager" where
  "create_completion_port m name queue_depth =
     (case create_object (io_objects m) TIoCompletion (PIoCompletion \<lparr>io_queue_depth = queue_depth, io_pending = 0\<rparr>) name of (r, objs) \<Rightarrow>
      attempt r (m\<lparr>io_objects := objs\<rparr>) (\<lambda>i.
        (Ok i, m\<lparr>io_objects := objs, io_ports := om_insert i i (io_ports m), io_store := om_insert i (port_inner_new queue_depth) (io_store m)\<rparr>)))"

definition completion_port :: "'c io_manager \<Rightarrow> nat \<Rightarrow> nat res" where
  "completion_port m i = ok_or (map_of (io_ports m) i) STATUS_INVALID_HANDLE"

definition io_port_count :: "'c io_manager \<Rightarrow> nat" where "io_port_count m = length (io_ports m)"

definition port_of :: "'c io_manager \<Rightarrow> nat \<Rightarrow> port_inner res" where
  "port_of m i = ok_or (Option.bind (map_of (io_ports m) i) (map_of (io_store m))) STATUS_INVALID_HANDLE"

definition bind_completion_port :: "'c io_manager \<Rightarrow> nat \<Rightarrow> nat \<Rightarrow> nat \<Rightarrow> nat \<Rightarrow> unit res \<times> 'c io_manager" where
  "bind_completion_port m i process handle key = attempt (port_of m i) m (\<lambda>p.
     if cp_closed p then (Err STATUS_INVALID_HANDLE, m)
     else attempt (lookup_handle (io_objects m) process handle) m (\<lambda>_.
       (Ok (), m\<lparr>io_bindings := om_insert (process, handle) (i, key) (io_bindings m)\<rparr>)))"

definition unbind_completion_port :: "'c io_manager \<Rightarrow> nat \<Rightarrow> nat \<Rightarrow> (nat \<times> nat) option \<times> 'c io_manager" where
  "unbind_completion_port m process handle =
     (map_of (io_bindings m) (process, handle), m\<lparr>io_bindings := om_remove (process, handle) (io_bindings m)\<rparr>)"

definition bound_completion_key :: "'c io_manager \<Rightarrow> nat \<Rightarrow> nat \<Rightarrow> nat option" where
  "bound_completion_key m process handle = map_option snd (map_of (io_bindings m) (process, handle))"

definition bound_port :: "'c io_manager \<Rightarrow> nat \<Rightarrow> nat \<Rightarrow> nat option" where
  "bound_port m process handle = map_option fst (map_of (io_bindings m) (process, handle))"

definition port_bindings :: "'c io_manager \<Rightarrow> nat \<Rightarrow> (nat \<times> nat \<times> nat) list" where
  "port_bindings m i = map (\<lambda>((process, handle), (_, key)). (process, handle, key)) (filter (\<lambda>(_, (p, _)). p = i) (io_bindings m))"

definition post_to_port :: "'c io_manager \<Rightarrow> nat \<Rightarrow> completion_packet \<Rightarrow> unit res \<times> 'c io_manager" where
  "post_to_port m i packet = attempt (port_of m i) m (\<lambda>p.
     (case cp_post p packet of (r, p') \<Rightarrow> (r, m\<lparr>io_store := om_insert i p' (io_store m)\<rparr>)))"

definition close_completion_port :: "'c io_manager \<Rightarrow> nat \<Rightarrow> nat res \<times> 'c io_manager" where
  "close_completion_port m i = attempt (port_of m i) m (\<lambda>p.
     (case cp_close p of (dropped, p') \<Rightarrow>
        (Ok dropped, m\<lparr>io_objects := snd (release_object (io_objects m) i), io_ports := om_remove i (io_ports m), io_store := om_insert i p' (io_store m),
           io_bindings := filter (\<lambda>(_, (p, _)). p \<noteq> i) (io_bindings m)\<rparr>)))"

section \<open>Steps\<close>

text \<open>
  The request core has a lock of its own and is shared, so its steps (\<open>core\<close>) may fall between the parts of an operation of the manager. For \<open>delete_device\<close>, which
  takes that lock once for the queue and once for each request it cancels, the relation has the whole call (\<open>delete\<close>) and also its
  parts: the change of the tables (\<open>delete_tables\<close>), the steps of the core for taking the queue and for cancelling each request, and the release of the device object
  (\<open>delete_release\<close>), in any interleaving.
\<close>

inductive io_step :: "'c completion_call \<Rightarrow> 'c io_manager \<Rightarrow> 'c io_manager \<Rightarrow> bool" for call where
  objects: "om_step (io_objects m) objs \<Longrightarrow> io_step call m (m\<lparr>io_objects := objs\<rparr>)"
| core: "irp_step call (io_irps m) core' \<Longrightarrow> io_step call m (m\<lparr>io_irps := core'\<rparr>)"
| port: "map_of (io_store m) i = Some p \<Longrightarrow> cport_step (p, ps, ds) (p', ps', ds') \<Longrightarrow> io_step call m (m\<lparr>io_store := om_insert i p' (io_store m)\<rparr>)"
| new_driver: "io_step call m (snd (create_driver m name extension))"
| new_device: "io_step call m (snd (create_device m driver dname extension flags))"
| flags: "io_step call m (snd (set_device_flags m d flags))"
| extension: "io_step call m (snd (set_device_extension m d extension))"
| attach: "attach_device m d target = Some (r, m') \<Longrightarrow> io_step call m m'"
| detach: "io_step call m (snd (detach_device m target))"
| delete: "delete_device call m d = Some (ru, m') \<Longrightarrow> io_step call m m'"
| delete_tables: "delete_device call m d = Some (ru, m') \<Longrightarrow> io_step call m (m\<lparr>io_drivers := io_drivers m', io_devices := io_devices m'\<rparr>)"
| delete_release: "io_step call m (m\<lparr>io_objects := snd (release_object (io_objects m) d)\<rparr>)"
| allocate: "io_step call m (snd (allocate_irp m target b))"
| queue: "io_step call m (snd (queue_irp m d i))"
| complete: "io_step call m (snd (complete_irp call m i status information))"
| cancel: "io_step call m (snd (cancel_irp call m i))"
| send: "io_step call m (snd (send_synchronous call m d b))"
| new_port: "io_step call m (snd (create_completion_port m pname depth))"
| bind: "io_step call m (snd (bind_completion_port m i process handle key))"
| unbind: "io_step call m (snd (unbind_completion_port m process handle))"
| post: "io_step call m (snd (post_to_port m i packet))"
| close: "io_step call m (snd (close_completion_port m i))"


section \<open>Object identifiers only grow\<close>

lemma create_object_next: "next_object_id m \<le> next_object_id (snd (create_object m kind payload name))"
  by (auto simp: create_object_def insert_object_def Let_def split: option.splits res.splits)

lemma create_object_Ok:
  "create_object m kind payload name = (Ok i, m') \<Longrightarrow> i = next_object_id m \<and> next_object_id m' = i + 1"
  by (auto simp: create_object_def insert_object_def Let_def split: option.splits res.splits if_splits)

lemma drop_reference_next [simp]: "next_object_id (snd (drop_reference m i)) = next_object_id m"
  by (auto simp: drop_reference_def destroy_def Let_def split: option.splits)

lemma grant_handle_next: "next_object_id (snd (grant_handle m p obj access inh)) = next_object_id m"
  by (cases rule: grant_handle_cases [of m obj p access inh]) auto

lemma grant_handles_next: "next_object_id (snd (grant_handles m p es)) = next_object_id m"
proof (induction m p es rule: grant_handles.induct)
  case (2 m p obj access es)
  then show ?case using grant_handle_next [of m p obj access True] by (auto split: prod.splits res.splits)
qed simp

lemma close_handle_next: "next_object_id (snd (close_handle m p h)) = next_object_id m"
  using close_handle_snd [of m p h] by auto

lemma close_handles_next: "next_object_id (snd (close_handles m p hs)) = next_object_id m"
proof (induction m p hs rule: close_handles.induct)
  case (2 m p h hs)
  then show ?case using close_handle_next [of m p h] by (auto split: prod.splits res.splits)
qed simp

lemma close_process_next: "next_object_id (snd (close_process m p)) = next_object_id m"
  using close_handles_next [of m p]
  by (auto simp: close_process_def Let_def split: option.splits prod.splits res.splits) (metis snd_conv)+

lemmas handle_ops_next = grant_handle_next grant_handles_next close_handle_next close_process_next

lemma om_step_next: "om_step m m' \<Longrightarrow> next_object_id m \<le> next_object_id m'"
proof (induction rule: om_step.induct)
  case (open_named m name kind)
  then show ?case by (auto simp: open_object_def split: option.splits res.splits)
next
  case (duplicate m sp sh tp d inh)
  then show ?case by (auto simp: duplicate_handle_def Let_def handle_ops_next split: option.splits res.splits)
next
  case (inherit m parent child)
  then show ?case by (simp add: inherit_handles_def handle_ops_next)
qed (auto simp: create_object_next handle_ops_next release_object_def set_event_def reset_event_def acquire_mutant_def release_mutant_def set_payload_def
    split: option.splits object_payload.splits)

section \<open>Invariant\<close>

definition chains_ok :: "'c io_manager \<Rightarrow> bool" where
  "chains_ok m \<longleftrightarrow> (\<forall>k x. map_of (io_drivers m) k = Some x \<longrightarrow> chain_ok (io_devices m) k x) \<and>
     (\<forall>d e. map_of (io_devices m) d = Some e \<longrightarrow> (\<exists>k. dv_driver e = Some k \<and> k \<in> dom (map_of (io_drivers m))))"

definition ports_ok :: "'c io_manager \<Rightarrow> bool" where
  "ports_ok m \<longleftrightarrow> om_wf (io_ports m) \<and> om_wf (io_bindings m) \<and>
     (\<forall>i a. map_of (io_ports m) i = Some a \<longrightarrow> a = i \<and> i \<in> dom (map_of (io_store m))) \<and>
     (\<forall>h i key. map_of (io_bindings m) h = Some (i, key) \<longrightarrow> i \<in> dom (map_of (io_ports m)))"

definition ids_bounded :: "'c io_manager \<Rightarrow> bool" where
  "ids_bounded m \<longleftrightarrow> fresh_ids (io_drivers m) (next_object_id (io_objects m)) \<and> fresh_ids (io_devices m) (next_object_id (io_objects m)) \<and>
     fresh_ids (io_store m) (next_object_id (io_objects m))"

definition io_inv :: "'c io_manager \<Rightarrow> bool" where
  "io_inv m \<longleftrightarrow> ids_bounded m \<and> links_ok (io_devices m) \<and> chains_ok m \<and> irp_inv (io_irps m) \<and> ports_ok m"

lemma io_invI: "ids_bounded m \<Longrightarrow> links_ok (io_devices m) \<Longrightarrow> chains_ok m \<Longrightarrow> irp_inv (io_irps m) \<Longrightarrow> ports_ok m \<Longrightarrow> io_inv m"
  by (simp add: io_inv_def)

lemma io_invD:
  assumes "io_inv m"
  shows "ids_bounded m" "links_ok (io_devices m)" "chains_ok m" "irp_inv (io_irps m)" "ports_ok m"
  using assms by (simp_all add: io_inv_def)

lemma io_inv_new: "io_inv io_manager_new"
  by (simp add: io_inv_def io_manager_new_def ids_bounded_def links_ok_def stacked_def edges_def attached_of_def lower_of_def acyclic_def
      chains_ok_def irp_inv_new ports_ok_def object_manager_new_def)

text \<open>What does not touch the drivers, the devices and the ports.\<close>

lemma io_inv_objects:
  assumes "io_inv m" "next_object_id (io_objects m) \<le> next_object_id objs"
  shows "io_inv (m\<lparr>io_objects := objs\<rparr>)"
  using assms by (auto simp: io_inv_def ids_bounded_def chains_ok_def ports_ok_def intro: fresh_ids_mono)

lemma io_inv_core: "io_inv m \<Longrightarrow> irp_inv core \<Longrightarrow> io_inv (m\<lparr>io_irps := core\<rparr>)"
  by (simp add: io_inv_def ids_bounded_def chains_ok_def ports_ok_def)

lemma irp_ops_inv:
  assumes "irp_inv s"
  shows "irp_inv (snd (irp_insert s b stack))" "irp_inv (snd (irp_queue s d i))" "irp_inv (snd (irp_complete call s i status information))"
    "irp_inv (snd (irp_cancel call s i))" "irp_inv (snd (take_queue s d))"
  using assms irp_step_inv irp_step.intros by metis+

lemma cancel_pending_inv: "irp_inv s \<Longrightarrow> irp_inv (snd (cancel_pending_for_device call s d))"
proof -
  have "irp_inv s \<Longrightarrow> irp_inv (fold (\<lambda>i s. snd (irp_cancel call s i)) is s)" for "is" s
    by (induction "is" arbitrary: s) (simp_all add: irp_ops_inv)
  then show "irp_inv s \<Longrightarrow> irp_inv (snd (cancel_pending_for_device call s d))"
    using irp_ops_inv(5) [of s d] by (simp add: cancel_pending_for_device_def take_queue_def)
qed

lemma io_inv_on_core: "io_inv m \<Longrightarrow> irp_inv (snd x) \<Longrightarrow> io_inv (snd (on_core m x))"
  by (cases x) (simp add: on_core_def io_inv_core)

lemma allocate_irp_inv: "io_inv m \<Longrightarrow> io_inv (snd (allocate_irp m d b))"
  by (auto simp: allocate_irp_def snd_attempt case_prod_beta intro!: io_inv_core irp_ops_inv(1) io_invD(4) split: res.split)

lemma request_ops_inv:
  assumes "io_inv m"
  shows "io_inv (snd (queue_irp m d i))" "io_inv (snd (complete_irp call m i status information))" "io_inv (snd (cancel_irp call m i))"
  using assms irp_ops_inv [OF io_invD(4) [OF assms]]
  by (auto simp: queue_irp_def complete_irp_def cancel_irp_def snd_attempt io_inv_on_core split: res.split)

lemma send_synchronous_inv:
  assumes "io_inv m"
  shows "io_inv (snd (send_synchronous call m d b))"
proof -
  obtain r m1 where a: "allocate_irp m d b = (r, m1)" by (cases "allocate_irp m d b")
  then have "io_inv m1" using allocate_irp_inv [OF assms, of d b] by simp
  then show ?thesis using request_ops_inv(2) [of m1]
    by (auto simp: send_synchronous_def a snd_attempt split: res.split prod.split) (metis snd_conv)+
qed


text \<open>A table of devices that changes neither the links nor the chains.\<close>

lemma io_inv_devices:
  assumes inv: "io_inv m" and ids: "fresh_ids devs (next_object_id (io_objects m))" and links: "links_ok devs"
    and view: "chain_view devs = chain_view (io_devices m)"
  shows "io_inv (m\<lparr>io_devices := devs\<rparr>)"
proof (rule io_invI)
  note d = io_invD [OF inv]
  show "ids_bounded (m\<lparr>io_devices := devs\<rparr>)" using d(1) ids by (simp add: ids_bounded_def)
  have "\<exists>e'. map_of (io_devices m) x = Some e' \<and> dv_driver e' = dv_driver e" if "map_of devs x = Some e" for x e
    using that fun_cong [OF view, of x] by (cases "map_of (io_devices m) x") (auto simp: chain_view_def)
  then show "chains_ok (m\<lparr>io_devices := devs\<rparr>)" using d(3) chain_ok_cong [OF view] unfolding chains_ok_def by simp metis
qed (use assms io_invD [OF inv] in \<open>simp_all add: ports_ok_def\<close>)

lemma links_ok_update:
  assumes "links_ok devs" "\<And>e. dv_attached (f e) = dv_attached e \<and> dv_lower (f e) = dv_lower e \<and> dv_deleted (f e) = dv_deleted e"
  shows "links_ok (om_update d f devs)"
  using assms(1)
proof (rule links_ok_cong)
  show "attached_of (om_update d f devs) = attached_of devs" "lower_of (om_update d f devs) = lower_of devs"
    using assms(2) by (simp_all add: attached_of_update lower_of_update)
qed (use assms(2) in \<open>auto split: if_splits\<close>)

lemma set_device_ops_inv:
  assumes inv: "io_inv m"
  shows "io_inv (snd (set_device_flags m d flags))" "io_inv (snd (set_device_extension m d extension))"
proof -
  have "io_inv (m\<lparr>io_devices := om_update d f (io_devices m)\<rparr>)"
    if "\<And>e. dv_attached (f e) = dv_attached e \<and> dv_lower (f e) = dv_lower e \<and> dv_deleted (f e) = dv_deleted e \<and>
      dv_driver (f e) = dv_driver e \<and> dv_next (f e) = dv_next e" for f
    using inv io_invD(1,2) [OF inv] that
    by (intro io_inv_devices links_ok_update chain_view_update) (simp_all add: ids_bounded_def)
  then show "io_inv (snd (set_device_flags m d flags))" "io_inv (snd (set_device_extension m d extension))"
    using inv by (simp_all add: set_device_flags_def set_device_extension_def snd_attempt split: res.split)
qed

section \<open>Stacks\<close>

lemma walk_returns:
  assumes ok: "links_ok devs" and d: "d \<in> dom (map_of devs)"
  shows "\<exists>t. stack_walk dv_attached devs d d = Some (Ok t) \<and> (d, t) \<in> (edges (attached_of devs))\<^sup>* \<and> t \<in> dom (map_of devs) \<and> attached_of devs t = None"
    "\<exists>b. stack_walk dv_lower devs d d = Some (Ok b) \<and> (d, b) \<in> (edges (lower_of devs))\<^sup>* \<and> b \<in> dom (map_of devs) \<and> lower_of devs b = None"
  using stack_walk_returns [of dv_attached devs d d] stack_walk_returns [of dv_lower devs d d]
    stacked_acyclic [OF links_okD(1) [OF ok]] links_okD(3,4) [OF ok] d
  unfolding link_of_eq by blast+

lemma stack_walk_unknown: "map_of devs d = None \<Longrightarrow> stack_walk link devs d d = Some (Err STATUS_INVALID_HANDLE)"
  by (simp add: stack_walk.simps)

lemma usable_device_Ok: "usable_device m d = Ok e \<longleftrightarrow> map_of (io_devices m) d = Some e \<and> \<not> dv_deleted e"
  by (auto simp: usable_device_def split: option.splits)

text \<open>The table after an attachment that succeeds.\<close>

definition pushed :: "nat \<Rightarrow> nat \<Rightarrow> device_table \<Rightarrow> device_table" where
  "pushed d t devs = om_update t (\<lambda>e. e\<lparr>dv_attached := Some d\<rparr>) (om_update d (\<lambda>e. e\<lparr>dv_lower := Some t\<rparr>) devs)"

lemma pushed_links:
  assumes "d \<in> dom (map_of devs)" "t \<in> dom (map_of devs)"
  shows "attached_of (pushed d t devs) = (attached_of devs)(t := Some d)" "lower_of (pushed d t devs) = (lower_of devs)(d := Some t)"
  using assms by (simp_all add: pushed_def link_simps del: om_get_update)

lemma attach_device_Some:
  assumes ok: "links_ok (io_devices m)" and r: "attach_device m d target = Some (r, m')"
  shows "(m' = m \<and> (\<exists>status. r = Err status)) \<or> (\<exists>t e te. r = Ok t \<and> d \<noteq> target \<and> top_of_stack m target = Some (Ok t) \<and>
    usable_device m d = Ok e \<and> usable_device m target = Ok te \<and> dv_attached e = None \<and> dv_lower e = None \<and>
    m' = m\<lparr>io_devices := pushed d t (io_devices m)\<rparr>)"
proof (cases "d = target")
  case False
  then obtain walk where w: "top_of_stack m target = Some walk" using r by (auto simp: attach_device_def)
  show ?thesis
  proof (cases "target \<in> dom (map_of (io_devices m))")
    case True
    from walk_returns(1) [OF ok True] w obtain t where t: "walk = Ok t" by (auto simp: top_of_stack_def)
    show ?thesis using r False w t
      by (cases "usable_device m target"; cases "usable_device m d") (auto simp: attach_device_def pushed_def usable_device_def split: option.splits if_splits)
  next
    case False
    then have none: "map_of (io_devices m) target = None" by (simp add: domIff)
    have "walk = Err STATUS_INVALID_HANDLE" using w stack_walk_unknown [OF none, of dv_attached] by (simp add: top_of_stack_def)
    then show ?thesis using r w \<open>d \<noteq> target\<close> by (auto simp: attach_device_def)
  qed
qed (use r in \<open>auto simp: attach_device_def\<close>)


text \<open>The top of a stack is live when a device of the stack is, and it is not the device that joins the stack.\<close>

lemma top_of_stack_live:
  assumes ok: "links_ok (io_devices m)" and t: "top_of_stack m target = Some (Ok t)" and target: "usable_device m target = Ok te"
  shows "t \<in> dom (map_of (io_devices m))" "attached_of (io_devices m) t = None"
    "\<And>e. map_of (io_devices m) t = Some e \<Longrightarrow> \<not> dv_deleted e"
    "t = target \<or> lower_of (io_devices m) t \<noteq> None"
proof -
  let ?devs = "io_devices m"
  have dom: "target \<in> dom (map_of ?devs)" using target by (auto simp: usable_device_Ok)
  from walk_returns(1) [OF ok dom] t have w: "(target, t) \<in> (edges (attached_of ?devs))\<^sup>*" "t \<in> dom (map_of ?devs)" "attached_of ?devs t = None"
    by (auto simp: top_of_stack_def)
  show "t \<in> dom (map_of ?devs)" "attached_of ?devs t = None" using w by blast+
  from w(1) show linked: "t = target \<or> lower_of ?devs t \<noteq> None"
  proof (cases rule: rtranclE)
    case (step y)
    then show ?thesis using stackedD [OF links_okD(1) [OF ok], of y t] by simp
  qed simp
  show "\<not> dv_deleted e" if "map_of ?devs t = Some e" for e
    using linked links_okD(2) [OF ok that] target that by (auto simp: usable_device_Ok)
qed

lemma pushed_ok:
  assumes ok: "links_ok devs" and d: "map_of devs d = Some e" "\<not> dv_deleted e" "dv_attached e = None" "dv_lower e = None"
    and t: "map_of devs t = Some te" "\<not> dv_deleted te" "attached_of devs t = None" and ne: "d \<noteq> t"
  shows "links_ok (pushed d t devs)"
proof -
  have dom: "d \<in> dom (map_of devs)" "t \<in> dom (map_of devs)" using d(1) t(1) by blast+
  have "stacked (attached_of (pushed d t devs)) (lower_of (pushed d t devs))"
    unfolding pushed_links [OF dom] using d t ne by (intro stacked_push links_okD(1) [OF ok]) (simp_all add: attached_of_def lower_of_def)
  moreover have "\<exists>z. map_of devs x = Some z \<and> dv_deleted z = dv_deleted y" if "map_of (pushed d t devs) x = Some y" for x y
    using that by (auto simp: pushed_def split: if_splits)
  then have "attached_of (pushed d t devs) x = None \<and> lower_of (pushed d t devs) x = None" if "map_of (pushed d t devs) x = Some y" "dv_deleted y" for x y
    using that links_okD(2) [OF ok, of x] d(1,2) t(1,2) unfolding pushed_links [OF dom] by (metis fun_upd_other option.inject)
  ultimately show ?thesis unfolding links_ok_def by blast
qed

lemma attach_device_inv:
  assumes inv: "io_inv m" and r: "attach_device m d target = Some (r, m')"
  shows "io_inv m'"
  using attach_device_Some [OF io_invD(2) [OF inv] r]
proof (elim disjE exE conjE)
  fix t e te
  assume t: "d \<noteq> target" "top_of_stack m target = Some (Ok t)" "usable_device m d = Ok e" "usable_device m target = Ok te"
    and e: "dv_attached e = None" "dv_lower e = None" and m': "m' = m\<lparr>io_devices := pushed d t (io_devices m)\<rparr>"
  note live = top_of_stack_live [OF io_invD(2) [OF inv] t(2,4)]
  from live(1) obtain x where x: "map_of (io_devices m) t = Some x" by blast
  have d: "map_of (io_devices m) d = Some e" "\<not> dv_deleted e" using t(3) by (simp_all add: usable_device_Ok)
  then have "d \<noteq> t" using live(4) t(1) e(2) by (auto simp: lower_of_def)
  then have "links_ok (pushed d t (io_devices m))" by (rule pushed_ok [OF io_invD(2) [OF inv] d e x live(3) [OF x] live(2)])
  moreover have "chain_view (pushed d t (io_devices m)) = chain_view (io_devices m)" by (simp add: pushed_def chain_view_update)
  ultimately show ?thesis unfolding m' using inv io_invD(1) [OF inv]
    by (intro io_inv_devices) (simp_all add: ids_bounded_def pushed_def)
qed (use inv in simp)

lemma detach_device_inv:
  assumes inv: "io_inv m"
  shows "io_inv (snd (detach_device m target))"
proof (cases "attached_of (io_devices m) target")
  case None
  then show ?thesis using inv by (auto simp: detach_device_def io_device_def attached_of_def snd_attempt ok_or_def split: option.splits bind_splits)
next
  case (Some x)
  let ?devs = "om_update target (\<lambda>e. e\<lparr>dv_attached := None\<rparr>) (om_update x (\<lambda>e. e\<lparr>dv_lower := None\<rparr>) (io_devices m))"
  note ok = io_invD(2) [OF inv]
  have dom: "target \<in> dom (map_of (io_devices m))" "x \<in> dom (map_of (io_devices m))" using links_okD(3) [OF ok Some] by blast+
  have links: "attached_of ?devs = (attached_of (io_devices m))(target := None)" "lower_of ?devs = (lower_of (io_devices m))(x := None)"
    using dom by (simp_all add: link_simps del: om_get_update)
  have "\<exists>z. map_of (io_devices m) y = Some z \<and> dv_deleted z = dv_deleted e" if "map_of ?devs y = Some e" for y e
    using that by (auto split: if_splits)
  then have "attached_of ?devs y = None \<and> lower_of ?devs y = None" if "map_of ?devs y = Some e" "dv_deleted e" for y e
    unfolding links using that links_okD(2) [OF ok, of y] by (metis fun_upd_apply)
  moreover have "stacked (attached_of ?devs) (lower_of ?devs)" unfolding links by (rule stacked_cut [OF links_okD(1) [OF ok] Some])
  ultimately have "links_ok ?devs" unfolding links_ok_def by blast
  moreover have "snd (detach_device m target) = m\<lparr>io_devices := ?devs\<rparr>"
    using Some by (auto simp: detach_device_def io_device_def attached_of_def bind_eq_Some_conv)
  ultimately show ?thesis using inv io_invD(1) [OF inv] by (simp add: io_inv_devices ids_bounded_def chain_view_update)
qed


section \<open>Creation and deletion\<close>

lemma chains_okD:
  assumes "chains_ok m"
  shows "map_of (io_drivers m) k = Some x \<Longrightarrow> chain_ok (io_devices m) k x"
    "map_of (io_devices m) d = Some e \<Longrightarrow> \<exists>k. dv_driver e = Some k \<and> k \<in> dom (map_of (io_drivers m))"
  using assms unfolding chains_ok_def by blast+

lemma chains_okI:
  assumes "\<And>k x. map_of (io_drivers m) k = Some x \<Longrightarrow> chain_ok (io_devices m) k x"
    "\<And>d e. map_of (io_devices m) d = Some e \<Longrightarrow> \<exists>k. dv_driver e = Some k \<and> k \<in> dom (map_of (io_drivers m))"
  shows "chains_ok m"
  using assms unfolding chains_ok_def by blast

lemma create_driver_inv:
  assumes inv: "io_inv m"
  shows "io_inv (snd (create_driver m name extension))"
proof -
  obtain r objs where c: "create_object (io_objects m) TDriver (PDriver \<lparr>dr_driver_name = name, dr_loaded = True\<rparr>)
    (Some (driver_path name)) = (r, objs)" (is "?create = _") by (cases ?create)
  have next_le: "next_object_id (io_objects m) \<le> next_object_id objs" using create_object_next [of "io_objects m"] c by (metis snd_conv)
  note d = io_invD [OF io_inv_objects [OF inv next_le]]
  show ?thesis
  proof (cases r)
    case (Ok i)
    let ?x = "\<lparr>dr_name = name, dr_extension = extension, dr_first_device = None, dr_device_count = 0\<rparr>"
    let ?m = "m\<lparr>io_objects := objs, io_drivers := om_insert i ?x (io_drivers m)\<rparr>"
    have i: "i = next_object_id (io_objects m)" "next_object_id objs = i + 1" using create_object_Ok c Ok by blast+
    have fresh: "fresh_ids (io_drivers m) i" using io_invD(1) [OF inv] by (simp add: ids_bounded_def i)
    have "k \<noteq> i" if "k \<in> dom (map_of (io_drivers m))" for k using that fresh_ids_bound [OF fresh] by blast
    then have "live_devices (io_devices m) i = {}" using chains_okD(2) [OF io_invD(3) [OF inv]] by (fastforce simp: live_devices_def)
    then have "chain_ok (io_devices m) i ?x" by (intro chain_okI [of _ _ "[]"]) auto
    note new = this
    have "chains_ok ?m"
    proof (rule chains_okI)
      show "chain_ok (io_devices ?m) k x" if "map_of (io_drivers ?m) k = Some x" for k x
        using that new chains_okD(1) [OF io_invD(3) [OF inv], of k x] by (simp split: if_splits)
      show "\<exists>k. dv_driver e = Some k \<and> k \<in> dom (map_of (io_drivers ?m))" if "map_of (io_devices ?m) x = Some e" for x e
        using that chains_okD(2) [OF io_invD(3) [OF inv], of x e] by auto
    qed
    moreover have "ids_bounded ?m" using d(1) fresh i by (auto simp: ids_bounded_def)
    ultimately have "io_inv ?m" using d by (intro io_invI) (simp_all add: ports_ok_def)
    then show ?thesis by (simp add: create_driver_def c Ok)
  qed (use io_inv_objects [OF inv next_le] in \<open>simp_all add: create_driver_def c\<close>)
qed

lemma links_ok_fresh:
  assumes "links_ok devs" "map_of devs i = None" "dv_attached e = None" "dv_lower e = None"
  shows "links_ok (om_insert i e devs)"
  using assms(1)
proof (rule links_ok_cong)
  show "attached_of (om_insert i e devs) = attached_of devs" "lower_of (om_insert i e devs) = lower_of devs"
    using assms by (auto simp: attached_of_def lower_of_def)
qed (use assms in \<open>auto simp: attached_of_def lower_of_def split: if_splits\<close>)

lemma create_device_inv:
  assumes inv: "io_inv m"
  shows "io_inv (snd (create_device m driver name extension flags))"
proof (cases "map_of (io_drivers m) driver")
  case (Some x)
  obtain r objs where c: "create_object (io_objects m) TDevice (PDevice \<lparr>dp_device_name = (case name of None \<Rightarrow> [] | Some n \<Rightarrow> n)\<rparr>)
    (map_option device_path name) = (r, objs)" (is "?create = _") by (cases ?create)
  have next_le: "next_object_id (io_objects m) \<le> next_object_id objs" using create_object_next [of "io_objects m"] c by (metis snd_conv)
  note d = io_invD [OF io_inv_objects [OF inv next_le]]
  show ?thesis
  proof (cases r)
    case (Ok i)
    let ?x = "x\<lparr>dr_first_device := Some i, dr_device_count := dr_device_count x + 1\<rparr>"
    let ?e = "\<lparr>dv_name = name, dv_driver = Some driver, dv_extension = extension, dv_flags = flags, dv_deleted = False,
      dv_attached = None, dv_lower = None, dv_next = dr_first_device x\<rparr>"
    let ?m = "m\<lparr>io_objects := objs, io_drivers := om_insert driver ?x (io_drivers m), io_devices := om_insert i ?e (io_devices m)\<rparr>"
    have i: "i = next_object_id (io_objects m)" "next_object_id objs = i + 1" using create_object_Ok c Ok by blast+
    have fresh: "fresh_ids (io_devices m) i" using io_invD(1) [OF inv] by (simp add: ids_bounded_def i)
    then have none: "map_of (io_devices m) i = None" by (rule fresh_ids_absent) simp
    note chains = chains_okD [OF io_invD(3) [OF inv]]
    have "chain_ok (om_insert i ?e (io_devices m)) driver ?x" by (rule chain_ok_create [OF chains(1) [OF Some] fresh]) simp_all
    moreover have "chain_ok (om_insert i ?e (io_devices m)) k y" if "k \<noteq> driver" "map_of (io_drivers m) k = Some y" for k y
      using chains(1) [OF that(2)]
    proof (rule chain_ok_other)
      show "live_devices (om_insert i ?e (io_devices m)) k = live_devices (io_devices m) k" using none that(1) by (auto simp: live_devices_def)
    qed (use none in \<open>auto simp: live_devices_def chain_view_def\<close>)
    ultimately have each: "chain_ok (io_devices ?m) k y" if "map_of (io_drivers ?m) k = Some y" for k y using that by (simp split: if_splits)
    have "chains_ok ?m"
    proof (rule chains_okI [OF each])
      show "\<exists>k. dv_driver z = Some k \<and> k \<in> dom (map_of (io_drivers ?m))" if "map_of (io_devices ?m) y = Some z" for y z
        using that chains(2) [of y z] by (auto split: if_splits)
    qed
    moreover have "ids_bounded ?m" using d(1) fresh i Some by (auto simp: ids_bounded_def)
    moreover have "links_ok (io_devices ?m)" using links_ok_fresh [OF io_invD(2) [OF inv] none, of ?e] by simp
    ultimately have "io_inv ?m" using d by (intro io_invI) (simp_all add: ports_ok_def)
    then show ?thesis by (simp add: create_device_def Some c Ok)
  qed (use io_inv_objects [OF inv next_le] in \<open>simp_all add: create_device_def Some c\<close>)
qed (use inv in \<open>simp add: create_device_def\<close>)

text \<open>Deletion returns, and what it leaves in the tables.\<close>

lemma delete_device_Ok:
  assumes inv: "io_inv m" and e: "usable_device m d = Ok e"
  obtains drvs devs where "delete_device call m d = Some (rbind (fst (release_object (io_objects m) d)) (\<lambda>_. Ok ()),
      m\<lparr>io_drivers := drvs, io_devices := mark_deleted d devs, io_irps := snd (cancel_pending_for_device call (io_irps m) d),
        io_objects := snd (release_object (io_objects m) d)\<rparr>)"
    "\<And>k x. map_of drvs k = Some x \<Longrightarrow> chain_ok (mark_deleted d devs) k x" "dom (map_of drvs) = dom (map_of (io_drivers m))"
    "devs = unlink_from_stack (io_devices m) d \<or> (\<exists>p. devs = om_update p (\<lambda>x. x\<lparr>dv_next := dv_next e\<rparr>) (unlink_from_stack (io_devices m) d))"
    "drvs = io_drivers m \<or> (\<exists>k x. k \<in> dom (map_of (io_drivers m)) \<and> drvs = om_insert k x (io_drivers m))"
proof -
  let ?devs = "unlink_from_stack (io_devices m) d"
  have e': "map_of (io_devices m) d = Some e" "\<not> dv_deleted e" using e by (simp_all add: usable_device_Ok)
  then have v: "chain_view ?devs d = Some (dv_driver e, False, dv_next e)" by (simp add: chain_view_def [of "io_devices m"])
  have "chain_ok ?devs k x" if "map_of (io_drivers m) k = Some x" for k x
    using chains_okD(1) [OF io_invD(3) [OF inv] that] by (simp add: chain_ok_cong [OF chain_view_unlink])
  from unlink_from_driver_chains [OF this v] obtain drvs devs where u:
    "unlink_from_driver (io_drivers m) ?devs (dv_driver e) (dv_next e) d = Some (drvs, devs)"
    "\<And>k x. map_of drvs k = Some x \<Longrightarrow> chain_ok (mark_deleted d devs) k x" "dom (map_of drvs) = dom (map_of (io_drivers m))"
    "devs = ?devs \<or> (\<exists>p. devs = om_update p (\<lambda>x. x\<lparr>dv_next := dv_next e\<rparr>) ?devs)"
    "drvs = io_drivers m \<or> (\<exists>k x. k \<in> dom (map_of (io_drivers m)) \<and> drvs = om_insert k x (io_drivers m))" by blast
  show thesis
  proof (rule that)
    show "delete_device call m d = Some (rbind (fst (release_object (io_objects m) d)) (\<lambda>_. Ok ()),
      m\<lparr>io_drivers := drvs, io_devices := mark_deleted d devs, io_irps := snd (cancel_pending_for_device call (io_irps m) d),
        io_objects := snd (release_object (io_objects m) d)\<rparr>)"
      by (simp add: delete_device_def e u(1) mark_deleted_def case_prod_beta)
  qed (use u in blast)+
qed

text \<open>The tables after a deletion: the links around the device are joined and the rest of its fields kept.\<close>

lemma deleted_table:
  assumes ok: "links_ok devs0" and d: "d \<in> dom (map_of devs0)"
    and devs: "devs = unlink_from_stack devs0 d \<or> (\<exists>p. devs = om_update p (\<lambda>x. x\<lparr>dv_next := n\<rparr>) (unlink_from_stack devs0 d))"
  shows "attached_of (mark_deleted d devs) = bypass (lower_of devs0) (attached_of devs0) d"
    "lower_of (mark_deleted d devs) = bypass (attached_of devs0) (lower_of devs0) d"
    "links_ok (mark_deleted d devs)" "\<exists>y. map_of (mark_deleted d devs) d = Some y \<and> dv_deleted y"
    "\<And>x y. map_of (mark_deleted d devs) x = Some y \<Longrightarrow> \<exists>z. map_of devs0 x = Some z \<and> dv_driver z = dv_driver y \<and> (x \<noteq> d \<longrightarrow> dv_deleted z = dv_deleted y)"
    "dom (map_of (mark_deleted d devs)) = dom (map_of devs0)"
proof -
  let ?u = "unlink_from_stack devs0 d"
  note u = unlink_from_stack_links [OF ok d] and uok = unlink_from_stack_ok [OF ok d]
  have same: "attached_of devs = attached_of ?u" "lower_of devs = lower_of ?u" using devs by (auto simp: attached_of_update lower_of_update)
  have rest: "attached_of (mark_deleted d devs) = attached_of ?u" "lower_of (mark_deleted d devs) = lower_of ?u"
    by (simp_all add: mark_deleted_def attached_of_update lower_of_update same)
  then show "attached_of (mark_deleted d devs) = bypass (lower_of devs0) (attached_of devs0) d"
    "lower_of (mark_deleted d devs) = bypass (attached_of devs0) (lower_of devs0) d" by (simp_all add: u)
  have origin: "\<exists>z. map_of ?u x = Some z \<and> dv_driver z = dv_driver y \<and> (x \<noteq> d \<longrightarrow> dv_deleted z = dv_deleted y)" if "map_of (mark_deleted d devs) x = Some y" for x y
    using that devs by (auto simp: mark_deleted_def split: if_splits)
  show "\<exists>z. map_of devs0 x = Some z \<and> dv_driver z = dv_driver y \<and> (x \<noteq> d \<longrightarrow> dv_deleted z = dv_deleted y)"
    if "map_of (mark_deleted d devs) x = Some y" for x y
    using origin [OF that] unlink_from_stack_deleted [of devs0 d x] by metis
  have same_dom: "dom (map_of devs) = dom (map_of devs0)" using devs by (elim disjE exE) (simp_all add: u(3) del: om_get_update)
  then show "dom (map_of (mark_deleted d devs)) = dom (map_of devs0)" by (simp add: mark_deleted_def del: om_get_update)
  have "d \<in> dom (map_of devs)" using d same_dom by simp
  then show "\<exists>y. map_of (mark_deleted d devs) d = Some y \<and> dv_deleted y" by (auto simp: mark_deleted_def)
  show "links_ok (mark_deleted d devs)"
    using uok(1) rest
  proof (rule links_ok_cong)
    show "(\<exists>z. map_of ?u x = Some z \<and> dv_deleted z) \<or> attached_of ?u x = None \<and> lower_of ?u x = None"
      if "map_of (mark_deleted d devs) x = Some y" "dv_deleted y" for x y
      using origin [OF that(1)] that(2) uok(2,3) by (cases "x = d") auto
  qed
qed

lemma delete_device_inv:
  assumes inv: "io_inv m" and r: "delete_device call m d = Some (r, m')"
  shows "io_inv m'"
proof (cases "usable_device m d")
  case (Ok e)
  note inv' = io_invD [OF inv]
  have dom: "d \<in> dom (map_of (io_devices m))" using Ok by (auto simp: usable_device_Ok)
  obtain drvs devs where eq: "delete_device call m d = Some (rbind (fst (release_object (io_objects m) d)) (\<lambda>_. Ok ()),
      m\<lparr>io_drivers := drvs, io_devices := mark_deleted d devs, io_irps := snd (cancel_pending_for_device call (io_irps m) d),
        io_objects := snd (release_object (io_objects m) d)\<rparr>)"
    and chains: "\<And>k x. map_of drvs k = Some x \<Longrightarrow> chain_ok (mark_deleted d devs) k x" "dom (map_of drvs) = dom (map_of (io_drivers m))"
    and devs: "devs = unlink_from_stack (io_devices m) d \<or> (\<exists>p. devs = om_update p (\<lambda>x. x\<lparr>dv_next := dv_next e\<rparr>) (unlink_from_stack (io_devices m) d))"
    and drvs: "drvs = io_drivers m \<or> (\<exists>k x. k \<in> dom (map_of (io_drivers m)) \<and> drvs = om_insert k x (io_drivers m))"
    by (rule delete_device_Ok [OF inv Ok, of call], rule that)
  from r eq have del: "m' = m\<lparr>io_drivers := drvs, io_devices := mark_deleted d devs, io_irps := snd (cancel_pending_for_device call (io_irps m) d),
        io_objects := snd (release_object (io_objects m) d)\<rparr>" by simp
  note t = deleted_table [OF inv'(2) dom devs]
  let ?n = "next_object_id (io_objects m)"
  have "fresh_ids (unlink_from_stack (io_devices m) d) ?n"
    using inv'(1) by (auto simp: unlink_from_stack_def Let_def ids_bounded_def split: option.split)
  then have "fresh_ids (mark_deleted d devs) ?n" using devs by (auto simp: mark_deleted_def)
  moreover have "fresh_ids drvs ?n" using drvs inv'(1) by (auto simp: ids_bounded_def)
  ultimately have "ids_bounded m'" using inv'(1) by (simp add: ids_bounded_def del release_object_def)
  moreover have "chains_ok m'"
  proof (rule chains_okI)
    show "\<exists>k. dv_driver y = Some k \<and> k \<in> dom (map_of (io_drivers m'))" if xy: "map_of (io_devices m') x = Some y" for x y
    proof -
      have "map_of (mark_deleted d devs) x = Some y" using xy by (simp add: del)
      from t(5) [OF this] obtain z where "map_of (io_devices m) x = Some z" "dv_driver z = dv_driver y" by blast
      then show ?thesis using chains_okD(2) [OF inv'(3), of x z] chains(2) by (simp add: del)
    qed
  qed (use chains(1) in \<open>simp add: del\<close>)
  ultimately show ?thesis using inv' t(3) cancel_pending_inv [OF inv'(4), of call d] by (intro io_invI) (simp_all add: del ports_ok_def)
qed (use inv r in \<open>auto simp: delete_device_def\<close>)


lemma delete_tables_inv:
  assumes inv: "io_inv m" and r: "delete_device call m d = Some (r, m')"
  shows "io_inv (m\<lparr>io_drivers := io_drivers m', io_devices := io_devices m'\<rparr>)"
proof -
  note i = io_invD [OF delete_device_inv [OF inv r]]
  have same: "io_ports m' = io_ports m" "io_store m' = io_store m" "io_bindings m' = io_bindings m"
      "next_object_id (io_objects m') = next_object_id (io_objects m)"
    using r by (auto simp: delete_device_def Let_def case_prod_beta release_object_def split: res.splits option.splits)
  show ?thesis using i io_invD(4) [OF inv] by (intro io_invI) (simp_all add: ids_bounded_def chains_ok_def ports_ok_def same)
qed

section \<open>Ports\<close>

lemma ports_okD:
  assumes "ports_ok m"
  shows "om_wf (io_ports m)" "om_wf (io_bindings m)" "map_of (io_ports m) i = Some a \<Longrightarrow> a = i \<and> i \<in> dom (map_of (io_store m))"
    "map_of (io_bindings m) h = Some (i, key) \<Longrightarrow> i \<in> dom (map_of (io_ports m))"
  using assms unfolding ports_ok_def by blast+

lemma ports_okI:
  assumes "om_wf (io_ports m)" "om_wf (io_bindings m)" "\<And>i a. map_of (io_ports m) i = Some a \<Longrightarrow> a = i \<and> i \<in> dom (map_of (io_store m))"
    "\<And>h i key. map_of (io_bindings m) h = Some (i, key) \<Longrightarrow> i \<in> dom (map_of (io_ports m))"
  shows "ports_ok m"
  using assms unfolding ports_ok_def by blast

text \<open>A change of the ports, the store and the bindings alone.\<close>

lemma io_inv_ports:
  assumes "io_inv m" "fresh_ids store (next_object_id (io_objects m))" "ports_ok (m\<lparr>io_ports := ports, io_store := store, io_bindings := bindings\<rparr>)"
  shows "io_inv (m\<lparr>io_ports := ports, io_store := store, io_bindings := bindings\<rparr>)"
  using assms by (simp add: io_inv_def ids_bounded_def chains_ok_def)

lemma port_of_Ok:
  "ports_ok m \<Longrightarrow> port_of m i = Ok p \<longleftrightarrow> map_of (io_ports m) i = Some i \<and> map_of (io_store m) i = Some p"
  using ports_okD(3) [of m i] by (auto simp: port_of_def ok_or_eq_Ok bind_eq_Some_conv)

lemma put_port_inv:
  assumes inv: "io_inv m" and p: "map_of (io_store m) i = Some p"
  shows "io_inv (m\<lparr>io_store := om_insert i p' (io_store m)\<rparr>)"
proof -
  note ports = ports_okD [OF io_invD(5) [OF inv]]
  have "ports_ok (m\<lparr>io_store := om_insert i p' (io_store m)\<rparr>)" using ports by (intro ports_okI) auto
  moreover have "fresh_ids (om_insert i p' (io_store m)) (next_object_id (io_objects m))"
    using io_invD(1) [OF inv] p by (auto simp: ids_bounded_def)
  ultimately show ?thesis using io_inv_ports [OF inv, where store = "om_insert i p' (io_store m)" and ports = "io_ports m" and bindings = "io_bindings m"] by simp
qed

lemma create_completion_port_inv:
  assumes inv: "io_inv m"
  shows "io_inv (snd (create_completion_port m name depth))"
proof -
  obtain r objs where c: "create_object (io_objects m) TIoCompletion (PIoCompletion \<lparr>io_queue_depth = depth, io_pending = 0\<rparr>) name = (r, objs)"
    (is "?create = _") by (cases ?create)
  have next_le: "next_object_id (io_objects m) \<le> next_object_id objs" using create_object_next [of "io_objects m"] c by (metis snd_conv)
  note inv' = io_inv_objects [OF inv next_le]
  show ?thesis
  proof (cases r)
    case (Ok i)
    have i: "i = next_object_id (io_objects m)" "next_object_id objs = i + 1" using create_object_Ok c Ok by blast+
    let ?store = "om_insert i (port_inner_new depth) (io_store m)" and ?ports = "om_insert i i (io_ports m)"
    have "fresh_ids ?store (next_object_id objs)" using io_invD(1) [OF inv] i by (auto simp: ids_bounded_def)
    moreover have "ports_ok (m\<lparr>io_objects := objs, io_ports := ?ports, io_store := ?store, io_bindings := io_bindings m\<rparr>)"
      using ports_okD [OF io_invD(5) [OF inv]] by (intro ports_okI) (auto split: if_splits)
    ultimately show ?thesis using io_inv_ports [OF inv', where store = ?store and ports = ?ports and bindings = "io_bindings m"] by (simp add: create_completion_port_def c Ok)
  qed (use inv' in \<open>simp_all add: create_completion_port_def c\<close>)
qed

lemma binding_ops_inv:
  assumes inv: "io_inv m"
  shows "io_inv (snd (bind_completion_port m i process handle key))" "io_inv (snd (unbind_completion_port m process handle))"
proof -
  note ports = ports_okD [OF io_invD(5) [OF inv]]
  have put: "io_inv (m\<lparr>io_bindings := bindings\<rparr>)"
    if "om_wf bindings" "\<And>h i key. map_of bindings h = Some (i, key) \<Longrightarrow> i \<in> dom (map_of (io_ports m))" for bindings
  proof -
    have "ports_ok (m\<lparr>io_bindings := bindings\<rparr>)" using that ports(1,3) by (intro ports_okI) simp_all
    then show ?thesis using inv by (simp add: io_inv_def ids_bounded_def chains_ok_def)
  qed
  show "io_inv (snd (unbind_completion_port m process handle))"
    unfolding unbind_completion_port_def snd_conv
  proof (rule put)
    show "j \<in> dom (map_of (io_ports m))" if "map_of (om_remove (process, handle) (io_bindings m)) h = Some (j, k)" for h j k
      by (rule ports(4) [of h j k]) (use that in \<open>simp split: if_splits\<close>)
  qed (simp add: ports(2))
  show "io_inv (snd (bind_completion_port m i process handle key))"
  proof (cases "port_of m i")
    case (Ok p)
    then have "i \<in> dom (map_of (io_ports m))" using port_of_Ok [OF io_invD(5) [OF inv]] by blast
    note port = this
    have "io_inv (m\<lparr>io_bindings := om_insert (process, handle) (i, key) (io_bindings m)\<rparr>)"
    proof (rule put)
      show "j \<in> dom (map_of (io_ports m))" if "map_of (om_insert (process, handle) (i, key) (io_bindings m)) h = Some (j, k)" for h j k
        using that port ports(4) [of h j k] by (cases "h = (process, handle)") simp_all
    qed (simp add: ports(2))
    then show ?thesis using inv by (simp add: bind_completion_port_def Ok snd_attempt split: res.split)
  qed (use inv in \<open>simp_all add: bind_completion_port_def\<close>)
qed

lemma om_wf_filter: "om_wf b \<Longrightarrow> om_wf (filter P b)"
  unfolding om_wf_def by (induction b) auto

lemma om_get_filter: "om_wf b \<Longrightarrow> map_of (filter P b) k = Some v \<longleftrightarrow> map_of b k = Some v \<and> P (k, v)"
  by (simp add: om_get_iff om_wf_filter)

lemma close_completion_port_inv:
  assumes inv: "io_inv m"
  shows "io_inv (snd (close_completion_port m i))"
proof (cases "port_of m i")
  case (Ok p)
  note ports = ports_okD [OF io_invD(5) [OF inv]]
  obtain dropped p' where c: "cp_close p = (dropped, p')" by (cases "cp_close p")
  let ?m = "m\<lparr>io_objects := snd (release_object (io_objects m) i)\<rparr>"
  let ?store = "om_insert i p' (io_store m)" and ?bindings = "filter (\<lambda>(_, (p, _)). p \<noteq> i) (io_bindings m)"
  have inv': "io_inv ?m" using io_inv_objects [OF inv, of "snd (release_object (io_objects m) i)"] by (simp add: release_object_def)
  have p: "map_of (io_store m) i = Some p" using Ok port_of_Ok [OF io_invD(5) [OF inv]] by blast
  have "fresh_ids ?store (next_object_id (io_objects ?m))" using io_invD(1) [OF inv] p by (auto simp: ids_bounded_def release_object_def)
  moreover have "ports_ok (?m\<lparr>io_ports := om_remove i (io_ports m), io_store := ?store, io_bindings := ?bindings\<rparr>)"
  proof (rule ports_okI, goal_cases)
    case (4 h j k)
    then have "map_of (io_bindings m) h = Some (j, k)" "j \<noteq> i" using om_get_filter [OF ports(2)] by auto
    then show ?case using ports(4) [of h j k] by simp
  qed (use ports in \<open>auto simp: om_wf_filter split: if_splits\<close>)
  ultimately show ?thesis
    using io_inv_ports [OF inv', where store = ?store and ports = "om_remove i (io_ports m)" and bindings = ?bindings] by (simp add: close_completion_port_def Ok c)
qed (use inv in \<open>simp_all add: close_completion_port_def\<close>)

lemma post_to_port_inv:
  assumes inv: "io_inv m"
  shows "io_inv (snd (post_to_port m i packet))"
proof (cases "port_of m i")
  case (Ok p)
  obtain r p' where c: "cp_post p packet = (r, p')" by (cases "cp_post p packet")
  have "map_of (io_store m) i = Some p" using Ok port_of_Ok [OF io_invD(5) [OF inv]] by blast
  from put_port_inv [OF inv this] show ?thesis by (simp add: post_to_port_def Ok c)
qed (use inv in \<open>simp_all add: post_to_port_def\<close>)

lemma io_step_inv: "io_step call m m' \<Longrightarrow> io_inv m \<Longrightarrow> io_inv m'"
proof (induction rule: io_step.induct)
  case (objects m objs)
  then show ?case by (intro io_inv_objects om_step_next)
next
  case (core m core')
  then show ?case by (blast intro: io_inv_core irp_step_inv io_invD(4))
next
  case (port m i p ps ds p' ps' ds')
  then show ?case by (blast intro: put_port_inv)
next
  case (attach m d target r m')
  then show ?case by (blast intro: attach_device_inv)
next
  case (delete m d ru m')
  then show ?case by (blast intro: delete_device_inv)
next
  case (delete_tables m d ru m')
  then show ?case by (blast intro: delete_tables_inv)
next
  case (delete_release m d)
  then show ?case by (intro io_inv_objects) (simp_all add: release_object_def)
qed (simp_all add: create_driver_inv create_device_inv set_device_ops_inv detach_device_inv allocate_irp_inv request_ops_inv send_synchronous_inv
    create_completion_port_inv binding_ops_inv post_to_port_inv close_completion_port_inv)

interpretation io: invariant_system "\<lambda>m. m = io_manager_new" "io_step call" io_inv for call
  by unfold_locales (auto simp: io_inv_new intro: io_step_inv)


section \<open>What the walks and the deletion do\<close>

lemma walk_end_unique:
  assumes "(x, a) \<in> (edges f)\<^sup>*" "f a = None" "(x, b) \<in> (edges f)\<^sup>*" "f b = None"
  shows "a = b"
  using assms(1,3)
proof (induction rule: converse_rtrancl_induct)
  case base
  then show ?case using assms(2) by (metis converse_rtranclE edges_iff option.distinct(1))
next
  case (step y z)
  then have "y \<noteq> b" using assms(4) by auto
  with step.prems obtain w where "(y, w) \<in> edges f" "(w, b) \<in> (edges f)\<^sup>*" by (metis converse_rtranclE)
  with step show ?case by simp
qed

lemma stack_devices_spec:
  assumes inv: "io_inv m" and d: "d \<in> dom (map_of (io_devices m))"
  obtains chain where "stack_devices m d = Ok (rev chain)" "chain \<noteq> []" "hd chain = d" "distinct chain" "set chain \<subseteq> dom (map_of (io_devices m))"
    "successively (\<lambda>x y. lower_of (io_devices m) x = Some y) chain" "bottom_of_stack m d = Some (Ok (last chain))"
    "lower_of (io_devices m) (last chain) = None"
proof -
  let ?devs = "io_devices m"
  note ok = io_invD(2) [OF inv]
  note acyclic = stacked_acyclic(1) [OF links_okD(1) [OF ok]]
  have wf: "om_wf ?devs" using io_invD(1) [OF inv] by (auto simp: ids_bounded_def dest: fresh_ids_wf)
  from stack_loop_returns [OF wf acyclic, of "[d]" d] links_okD(4) [OF ok] d obtain rest where
    r: "stack_loop ?devs d [d] = Ok (rev (d # rest))" "successively (\<lambda>x y. lower_of ?devs x = Some y) (d # rest)"
      "set rest \<subseteq> dom (map_of ?devs)" "lower_of ?devs (last (d # rest)) = None" by fastforce
  from walk_returns(2) [OF ok d] obtain b where b: "bottom_of_stack m d = Some (Ok b)" "(d, b) \<in> (edges (lower_of ?devs))\<^sup>*" "lower_of ?devs b = None"
    by (auto simp: bottom_of_stack_def)
  have "(d, last (d # rest)) \<in> (edges (lower_of ?devs))\<^sup>*"
    using successive_path [OF r(2), of "last rest"] by (cases "rest = []") (auto intro: trancl_into_rtrancl)
  with b r(4) have "b = last (d # rest)" by (blast intro: walk_end_unique)
  moreover have "distinct (d # rest)" by (rule successive_distinct [OF acyclic r(2)])
  ultimately show thesis using r b(1) d by (intro that [of "d # rest"]) (auto simp: stack_devices_def)
qed

lemma driver_devices_spec:
  assumes inv: "io_inv m" and k: "map_of (io_drivers m) k = Some x"
  obtains ds where "driver_devices m k = Some (Ok ds)" "sorted_wrt (>) ds" "set ds = live_devices (io_devices m) k" "dr_device_count x = length ds"
  using chains_okD(1) [OF io_invD(3) [OF inv] k]
proof (rule chain_okE)
  fix ds assume ds: "linked (next_of (io_devices m)) (dr_first_device x) ds" "sorted_wrt (>) ds" "distinct ds"
    "set ds = live_devices (io_devices m) k" "dr_device_count x = length ds"
  then show thesis using chain_loop_linked [OF ds(1), of "[]"] k by (intro that) (auto simp: driver_devices_def)
qed

lemma link_queries:
  assumes "x \<in> dom (map_of (io_devices m))"
  shows "next_lower_device m x = Ok (lower_of (io_devices m) x)" "next_attached_device m x = Ok (attached_of (io_devices m) x)"
  using assms by (auto simp: next_lower_device_def next_attached_device_def io_device_def lower_of_def attached_of_def)

text \<open>Cancelling the requests that were taken off the queue of a device.\<close>

lemma cancel_taken:
  assumes "map_of (irps s) i = Some r" "\<not> ir_completed r" "ir_pending_device r = Some d" "map_of (irp_queues s) d = None"
  shows "irp_queues (snd (irp_cancel call s i)) = irp_queues s"
    "\<exists>r'. map_of (irps (snd (irp_cancel call s i))) i = Some r' \<and> ir_cancelled r' \<and> ir_completed r'"
proof -
  obtain st stalled stack where w: "completion_walk call i (ir_information r) STATUS_CANCELLED (ir_stack r) = (st, stalled, stack)"
    by (cases "completion_walk call i (ir_information r) STATUS_CANCELLED (ir_stack r)")
  note eq = irp_cancel_eq [OF assms(1,2) w]
  show "irp_queues (snd (irp_cancel call s i)) = irp_queues s" unfolding eq using assms(3,4) by (simp add: unqueued_def om_update_def)
  show "\<exists>r'. map_of (irps (snd (irp_cancel call s i))) i = Some r' \<and> ir_cancelled r' \<and> ir_completed r'" unfolding eq by simp
qed

lemma cancel_fold:
  assumes "distinct q" "\<And>i. i \<in> set q \<Longrightarrow> \<exists>r. map_of (irps s) i = Some r \<and> \<not> ir_completed r \<and> ir_pending_device r = Some d"
    "map_of (irp_queues s) d = None"
  shows "irp_queues (fold (\<lambda>i s. snd (irp_cancel call s i)) q s) = irp_queues s \<and>
    (\<forall>i. if i \<in> set q then \<exists>r. map_of (irps (fold (\<lambda>i s. snd (irp_cancel call s i)) q s)) i = Some r \<and> ir_cancelled r \<and> ir_completed r
         else map_of (irps (fold (\<lambda>i s. snd (irp_cancel call s i)) q s)) i = map_of (irps s) i)"
  using assms
proof (induction q arbitrary: s)
  case (Cons j q)
  let ?s = "snd (irp_cancel call s j)" and ?cancelled = "\<lambda>s i. \<exists>r. map_of (irps s) i = Some r \<and> ir_cancelled r \<and> ir_completed r"
  from Cons.prems(2) [of j] obtain r where r: "map_of (irps s) j = Some r" "\<not> ir_completed r" "ir_pending_device r = Some d" by auto
  note c = cancel_taken [OF this Cons.prems(3), of call]
  have "\<exists>r. map_of (irps ?s) i = Some r \<and> \<not> ir_completed r \<and> ir_pending_device r = Some d" if "i \<in> set q" for i
  proof -
    have "j \<noteq> i" using Cons.prems(1) that by auto
    with Cons.prems(2) [of i] that irp_other(2) [of j i call s] show ?thesis by simp
  qed
  with Cons.IH [of ?s] Cons.prems(1,3) c(1) have ih: "irp_queues (fold (\<lambda>i s. snd (irp_cancel call s i)) q ?s) = irp_queues s"
    "\<And>i. if i \<in> set q then ?cancelled (fold (\<lambda>i s. snd (irp_cancel call s i)) q ?s) i
      else map_of (irps (fold (\<lambda>i s. snd (irp_cancel call s i)) q ?s)) i = map_of (irps ?s) i" by auto
  have "if i \<in> set (j # q) then ?cancelled (fold (\<lambda>i s. snd (irp_cancel call s i)) q ?s) i
      else map_of (irps (fold (\<lambda>i s. snd (irp_cancel call s i)) q ?s)) i = map_of (irps s) i" for i
    using ih(2) [of i] c(2) irp_other(2) [of j i call s] by (cases "i = j"; cases "i \<in> set q") simp_all
  with ih(1) show ?case by simp
qed simp

lemma cancel_pending_spec:
  assumes inv: "irp_inv s"
  shows "queue_of (snd (cancel_pending_for_device call s d)) d' = (if d' = d then [] else queue_of s d')"
    "i \<in> set (queue_of s d) \<Longrightarrow> \<exists>r. map_of (irps (snd (cancel_pending_for_device call s d))) i = Some r \<and> ir_cancelled r \<and> ir_completed r"
    "i \<notin> set (queue_of s d) \<Longrightarrow> map_of (irps (snd (cancel_pending_for_device call s d))) i = map_of (irps s) i"
proof -
  note ok = irp_inv_dest [OF inv]
  let ?s = "s\<lparr>irp_queues := om_remove d (irp_queues s)\<rparr>"
  have q: "distinct (queue_of s d)" using queues_okD(1) [OF ok(3), of d] by (cases "map_of (irp_queues s) d") (simp_all add: queue_of_def)
  have each: "\<exists>r. map_of (irps ?s) i = Some r \<and> \<not> ir_completed r \<and> ir_pending_device r = Some d" if queued: "i \<in> set (queue_of s d)" for i
  proof -
    obtain q where "map_of (irp_queues s) d = Some q" "i \<in> set q" using queued by (cases "map_of (irp_queues s) d") (auto simp: queue_of_def)
    then obtain r where r: "map_of (irps s) i = Some r" "ir_pending_device r = Some d" using queues_okD(2) [OF ok(3)] by blast
    then show ?thesis using ok(2) [OF r(1)] by (auto simp: irp_ok_def)
  qed
  have f: "snd (cancel_pending_for_device call s d) = fold (\<lambda>i s. snd (irp_cancel call s i)) (queue_of s d) ?s"
    by (simp add: cancel_pending_for_device_def take_queue_def)
  have none: "map_of (irp_queues ?s) d = None" by simp
  note c = cancel_fold [OF q each none, of call, folded f]
  show "queue_of (snd (cancel_pending_for_device call s d)) d' = (if d' = d then [] else queue_of s d')" using c by (simp add: queue_of_def)
  show "i \<in> set (queue_of s d) \<Longrightarrow> \<exists>r. map_of (irps (snd (cancel_pending_for_device call s d))) i = Some r \<and> ir_cancelled r \<and> ir_completed r"
    "i \<notin> set (queue_of s d) \<Longrightarrow> map_of (irps (snd (cancel_pending_for_device call s d))) i = map_of (irps s) i"
    using c by (auto dest: spec [of _ i])
qed

text \<open>Completing a request without completion routines.\<close>

lemma completion_walk_plain: "\<forall>l \<in> set ls. sl_completion l = None \<Longrightarrow> completion_walk call i information status ls = (status, False, ls)"
  by (induction ls) auto


section \<open>Properties\<close>

text \<open>A driver with three devices, of which the second and the third are attached above the first, and a queued read.\<close>

definition demo_io1 :: "nat io_manager" where
  "demo_io1 = snd (create_device (snd (create_device (snd (create_device (snd (create_driver io_manager_new ''disk'' [])) 1 None [] 0)) 1 None [] 0)) 1 None [] 0)"

definition demo_io2 :: "nat io_manager" where "demo_io2 = snd (the (attach_device demo_io1 3 2))"

definition demo_io3 :: "nat io_manager" where "demo_io3 = snd (the (attach_device demo_io2 4 2))"

definition demo_io4 :: "nat io_manager" where
  "demo_io4 = snd (queue_irp (snd (allocate_irp demo_io3 3 (parameter_block_new MjRead 0 4))) 3 1)"


lemma demo_io_reachable: "(io_step call)\<^sup>*\<^sup>* io_manager_new demo_io4"
proof -
  have attach: "\<exists>r. attach_device m d target = Some (r, snd (the (attach_device m d target)))" if "attach_device m d target \<noteq> None" for m :: "nat io_manager" and d target
    using that by (cases "attach_device m d target") auto
  have "attach_device demo_io1 3 2 \<noteq> None" "attach_device demo_io2 4 2 \<noteq> None" by code_simp+
  then have s: "io_step call demo_io1 demo_io2" "io_step call demo_io2 demo_io3"
    using attach io_step.attach unfolding demo_io2_def demo_io3_def by metis+
  have "(io_step call)\<^sup>*\<^sup>* io_manager_new demo_io1"
    unfolding demo_io1_def by (meson io_step.new_driver io_step.new_device rtranclp.rtrancl_into_rtrancl rtranclp.rtrancl_refl)
  then have "(io_step call)\<^sup>*\<^sup>* io_manager_new demo_io3" using s by (meson rtranclp.rtrancl_into_rtrancl)
  then show ?thesis unfolding demo_io4_def by (meson io_step.allocate io_step.queue rtranclp.rtrancl_into_rtrancl)
qed

text \<open>
  C36. Whatever drivers, clients and other threads do, the walks over a device stack return and agree: the stack of a
  device lists each device once from the bottom to the device, neighbours name each other, its first element is what \<open>bottom_of_stack\<close> returns,
  \<open>top_of_stack\<close> returns a device with nothing attached, and a deleted device is in no stack.
\<close>
theorem device_stacks_consistent:
  assumes "(io_step call)\<^sup>*\<^sup>* io_manager_new m" "map_of (io_devices m) d = Some e"
  shows "\<exists>chain t. stack_devices m d = Ok chain \<and> distinct chain \<and> chain \<noteq> [] \<and> last chain = d \<and>
    bottom_of_stack m d = Some (Ok (hd chain)) \<and> next_lower_device m (hd chain) = Ok None \<and>
    top_of_stack m d = Some (Ok t) \<and> next_attached_device m t = Ok None \<and>
    (\<forall>i. Suc i < length chain \<longrightarrow> next_lower_device m (chain ! Suc i) = Ok (Some (chain ! i)) \<and>
      next_attached_device m (chain ! i) = Ok (Some (chain ! Suc i))) \<and>
    (dv_deleted e \<longrightarrow> chain = [d] \<and> t = d)"
proof -
  have inv: "io_inv m" by (rule io.reachable_inv [OF refl assms(1)])
  let ?devs = "io_devices m"
  note ok = io_invD(2) [OF inv]
  have d: "d \<in> dom (map_of ?devs)" using assms(2) by blast
  obtain down where c: "stack_devices m d = Ok (rev down)" "down \<noteq> []" "hd down = d" "distinct down" "set down \<subseteq> dom (map_of ?devs)"
    "successively (\<lambda>x y. lower_of ?devs x = Some y) down" "bottom_of_stack m d = Some (Ok (last down))" "lower_of ?devs (last down) = None"
    by (rule stack_devices_spec [OF inv d])
  obtain t where t: "top_of_stack m d = Some (Ok t)" "(d, t) \<in> (edges (attached_of ?devs))\<^sup>*" "t \<in> dom (map_of ?devs)" "attached_of ?devs t = None"
    using walk_returns(1) [OF ok d] by (auto simp: top_of_stack_def)
  note lower = link_queries(1) [of _ m] and attached = link_queries(2) [of _ m]
  have "next_lower_device m (rev down ! Suc i) = Ok (Some (rev down ! i)) \<and> next_attached_device m (rev down ! i) = Ok (Some (rev down ! Suc i))"
    if i: "Suc i < length (rev down)" for i
  proof -
    have "lower_of ?devs (rev down ! Suc i) = Some (rev down ! i)"
      using c(6) i by (simp add: rev_nth successively_conv_nth Suc_diff_Suc)
    then show ?thesis using lower attached links_okD(4) [OF ok] stackedD [OF links_okD(1) [OF ok]] by metis
  qed
  moreover have "rev down = [d] \<and> t = d" if "dv_deleted e"
  proof -
    have n: "attached_of ?devs d = None" "lower_of ?devs d = None" using links_okD(2) [OF ok assms(2) that] by blast+
    then have "t = d" using t(2) by (metis converse_rtranclE edges_iff option.distinct(1))
    moreover have "down = [d]" using c(2,3,6) n(2) by (cases down; cases "tl down") auto
    ultimately show ?thesis by simp
  qed
  moreover have "last down \<in> dom (map_of ?devs)" using c(2,5) last_in_set by blast
  ultimately show ?thesis using c t lower [of "last down"] attached [of t]
    by (intro exI [of _ "rev down"] exI [of _ t]) (simp add: hd_rev last_rev)
qed

theorem device_stacks_consistent_witness:
  "\<exists>chain. stack_devices demo_io4 4 = Ok chain \<and> distinct chain \<and> last chain = 4 \<and> bottom_of_stack demo_io4 4 = Some (Ok (hd chain))"
proof -
  have "map_of (io_devices demo_io4) 4 \<noteq> None" by code_simp
  then obtain e where "map_of (io_devices demo_io4) 4 = Some e" by auto
  from device_stacks_consistent [OF demo_io_reachable this] show ?thesis by blast
qed

text \<open>
  C37. The device chain of a driver is exact: \<open>driver_devices\<close> returns the devices of the driver that are not deleted, the
  latest first, and the driver's counter is their number.
\<close>
theorem driver_chain_exact:
  assumes "(io_step call)\<^sup>*\<^sup>* io_manager_new m" "map_of (io_drivers m) k = Some x"
  shows "\<exists>ds. driver_devices m k = Some (Ok ds) \<and> sorted_wrt (>) ds \<and>
    set ds = {d. \<exists>e. map_of (io_devices m) d = Some e \<and> dv_driver e = Some k \<and> \<not> dv_deleted e} \<and>
    driver_device_count m k = Ok (length ds)"
proof -
  have inv: "io_inv m" by (rule io.reachable_inv [OF refl assms(1)])
  obtain ds where "driver_devices m k = Some (Ok ds)" "sorted_wrt (>) ds" "set ds = live_devices (io_devices m) k" "dr_device_count x = length ds"
    by (rule driver_devices_spec [OF inv assms(2)])
  then show ?thesis using assms(2) by (auto simp: live_devices_def driver_device_count_def io_driver_def)
qed

theorem driver_chain_exact_witness: "\<exists>ds. driver_devices demo_io4 1 = Some (Ok ds) \<and> sorted_wrt (>) ds \<and> driver_device_count demo_io4 1 = Ok (length ds)"
proof -
  have "map_of (io_drivers demo_io4) 1 \<noteq> None" by code_simp
  then obtain x where "map_of (io_drivers demo_io4) 1 = Some x" by auto
  from driver_chain_exact [OF demo_io_reachable this] show ?thesis by blast
qed

text \<open>The neighbours of a device that was deleted.\<close>

lemma bypass_neighbours:
  assumes s: "stacked up down"
  shows "up d = Some u \<Longrightarrow> bypass up down d u = down d" "down d = Some l \<Longrightarrow> bypass down up d l = up d"
    "bypass up down d d = None" "bypass down up d d = None"
proof -
  have "down y \<noteq> Some y" for y using stacked_acyclic(1) [OF s] unfolding acyclic_def by (metis edges_iff trancl.r_into_trancl)
  then have "up y \<noteq> Some y" "down y \<noteq> Some y" for y using stackedD [OF s, of y y] by simp_all
  then show "up d = Some u \<Longrightarrow> bypass up down d u = down d" "down d = Some l \<Longrightarrow> bypass down up d l = up d"
    by (auto simp: bypass_def)
qed (simp_all add: bypass_def)

lemma driver_devices_live:
  assumes inv: "io_inv m" and ds: "driver_devices m k = Some (Ok ds)"
  shows "set ds = live_devices (io_devices m) k"
proof (cases "map_of (io_drivers m) k")
  case (Some x)
  show ?thesis by (rule driver_devices_spec [OF inv Some]) (use ds in simp)
qed (use ds in \<open>simp add: driver_devices_def\<close>)

text \<open>
  C35. Deleting a live device returns, takes it out of its stack and joins its neighbours, takes it out of the chain of its
  driver, and cancels exactly the requests that were queued on it: these are completed as cancelled, its queue is empty, and no
  other request and no other queue changes.
\<close>
theorem delete_device_exact:
  assumes "(io_step call)\<^sup>*\<^sup>* io_manager_new m" "usable_device m d = Ok e"
  shows "\<exists>r m'. delete_device call m d = Some (r, m') \<and>
    usable_device m' d = Err STATUS_DELETE_PENDING \<and> next_lower_device m' d = Ok None \<and> next_attached_device m' d = Ok None \<and>
    (\<forall>u. dv_attached e = Some u \<longrightarrow> next_lower_device m' u = Ok (dv_lower e)) \<and>
    (\<forall>l. dv_lower e = Some l \<longrightarrow> next_attached_device m' l = Ok (dv_attached e)) \<and>
    (\<forall>k ds. driver_devices m' k = Some (Ok ds) \<longrightarrow> d \<notin> set ds) \<and>
    (\<forall>d'. queue_of (io_irps m') d' = (if d' = d then [] else queue_of (io_irps m) d')) \<and>
    (\<forall>i. if i \<in> set (queue_of (io_irps m) d) then irp_is_cancelled (io_irps m') i = Ok True \<and> irp_is_completed (io_irps m') i = Ok True
      else map_of (irps (io_irps m')) i = map_of (irps (io_irps m)) i)"
proof -
  have inv: "io_inv m" by (rule io.reachable_inv [OF refl assms(1)])
  let ?devs = "io_devices m"
  have e: "map_of ?devs d = Some e" "\<not> dv_deleted e" using assms(2) by (simp_all add: usable_device_Ok)
  then have dom: "d \<in> dom (map_of ?devs)" by blast
  have links: "attached_of ?devs d = dv_attached e" "lower_of ?devs d = dv_lower e" by (simp_all add: attached_of_def lower_of_def e)
  note ok = io_invD(2) [OF inv]
  obtain drvs devs where eq: "delete_device call m d = Some (rbind (fst (release_object (io_objects m) d)) (\<lambda>_. Ok ()),
      m\<lparr>io_drivers := drvs, io_devices := mark_deleted d devs, io_irps := snd (cancel_pending_for_device call (io_irps m) d),
        io_objects := snd (release_object (io_objects m) d)\<rparr>)" (is "_ = Some (?r, ?m)")
    and devs: "devs = unlink_from_stack ?devs d \<or> (\<exists>p. devs = om_update p (\<lambda>x. x\<lparr>dv_next := dv_next e\<rparr>) (unlink_from_stack ?devs d))"
    by (rule delete_device_Ok [OF inv assms(2), of call], rule that)
  note t = deleted_table [OF ok dom devs] and c = cancel_pending_spec [OF io_invD(4) [OF inv]]
  have inv': "io_inv ?m" by (rule delete_device_inv [OF inv eq])
  note b = bypass_neighbours [OF links_okD(1) [OF ok], of d]
  have query: "next_lower_device ?m x = Ok (bypass (attached_of ?devs) (lower_of ?devs) d x)"
    "next_attached_device ?m x = Ok (bypass (lower_of ?devs) (attached_of ?devs) d x)" if "x \<in> dom (map_of ?devs)" for x
    using link_queries [of x ?m] that by (simp_all add: t)
  have "usable_device ?m d = Err STATUS_DELETE_PENDING" using t(4) by (auto simp: usable_device_def)
  moreover have "next_lower_device ?m d = Ok None" "next_attached_device ?m d = Ok None" using query [OF dom] b(3,4) by simp_all
  moreover have "next_lower_device ?m u = Ok (dv_lower e)" if "dv_attached e = Some u" for u
    using query(1) [of u] b(1) [of u] links_okD(3) [OF ok, of d u] that by (simp add: links)
  moreover have "next_attached_device ?m l = Ok (dv_attached e)" if "dv_lower e = Some l" for l
    using query(2) [of l] b(2) [of l] links_okD(4) [OF ok, of d l] that by (simp add: links)
  moreover have "d \<notin> set ds" if "driver_devices ?m k = Some (Ok ds)" for k ds
    unfolding driver_devices_live [OF inv' that] using t(4) by (auto simp: live_devices_def)
  moreover have "queue_of (io_irps ?m) d' = (if d' = d then [] else queue_of (io_irps m) d')" for d' by (simp add: c(1))
  moreover have "if i \<in> set (queue_of (io_irps m) d) then irp_is_cancelled (io_irps ?m) i = Ok True \<and> irp_is_completed (io_irps ?m) i = Ok True
      else map_of (irps (io_irps ?m)) i = map_of (irps (io_irps m)) i" for i
    using c(2,3) [of i d call] by (auto simp: irp_is_cancelled_def irp_is_completed_def with_irp_def)
  ultimately show ?thesis using eq by (intro exI [of _ ?r] exI [of _ ?m]) blast
qed

theorem delete_device_exact_witness:
  "\<exists>r m'. delete_device demo_call demo_io4 3 = Some (r, m') \<and> next_lower_device m' 4 = Ok (Some 2) \<and> irp_is_cancelled (io_irps m') 1 = Ok True"
proof -
  have "rbind (usable_device demo_io4 3) (\<lambda>e. Ok (dv_attached e, dv_lower e)) = Ok (Some 4, Some 2)" by code_simp
  then have "\<exists>e. usable_device demo_io4 3 = Ok e \<and> dv_attached e = Some 4 \<and> dv_lower e = Some 2" by (simp add: rbind_eq_Ok)
  then obtain e where e: "usable_device demo_io4 3 = Ok e" "dv_attached e = Some 4" "dv_lower e = Some 2" by blast
  have "1 \<in> set (queue_of (io_irps demo_io4) 3)" by code_simp
  with delete_device_exact [OF demo_io_reachable [of demo_call] e(1)] e(2,3) show ?thesis by metis
qed

lemma allocate_irp_Ok:
  assumes "usable_device m d = Ok e" "stack_devices m d = Ok chain"
  shows "allocate_irp m d b = (Ok (next_irp (io_irps m)), m\<lparr>io_irps := snd (irp_insert (io_irps m) b (map (initial_location b) chain))\<rparr>)"
  using assms by (simp add: allocate_irp_def irp_insert_def)

text \<open>
  A synchronous request to a live device is allocated with one location per device of the stack, from the bottom up, and is completed at once:
  with success and the length of the block if the block is valid, else with the status of the validation and no information.
\<close>
theorem send_synchronous_exact:
  assumes "(io_step call)\<^sup>*\<^sup>* io_manager_new m" "usable_device m d = Ok e"
  shows "\<exists>i m'. send_synchronous call m d b =
      (Ok \<lparr>sr_irp = i, sr_status = fst (synchronous_outcome b), sr_information = snd (synchronous_outcome b)\<rparr>, m') \<and>
    map_of (irps (io_irps m)) i = None \<and> irp_is_completed (io_irps m') i = Ok True \<and>
    irp_status (io_irps m') i = Ok (fst (synchronous_outcome b)) \<and> irp_information (io_irps m') i = Ok (snd (synchronous_outcome b)) \<and>
    irp_stack_devices m' i = stack_devices m d \<and> io_devices m' = io_devices m"
proof -
  have inv: "io_inv m" by (rule io.reachable_inv [OF refl assms(1)])
  let ?i = "next_irp (io_irps m)"
  obtain chain where chain: "stack_devices m d = Ok chain"
    by (rule stack_devices_spec [OF inv, of d]) (use assms(2) in \<open>auto simp: usable_device_Ok\<close>)
  obtain status n where v: "synchronous_outcome b = (status, n)" by (cases "synchronous_outcome b")
  let ?stack = "map (initial_location b) chain :: 'a io_stack_location list"
  define m1 where "m1 = m\<lparr>io_irps := snd (irp_insert (io_irps m) b ?stack)\<rparr>"
  have alloc: "allocate_irp m d b = (Ok ?i, m1)" using allocate_irp_Ok [OF assms(2) chain] by (simp add: m1_def)
  obtain r where r: "map_of (irps (io_irps m1)) ?i = Some r" "\<not> ir_completed r" "ir_stack r = ?stack" "ir_parameters r = b"
    by (simp add: m1_def irp_insert_def)
  have "completion_walk call ?i n status (ir_stack r) = (status, False, ir_stack r)"
    by (rule completion_walk_plain) (simp add: r(3) initial_location_def)
  note finished = irp_complete_eq [OF r(1,2) this]
  have kept: "io_devices m1 = io_devices m" by (simp add: m1_def)
  have entry: "irp_parameters (io_irps m1) ?i = Ok b" using r by (simp add: irp_parameters_def with_irp_def)
  let ?m = "snd (complete_irp call m1 ?i status n)"
  have "send_synchronous call m d b = (Ok \<lparr>sr_irp = ?i, sr_status = status, sr_information = n\<rparr>, ?m)"
    by (simp add: send_synchronous_def alloc entry v complete_irp_def on_core_def finished)
  moreover have "map_of (irps (io_irps m)) ?i = None" using irp_inv_dest(1) [OF io_invD(4) [OF inv]] by (auto intro: fresh_ids_absent)
  moreover have "irp_is_completed (io_irps ?m) ?i = Ok True" "irp_status (io_irps ?m) ?i = Ok status" "irp_information (io_irps ?m) ?i = Ok n"
    "io_devices ?m = io_devices m"
    by (simp_all add: irp_is_completed_def irp_status_def irp_information_def with_irp_def complete_irp_def on_core_def finished kept)
  moreover have "irp_stack_devices ?m ?i = stack_devices m d"
    by (simp add: chain irp_stack_devices_def irp_stack_view_def with_irp_def complete_irp_def on_core_def finished r(3) location_view_def initial_location_def comp_def)
  ultimately show ?thesis by (intro exI [of _ ?i] exI [of _ ?m]) (simp add: v)
qed

theorem send_synchronous_exact_witness:
  "\<exists>i m'. send_synchronous demo_call demo_io4 4 (parameter_block_new MjRead 0 4) =
      (Ok \<lparr>sr_irp = i, sr_status = STATUS_SUCCESS, sr_information = 4\<rparr>, m') \<and> irp_stack_devices m' i = stack_devices demo_io4 4"
proof -
  have "rbind (usable_device demo_io4 4) (\<lambda>e. Ok ()) = Ok ()" by code_simp
  then obtain e where e: "usable_device demo_io4 4 = Ok e" by (auto simp: rbind_eq_Ok)
  have "synchronous_outcome (parameter_block_new MjRead 0 4) = (STATUS_SUCCESS, 4)" by code_simp
  with send_synchronous_exact [OF demo_io_reachable e, of demo_call "parameter_block_new MjRead 0 4"] show ?thesis by auto
qed

end
