(* ===== verification/Spec2Isabelle.thy ===== *)
theory Spec2Isabelle
  imports Object_Manager Exec_Pool Mdl_Table Interrupts Security Pnp Alpc System_Threads Config Executive Io_Manager
begin

text \<open>
  A verification development of CasaK, the kernel executive of the repository (\<open>src/src/casak\<close>).

  \<^bold>\<open>The program.\<close> CasaK emulates the executive of an NT kernel in plain Rust. Its parts are managers that own their tables:
  objects and handles (\<open>object.rs\<close>), pools, lookaside lists and DPCs (\<open>exec.rs\<close>), clocks, timers, APCs and waits
  (\<open>executive.rs\<close>), virtual memory and memory descriptor lists (\<open>memory.rs\<close>), interrupt vectors (\<open>interrupt.rs\<close>), tokens
  and access checks (\<open>security.rs\<close>), devices and power (\<open>pnp.rs\<close>), message ports (\<open>alpc.rs\<close>), processes, threads and their handles
  (\<open>process.rs\<close>), the scheduler of system threads (\<open>threads.rs\<close>), the registry (\<open>config.rs\<close>), and drivers, device stacks, I/O requests and completion ports (\<open>io.rs\<close>). They interact at a
  few places: the process manager drives the scheduler through the trait \<open>ThreadScheduler\<close>, the executive owns a DPC queue,
  memory descriptor lists lock pages of the memory manager, the I/O manager creates and releases objects of its object manager, and all share the status codes of \<open>status.rs\<close>.

  \<^bold>\<open>The model.\<close> A manager is a \<open>record\<close>, an operation of \<open>&mut self\<close> a function from the manager to a result and the manager
  after the call, an operation of \<open>&self\<close> a function to a result. \<open>Ok\<close>, \<open>Err\<close> and \<open>Panic\<close> are the outcomes of a call; an early return with
  \<open>?\<close> is \<open>rbind\<close> or \<open>attempt\<close> and keeps the state of that point. A \<open>BTreeMap\<close> is the list of its entries in key order, a
  \<open>HashMap\<close> with point operations likewise. Masks and status codes are 32-bit words. Sizes, addresses and counters of 64 bits are
  natural numbers with the checked and saturating arithmetic of the source written out; the overflow of a plain sum or product of addresses, sizes or byte counts of the memory manager
  is a \<open>Panic\<close>. Counters and identifiers that only count up are unbounded. Strings are lists of ASCII characters. A callback is a value of a type
  parameter, and what it is called with is recorded or given by a parameter of the definition.

  \<^item> \<open>Prelude\<close>: results, integers, ordered maps, strings; the locale \<open>invariant_system\<close> (initial states, steps, invariant) that every
    component with an invariant interprets. \<open>Status\<close>: the codes of \<open>status.rs\<close>.
  \<^item> \<open>Object_Manager\<close>: no handle dangles, duplication never adds rights, finalization happens once, teardown and inheritance are exact.
  \<^item> \<open>Exec_Pool\<close>: pool accounting, lookaside lists, DPCs in order and once. \<open>Executive\<close>: waits for all objects are atomic for distinct
    objects and over-grant repeated ones, dispatcher objects are well formed, timers fire once when due.
  \<^item> \<open>Memory\<close> (definitions), \<open>Memory_Inv\<close>, \<open>Memory_Access\<close>, \<open>Memory_Spec\<close>, \<open>Memory_Props\<close>: regions are disjoint, no operation
    panics and failing ones change nothing, reads and writes refine a byte map of the address space, shared sections stay coherent.
    \<open>Mdl_Table\<close>: lock counts and page accounting.
  \<^item> \<open>Interrupts\<close>: sharing rules of vectors, deferred disconnection drains. \<open>Security\<close>: the access check equals its declarative reading,
    deleted tokens never return. \<open>Pnp\<close>: the device forest, removal is final. \<open>Alpc\<close>: one reply per request, a receive with a deadline
    returns.
  \<^item> \<open>Process_Manager\<close>: processes, threads and handles against the locale \<open>thread_scheduler\<close>; \<open>System_Threads\<close>: the scheduler, the
    interpretation of that locale, and the properties of the two together. There the relation \<open>island_step\<close> has every call without
    conditions; \<open>nested_step\<close> and \<open>orderly_step\<close> restrict the argument of \<open>restore_running\<close>, and the properties that need such a restriction state it.
  \<^item> \<open>Config\<close>: the key tree, resolution of links, transactions, values. An invariant of key stores is an instance of the locale
    \<open>store_invariant\<close>.
  \<^item> \<open>Io_Irp\<close>, \<open>Io_Port\<close>, \<open>Io_Device\<close>, \<open>Io_Manager\<close>: requests are completed once under all interleavings, completion ports neither lose nor repeat
    packets, device stacks are chains without cycles, a driver's chain lists its live devices,
    deleting a device cancels exactly the requests queued on it.

  \<^bold>\<open>Loops and bounds.\<close> Loops over tables are structural recursions. The search for a free region ends by a measure on the
  address. Resolution of registry paths, and the walks along device stacks and driver chains are partial functions whose value \<open>None\<close> is a call that does not return: the properties show
  where they return, and a property of \<open>Config\<close> shows where resolution does not. A wait on a condition variable takes the sequence of its wake-ups
  (the time of each and what other threads did before it) as an argument; it returns for every sequence that passes the deadline. No other
  fuel is used.

  \<^bold>\<open>Concurrency.\<close> Managers of \<open>&mut self\<close> have no interleaving inside an operation. Structures behind a lock (ports, the core of I/O requests, completion ports) have one atomic
  step per critical section, and their invariants hold for all interleavings of these steps. The deletion of a device is one step and also
  its parts, between which steps of the request core may fall.

  \<^bold>\<open>Not modelled.\<close> \<open>diagnostics.rs\<close> and \<open>introspection.rs\<close>: reporting surfaces, the first a table of host callbacks, the second
  byte layouts without state. Formatting (\<open>Debug\<close>, \<open>Display\<close>), \<open>Default\<close> and the test modules. Outside \<open>src/src/casak\<close>: the CPU interpreter and
  the JIT, whose correctness is relative to instruction-set semantics; the dispatch of Windows imports, graphics, audio, networking and other
  adapters, which are glue to host services that have no definition in the repository; the driver island and the TPM, which build on
  CasaK and on foreign libraries.
\<close>

end
